(* ===== verification/Prelude.thy ===== *)
theory Prelude
  imports Main "HOL-Library.Word"
begin

text \<open>
  Shared material of the MultiVAC development: the names of the machine types the Go code
  uses, the big-endian byte encoding of Go's \<^verbatim>\<open>encoding/binary\<close>, and the generic
  lemmas on lists and maps that the component theories rely on.

  A Go \<^verbatim>\<open>byte\<close> is an \<^typ>\<open>8 word\<close>, a byte slice or a byte array is a list of bytes. A Go map is a
  partial function; Go's \<^verbatim>\<open>for k := range m { if P(k) { delete(m, k) } }\<close> is the restriction
  \<open>drop_keys P m\<close>. A hash function is a parameter of type \<open>bytes \<Rightarrow> bytes\<close> wherever one is
  used, so that every theorem holds for each hash function.
\<close>

type_synonym byte = "8 word"
type_synonym bytes = "8 word list"
type_synonym int64 = "64 word"
type_synonym addr = nat
type_synonym hash_fun = "bytes \<Rightarrow> bytes"

named_theorems frame \<open>what an operation leaves unchanged\<close>
named_theorems inv_intros \<open>an operation keeps the invariant of its component\<close>

section \<open>Maps\<close>

definition drop_keys :: "('k \<Rightarrow> bool) \<Rightarrow> ('k \<rightharpoonup> 'v) \<Rightarrow> ('k \<rightharpoonup> 'v)" where
  "drop_keys P m = (\<lambda>k. if P k then None else m k)"

section \<open>Big-endian integers\<close>

text \<open>\<open>be_bytes k n\<close> is what \<^verbatim>\<open>binary.BigEndian.PutUint64\<close> writes for \<open>k = 8\<close>;
  \<open>be_val\<close> is what \<^verbatim>\<open>binary.BigEndian.Uint64\<close> reads.\<close>

fun be_bytes :: "nat \<Rightarrow> nat \<Rightarrow> bytes" where
  "be_bytes 0 n = []"
| "be_bytes (Suc k) n = be_bytes k (n div 256) @ [of_nat n]"

definition be_val :: "bytes \<Rightarrow> nat" where
  "be_val bs = foldl (\<lambda>a b. 256 * a + unat b) 0 bs"

lemma drop_keys_apply [simp]: "drop_keys P m k = (if P k then None else m k)"
  by (simp add: drop_keys_def)

lemma drop_keys_Some [simp]: "drop_keys P m k = Some v \<longleftrightarrow> \<not> P k \<and> m k = Some v"
  by simp

lemma dom_drop_keys [simp]: "dom (drop_keys P m) = {k \<in> dom m. \<not> P k}"
  by (auto simp: drop_keys_def split: if_splits)

lemma finite_dom_drop_keys [intro]: "finite (dom m) \<Longrightarrow> finite (dom (drop_keys P m))"
  by simp

lemma length_be_bytes [simp]: "length (be_bytes k n) = k"
  by (induction k arbitrary: n) auto

lemma be_val_Nil [simp]: "be_val [] = 0"
  by (simp add: be_val_def)

lemma be_val_snoc [simp]: "be_val (bs @ [b]) = 256 * be_val bs + unat b"
  by (simp add: be_val_def)

lemma unat_byte_less [simp]: "unat (b :: byte) < 256"
proof -
  have "unat b < 2 ^ LENGTH(8)" by (rule unsigned_less)
  then show ?thesis by simp
qed

lemma be_val_be_bytes: "be_val (be_bytes k n) = n mod 256 ^ k"
proof (induction k arbitrary: n)
  case 0
  then show ?case by simp
next
  case (Suc k)
  have "unat (of_nat n :: byte) = n mod 256"
    by (simp add: unat_of_nat)
  with Suc show ?case
    by (simp add: mod_mult2_eq mult.commute)
qed

lemma be_val_be_bytes_id: "n < 256 ^ k \<Longrightarrow> be_val (be_bytes k n) = n"
  by (simp add: be_val_be_bytes)

lemma be_bytes_be_val: "be_bytes (length bs) (be_val bs) = bs"
proof (induction bs rule: rev_induct)
  case Nil
  then show ?case by simp
next
  case (snoc b bs)
  have "(256 * be_val bs + unat b) div 256 = be_val bs"
    by simp
  moreover have "(of_nat (256 * be_val bs + unat b) :: byte) = b"
  proof -
    have "(of_nat 256 :: byte) = 0" by simp
    then show ?thesis by (simp only: of_nat_add of_nat_mult) simp
  qed
  ultimately show ?case
    using snoc by simp
qed

lemma be_val_less: "be_val bs < 256 ^ length bs"
  by (metis be_bytes_be_val be_val_be_bytes mod_less_divisor zero_less_numeral zero_less_power)

lemma be_val_inj: "length as = length bs \<Longrightarrow> be_val as = be_val bs \<Longrightarrow> as = bs"
  by (metis be_bytes_be_val)

section \<open>Code that may panic\<close>

lemma Some_bind: "Option.bind x f = Some y \<longleftrightarrow> (\<exists>a. x = Some a \<and> f a = Some y)"
  by (cases x) auto

text \<open>Partial correctness of the code that may panic: \<open>post m P\<close> says that \<open>P\<close> holds of what \<open>m\<close> returns. The rules follow the
  structure of the monadic code.\<close>

definition post :: "'a option \<Rightarrow> ('a \<Rightarrow> bool) \<Rightarrow> bool" where
  "post m P \<longleftrightarrow> (\<forall>y. m = Some y \<longrightarrow> P y)"

lemma postD: "post m P \<Longrightarrow> m = Some y \<Longrightarrow> P y"
  by (simp add: post_def)

lemma postI: "(\<And>y. m = Some y \<Longrightarrow> P y) \<Longrightarrow> post m P"
  by (simp add: post_def)

lemma post_mono: "post m P \<Longrightarrow> (\<And>y. P y \<Longrightarrow> Q y) \<Longrightarrow> post m Q"
  by (simp add: post_def)

lemma post_Some: "P y \<Longrightarrow> post (Some y) P"
  by (simp add: post_def)

lemma post_None: "post None P"
  by (simp add: post_def)

lemma post_bind: "(\<And>a. m = Some a \<Longrightarrow> post (f a) P) \<Longrightarrow> post (Option.bind m f) P"
  by (cases m) (auto simp: post_def)

lemma post_if: "(b \<Longrightarrow> post m P) \<Longrightarrow> (\<not> b \<Longrightarrow> post n P) \<Longrightarrow> post (if b then m else n) P"
  by simp

lemma post_option: "(x = None \<Longrightarrow> post m P) \<Longrightarrow> (\<And>a. x = Some a \<Longrightarrow> post (f a) P) \<Longrightarrow> post (case x of None \<Rightarrow> m | Some a \<Rightarrow> f a) P"
  by (cases x) auto

lemma post_prod: "(\<And>a b. x = (a, b) \<Longrightarrow> post (f a b) P) \<Longrightarrow> post (case x of (a, b) \<Rightarrow> f a b) P"
  by (cases x) auto

lemma post_prod_app: "(\<And>a b. x = (a, b) \<Longrightarrow> post (f a b y) P) \<Longrightarrow> post ((case x of (a, b) \<Rightarrow> f a b) y) P"
  by (cases x) auto

lemma post_sum: "(\<And>a. x = Inl a \<Longrightarrow> post (f a) P) \<Longrightarrow> (\<And>a. x = Inr a \<Longrightarrow> post (g a) P) \<Longrightarrow> post (case x of Inl a \<Rightarrow> f a | Inr a \<Rightarrow> g a) P"
  by (cases x) auto

lemma post_map: "(\<And>a. m = Some a \<Longrightarrow> P (f a)) \<Longrightarrow> post (map_option f m) P"
  by (auto simp: post_def)

lemmas post_rules = post_Some post_None post_bind post_if post_option post_prod post_prod_app post_sum post_map

section \<open>Simulations\<close>

text \<open>A component is used through operations that return an answer and a new state, or panic. \<open>run_ops\<close> is a sequence of operations.
  The contract of a component with respect to an abstract one is that a single operation on related states has the same answer,
  panics on both sides or on none, and leads to related states; then so does every sequence.\<close>

fun run_ops :: "('op \<Rightarrow> 's \<Rightarrow> ('a \<times> 's) option) \<Rightarrow> 'op list \<Rightarrow> 's \<Rightarrow> ('a list \<times> 's) option" where
  "run_ops f [] s = Some ([], s)"
| "run_ops f (p # ps) s =
     (case f p s of None \<Rightarrow> None | Some (a, s) \<Rightarrow> map_option (\<lambda>(as, s). (a # as, s)) (run_ops f ps s))"

locale simulation =
  fixes cstep :: "'op \<Rightarrow> 's \<Rightarrow> ('a \<times> 's) option"
    and astep :: "'op \<Rightarrow> 't \<Rightarrow> ('a \<times> 't) option"
    and R :: "'s \<Rightarrow> 't \<Rightarrow> bool"
  assumes step_sim: "R s t \<Longrightarrow> rel_option (rel_prod (=) R) (cstep p s) (astep p t)"
begin

lemma run_sim: "R s t \<Longrightarrow> rel_option (rel_prod (=) R) (run_ops cstep ps s) (run_ops astep ps t)"
proof (induction ps arbitrary: s t)
  case (Cons p ps)
  show ?case using step_sim [OF Cons.prems, of p]
  proof (cases rule: option.rel_cases)
    case (Some x y)
    then obtain a s' t' where "x = (a, s')" "y = (a, t')" "R s' t'" by (cases x; cases y) auto
    then show ?thesis using Cons.IH [of s' t'] Some
      by (cases "run_ops cstep ps s'"; cases "run_ops astep ps t'") auto
  qed simp
qed simp

lemma run_panics: "R s t \<Longrightarrow> run_ops cstep ps s = None \<longleftrightarrow> run_ops astep ps t = None"
  using run_sim [of s t ps] by (cases "run_ops cstep ps s"; cases "run_ops astep ps t") auto

lemma run_answers: "R s t \<Longrightarrow> run_ops cstep ps s = Some (as, s') \<Longrightarrow> \<exists>t'. run_ops astep ps t = Some (as, t') \<and> R s' t'"
  using run_sim [of s t ps] by (cases "run_ops astep ps t") auto

end

end
