(* ===== verification/Sha256.thy ===== *)
theory Sha256
  imports Prelude
begin

text \<open>
  SHA-256 (FIPS 180-4), the function behind Go's \<^verbatim>\<open>crypto/sha256.Sum256\<close>, which the ledger
  uses for every Merkle hash. The components take the hash function as a parameter; this theory
  is the instance the program runs with. \<open>sum256\<close> always yields 32 bytes, which is the one law
  that the Merkle components rely on (locale \<open>hash_fn\<close>).
\<close>

unbundle bit_operations_syntax

type_synonym w32 = "32 word"

text \<open>The constants, as the standard derives them: the first 32 bits of the fractional parts of the
  cube roots (square roots for the initial state) of the first primes. \<open>iroot k n b\<close> builds the
  largest number below \<open>2 ^ b\<close> whose \<open>k\<close>-th power is at most \<open>n\<close>, bit by bit.\<close>

fun iroot :: "nat \<Rightarrow> nat \<Rightarrow> nat \<Rightarrow> nat \<Rightarrow> nat" where
  "iroot k n 0 acc = acc"
| "iroot k n (Suc b) acc = iroot k n b (if (acc + 2 ^ b) ^ k \<le> n then acc + 2 ^ b else acc)"

definition root_frac :: "nat \<Rightarrow> nat \<Rightarrow> w32" where
  "root_frac k p = of_nat (iroot k (p * 2 ^ (32 * k)) 40 0)"

definition small_primes :: "nat list" where
  "small_primes = filter (\<lambda>n. list_all (\<lambda>d. n mod d \<noteq> 0) [2..<n]) [2..<312]"

definition K256 :: "w32 list" where
  "K256 = map (root_frac 3) small_primes"

datatype regs = Regs w32 w32 w32 w32 w32 w32 w32 w32

definition init_regs :: regs where
  "init_regs =
     (case map (root_frac 2) (take 8 small_primes) of
        [a, b, c, d, e, f, g, h] \<Rightarrow> Regs a b c d e f g h | _ \<Rightarrow> Regs 0 0 0 0 0 0 0 0)"

definition rotr :: "nat \<Rightarrow> w32 \<Rightarrow> w32" where
  "rotr n x = drop_bit n x OR push_bit (32 - n) x"

definition sigma0 :: "w32 \<Rightarrow> w32" where
  "sigma0 x = rotr 7 x XOR rotr 18 x XOR drop_bit 3 x"

definition sigma1 :: "w32 \<Rightarrow> w32" where
  "sigma1 x = rotr 17 x XOR rotr 19 x XOR drop_bit 10 x"

definition Sigma0 :: "w32 \<Rightarrow> w32" where
  "Sigma0 x = rotr 2 x XOR rotr 13 x XOR rotr 22 x"

definition Sigma1 :: "w32 \<Rightarrow> w32" where
  "Sigma1 x = rotr 6 x XOR rotr 11 x XOR rotr 25 x"

text \<open>The message schedule, newest word first.\<close>

definition sched_next :: "w32 list \<Rightarrow> w32" where
  "sched_next ws = sigma1 (ws ! 1) + ws ! 6 + sigma0 (ws ! 14) + ws ! 15"

fun schedule :: "nat \<Rightarrow> w32 list \<Rightarrow> w32 list" where
  "schedule 0 ws = rev ws"
| "schedule (Suc n) ws = schedule n (sched_next ws # ws)"

fun round256 :: "w32 \<times> w32 \<Rightarrow> regs \<Rightarrow> regs" where
  "round256 (k, w) (Regs a b c d e f g h) =
     (let t1 = h + Sigma1 e + ((e AND f) XOR (NOT e AND g)) + k + w;
          t2 = Sigma0 a + ((a AND b) XOR (a AND c) XOR (b AND c))
      in Regs (t1 + t2) a b c (d + t1) e f g)"

fun add_regs :: "regs \<Rightarrow> regs \<Rightarrow> regs" where
  "add_regs (Regs a b c d e f g h) (Regs a' b' c' d' e' f' g' h') =
     Regs (a + a') (b + b') (c + c') (d + d') (e + e') (f + f') (g + g') (h + h')"

fun words_of :: "bytes \<Rightarrow> w32 list" where
  "words_of (a # b # c # d # bs) = (push_bit 24 (ucast a) OR push_bit 16 (ucast b) OR push_bit 8 (ucast c) OR ucast d) # words_of bs"
| "words_of bs = []"

definition compress :: "bytes \<Rightarrow> regs \<Rightarrow> regs" where
  "compress block r = add_regs r (fold round256 (zip K256 (schedule 48 (rev (words_of block)))) r)"

function blocks :: "bytes \<Rightarrow> regs \<Rightarrow> regs" where
  "blocks bs r = (if length bs < 64 then r else blocks (drop 64 bs) (compress (take 64 bs) r))"
  by pat_completeness auto
termination
  by (relation "measure (\<lambda>(bs, r). length bs)") auto

definition pad256 :: "bytes \<Rightarrow> bytes" where
  "pad256 m = m @ [0x80] @ replicate ((119 - length m mod 64) mod 64) 0 @ be_bytes 8 (8 * length m)"

fun digest :: "regs \<Rightarrow> bytes" where
  "digest (Regs a b c d e f g h) = concat (map (\<lambda>w. [ucast (drop_bit 24 w), ucast (drop_bit 16 w), ucast (drop_bit 8 w), ucast w]) [a, b, c, d, e, f, g, h])"

definition sum256 :: hash_fun where
  "sum256 m = digest (blocks (pad256 m) init_regs)"

text \<open>The contract of a 32-byte hash function.\<close>

locale hash_fn =
  fixes H :: hash_fun
  assumes length_H: "length (H m) = 32"

declare blocks.simps [simp del]

lemma length_digest: "length (digest r) = 32"
  by (cases r) simp

text \<open>The padded message is a whole number of blocks, so no byte of it is left out.\<close>

lemma pad256_blocks: "length (pad256 m) mod 64 = 0"
proof -
  define q r where "q = length m div 64" and "r = length m mod 64"
  have m: "length m = 64 * q + r" and r: "r < 64"
    by (simp_all add: q_def r_def)
  have "(119 - r) mod 64 = (if r \<le> 55 then 55 - r else 119 - r)"
    using r by (simp add: le_mod_geq)
  then have "length (pad256 m) = (if r \<le> 55 then 64 * (q + 1) else 64 * (q + 2))"
    using m r by (simp add: pad256_def r_def [symmetric])
  then show ?thesis
    by simp
qed

interpretation sha: hash_fn sum256
  by unfold_locales (simp add: sum256_def length_digest)

end
