(* ===== verification/Bits.thy ===== *)
theory Bits
  imports Prelude
begin

text \<open>
  The bit arithmetic behind the Merkle tree shapes: \<open>pc\<close> counts the one bits of a number, \<open>tz\<close>
  its trailing zero bits. The code computes them on \<^verbatim>\<open>int64\<close> values with the two idioms
  \<^verbatim>\<open>v & (v - 1)\<close> (clear the lowest one bit) and \<^verbatim>\<open>v & ^(v - 1)\<close> (keep only the lowest one bit).
\<close>

unbundle bit_operations_syntax

fun pc :: "nat \<Rightarrow> nat" where
  "pc n = (if n = 0 then 0 else n mod 2 + pc (n div 2))"
fun tz :: "nat \<Rightarrow> nat" where
  "tz n = (if n = 0 \<or> odd n then 0 else Suc (tz (n div 2)))"

declare pc.simps [simp del] tz.simps [simp del]

lemma pc_0 [simp]: "pc 0 = 0" by (simp add: pc.simps)

lemma pc_double: "pc (2 * n) = pc n" by (cases "n = 0") (simp_all add: pc.simps [of "2 * n"])

lemma pc_double1: "pc (Suc (2 * n)) = Suc (pc n)" by (simp add: pc.simps [of "Suc (2 * n)"])

lemma and_pred_double: "0 < n \<Longrightarrow> 2 * n AND (2 * n - Suc 0) = 2 * (n AND (n - Suc 0))" for n :: nat
proof -
  assume "0 < n"
  then have "(2 * n - Suc 0) div 2 = n - Suc 0" by simp
  then show ?thesis by (subst and_rec) simp
qed

lemma and_pred_double1: "Suc (2 * n) AND (2 * n) = 2 * n" for n :: nat
  by (subst and_rec) simp

lemma pc_and_pred: "0 < n \<Longrightarrow> Suc (pc (n AND (n - 1))) = pc n"
proof (induction n rule: pc.induct)
  case (1 n)
  show ?case
  proof (cases "even n")
    case True
    then obtain m where m: "n = 2 * m" by blast
    with "1.prems" have "0 < m" by simp
    with 1 m show ?thesis by (simp add: and_pred_double pc_double)
  next
    case False
    then obtain m where "n = Suc (2 * m)" by (metis oddE Suc_eq_plus1)
    then show ?thesis by (simp add: and_pred_double1 pc_double pc_double1)
  qed
qed

lemma tz_double: "0 < m \<Longrightarrow> tz (2 * m) = Suc (tz m)"
  by (simp add: tz.simps [of "2 * m"])

lemma lsb_int: "0 < n \<Longrightarrow> int n AND NOT (int n - 1) = 2 ^ tz n"
proof (induction n rule: tz.induct)
  case (1 n)
  have n: "NOT (int n - 1) = - int n" by (simp add: not_eq_complement)
  show ?case
  proof (cases "even n")
    case True
    then obtain m where m: "n = 2 * m" by blast
    with "1.prems" have "0 < m" by simp
    with 1 m have "int m AND - int m = 2 ^ tz m" by (simp add: not_eq_complement)
    moreover have "- (2 * int m) div 2 = - int m" by presburger
    then have "int n AND - int n = 2 * (int m AND - int m)"
      by (subst and_rec) (simp add: m)
    moreover have "tz n = Suc (tz m)"
      using m \<open>0 < m\<close> by (simp add: tz_double)
    ultimately show ?thesis using n by simp
  next
    case False
    then obtain m where m: "n = Suc (2 * m)" by (metis oddE Suc_eq_plus1)
    have "- int n div 2 = NOT (int m)" using m by (simp add: not_eq_complement)
    then have "int n AND - int n = 1" by (subst and_rec) (simp add: m)
    then show ?thesis using n False by (simp add: tz.simps [of n])
  qed
qed

lemma lsb_word: "0 < n \<Longrightarrow> (of_nat n :: int64) AND NOT (of_nat n - 1) = 2 ^ tz n"
proof -
  assume n: "0 < n"
  have "(of_nat n :: int64) AND NOT (of_nat n - 1) = of_int (int n AND NOT (int n - 1))"
    by (simp add: of_int_and_eq of_int_not_eq)
  then show ?thesis using lsb_int [OF n] by simp
qed

lemma pc_mask: "pc (2 ^ k - 1) = k"
proof (induction k)
  case (Suc k)
  have "(1::nat) \<le> 2 ^ k" by simp
  then have "2 ^ Suc k - 1 = Suc (2 * (2 ^ k - 1))" unfolding power_Suc by linarith
  then show ?case using Suc by (metis pc_double1)
qed simp

lemma unat_int64_of_nat: "n < 2 ^ 64 \<Longrightarrow> unat (of_nat n :: int64) = n"
  by (simp add: unat_of_nat take_bit_nat_eq_self)

lemma unat_int64_pow: "k < 64 \<Longrightarrow> unat ((2::int64) ^ k) = 2 ^ k"
proof -
  assume k: "k < 64"
  then have "(2::nat) ^ k < 2 ^ 64" by (intro power_strict_increasing) auto
  then show ?thesis using unat_int64_of_nat [of "2 ^ k"] by simp
qed

lemma pc_add: "m < 2 ^ k \<Longrightarrow> pc (2 ^ k + m) = Suc (pc m)"
proof (induction k arbitrary: m)
  case 0 then show ?case by (simp add: pc.simps)
next
  case (Suc k)
  have "m div 2 < 2 ^ k" using Suc.prems by auto
  then have "pc (2 ^ k + m div 2) = Suc (pc (m div 2))" by (rule Suc.IH)
  then show ?case
   by (subst pc.simps) (simp add: pc.simps [of m]) 
qed

lemma tz_add: "0 < m \<Longrightarrow> m < 2 ^ k \<Longrightarrow> tz (2 ^ k + m) = tz m"
proof (induction k arbitrary: m)
  case 0 then show ?case by simp
next
  case (Suc k)
  have "m div 2 < 2 ^ k" using Suc.prems by auto
  then show ?case using Suc.IH [of "m div 2"] Suc.prems
   by (subst (1 2) tz.simps) auto 
qed

lemma tz_pow: "tz (2 ^ k) = k"
  by (induction k) (simp_all add: tz.simps)

lemma tz_le: "0 < n \<Longrightarrow> 2 ^ tz n \<le> n"
proof (induction n rule: tz.induct)
  case (1 n)
  show ?case
  proof (cases "even n")
    case True
    then have "2 ^ tz (n div 2) \<le> n div 2" using 1 by (auto elim!: evenE)
    then show ?thesis using True "1.prems" by (subst tz.simps) auto
  qed (use "1.prems" in \<open>simp add: tz.simps\<close>)
qed

lemma int64_of_nat_0: "n < 2 ^ 63 \<Longrightarrow> (of_nat n :: int64) = 0 \<longleftrightarrow> n = 0"
proof -
  assume "n < 2 ^ 63"
  then have "unat (of_nat n :: int64) = n" by (intro unat_int64_of_nat) simp
  then show ?thesis by auto
qed

end
