(* ===== verification/MerklePath.thy ===== *)
theory MerklePath
  imports Sha256 Bits
begin

text \<open>
  Merkle hashes and Merkle paths: \<^verbatim>\<open>src/model/merkle/utils.go\<close>, the hash and path part of
  \<^verbatim>\<open>src/model/merkle/common.go\<close> and \<^verbatim>\<open>countOne\<close> of \<^verbatim>\<open>src/model/merkle/delta_merkle_tree.go\<close>.

  A \<^verbatim>\<open>MerkleHash\<close> is a 32-byte list; \<^verbatim>\<open>sha256.Sum256\<close> is the parameter \<open>H\<close>. The lemmas show
  what a verified path proves: two verified paths with the same sides start at the same leaf
  unless the hash function collides on the data they hash.
\<close>

unbundle bit_operations_syntax

section \<open>Definitions\<close>

type_synonym MerkleHash = bytes

definition HashSize :: nat where
  "HashSize = 32"

definition Left :: byte where
  "Left = 0"

definition Right :: byte where
  "Right = 1"

definition EmptyHash :: MerkleHash where
  "EmptyHash = replicate HashSize 0"

definition hex_digit :: "nat \<Rightarrow> char" where
  "hex_digit n = ''0123456789abcdef'' ! n"

definition hex_encode :: "bytes \<Rightarrow> string" where
  "hex_encode bs = concat (map (\<lambda>b. [hex_digit (unat b div 16), hex_digit (unat b mod 16)]) bs)"

text \<open>\<^verbatim>\<open>MerkleHash.String\<close>: the loop swaps byte \<open>i\<close> with byte \<open>31 - i\<close> for \<open>i < 16\<close>.\<close>

fun swap_bytes :: "nat \<Rightarrow> MerkleHash \<Rightarrow> MerkleHash" where
  "swap_bytes 0 h = h"
| "swap_bytes (Suc i) h =
     (let g = swap_bytes i h in g[i := g ! (HashSize - 1 - i), HashSize - 1 - i := g ! i])"

definition hash_String :: "MerkleHash \<Rightarrow> string" where
  "hash_String h = hex_encode (swap_bytes (HashSize div 2) h)"

definition IsEmptyHash :: "MerkleHash \<Rightarrow> bool" where
  "IsEmptyHash h = list_all (\<lambda>b. b = 0) h"

definition hash_Equal :: "MerkleHash \<Rightarrow> MerkleHash \<Rightarrow> bool" where
  "hash_Equal h x = (h = x)"

text \<open>\<^verbatim>\<open>copy(bytes[:], b)\<close> into a zeroed 32-byte array.\<close>

definition convertBytesToMerkleHash :: "bytes \<Rightarrow> MerkleHash" where
  "convertBytesToMerkleHash b = take HashSize b @ replicate (HashSize - length b) 0"

definition ComputeMerkleHash :: "hash_fun \<Rightarrow> bytes \<Rightarrow> MerkleHash" where
  "ComputeMerkleHash H b = H b"

text \<open>\<^verbatim>\<open>make([]byte, HashSize*2)\<close> has length 64, so the two hashes are appended after 64 zero
  bytes.\<close>

definition hash_input :: "MerkleHash \<Rightarrow> MerkleHash \<Rightarrow> byte \<Rightarrow> bytes" where
  "hash_input h siblingHash pos =
     replicate (HashSize * 2) 0 @ (if pos = Left then h @ siblingHash else siblingHash @ h)"

definition Hash :: "hash_fun \<Rightarrow> MerkleHash \<Rightarrow> MerkleHash \<Rightarrow> byte \<Rightarrow> MerkleHash" where
  "Hash H h siblingHash pos = H (hash_input h siblingHash pos)"

datatype merkle_error =
    ErrPathLength
  | RootHashMismatchError MerkleHash MerkleHash
  | ErrLastPathLength
  | ErrNotLastNode
  | ErrSizeUnknown
  | ErrLastNodeUnknown
  | ErrSizeAlreadySet
  | ErrHashNotFound MerkleHash
  | ErrSubtreeNil
  | ErrSubtreeRootNotInTop
  | ErrSubtreeRootNotInSub

record MerklePath =
  Hashes :: "MerkleHash list"
  ProofPath :: "byte list"

text \<open>The loop of \<^verbatim>\<open>Verify\<close>: \<open>actualHash\<close> is folded with the proof hashes.\<close>

fun fold_path :: "hash_fun \<Rightarrow> MerkleHash \<Rightarrow> MerkleHash list \<Rightarrow> byte list \<Rightarrow> MerkleHash" where
  "fold_path H actual (s # proof) (pos # path) = fold_path H (Hash H actual s pos) proof path"
| "fold_path H actual _ _ = actual"

definition path_Verify :: "hash_fun \<Rightarrow> MerklePath \<Rightarrow> MerkleHash \<Rightarrow> merkle_error + unit" where
  "path_Verify H p expectedHash =
     (if length (ProofPath p) + 1 \<noteq> length (Hashes p) then Inl ErrPathLength
      else let actual = fold_path H (hd (Hashes p)) (tl (Hashes p)) (ProofPath p)
           in if actual = expectedHash then Inr ()
              else Inl (RootHashMismatchError expectedHash actual))"

text \<open>\<^verbatim>\<open>GetLeaf\<close> indexes \<open>Hashes[0]\<close>: a panic (\<^const>\<open>None\<close>) on an empty path.\<close>

definition GetLeaf :: "MerklePath \<Rightarrow> MerkleHash option" where
  "GetLeaf p = (case Hashes p of [] \<Rightarrow> None | h # _ \<Rightarrow> Some h)"

function countOne :: "int64 \<Rightarrow> nat" where
  "countOne v = (if v = 0 then 0 else Suc (countOne (v AND (v - 1))))"
  by pat_completeness auto
termination
proof (relation "measure unat")
  fix v :: int64
  assume v: "v \<noteq> 0"
  have "unat (v AND (v - 1)) \<le> unat (v - 1)"
    by (simp add: word_and_le1 word_le_nat_alt [symmetric])
  also have "\<dots> < unat v"
    using v by (simp add: unat_minus_one unat_gt_0)
  finally show "(v AND (v - 1), v) \<in> measure unat"
    by simp
qed simp

definition VerifyLastNodeMerklePath ::
    "hash_fun \<Rightarrow> MerkleHash \<Rightarrow> int64 \<Rightarrow> MerklePath \<Rightarrow> merkle_error + unit" where
  "VerifyLastNodeMerklePath H merkleRoot sz p =
     (case path_Verify H p merkleRoot of
        Inl e \<Rightarrow> Inl e
      | Inr _ \<Rightarrow>
          let lengthOfProof = countOne (sz - 1)
          in if length (ProofPath p) \<noteq> lengthOfProof \<or> length (Hashes p) \<noteq> lengthOfProof + 1
             then Inl ErrLastPathLength
             else if list_all (\<lambda>pos. pos = Left) (ProofPath p) then Inr () else Inl ErrNotLastNode)"

text \<open>The messages a verification hashes, and the side of the sibling at each level.\<close>

fun path_inputs :: "hash_fun \<Rightarrow> MerkleHash \<Rightarrow> MerkleHash list \<Rightarrow> byte list \<Rightarrow> bytes list" where
  "path_inputs H actual (s # proof) (pos # path) =
     hash_input actual s pos # path_inputs H (Hash H actual s pos) proof path"
| "path_inputs H actual _ _ = []"

definition verify_inputs :: "hash_fun \<Rightarrow> MerklePath \<Rightarrow> bytes set" where
  "verify_inputs H p = set (path_inputs H (hd (Hashes p)) (tl (Hashes p)) (ProofPath p))"

definition sides :: "MerklePath \<Rightarrow> bool list" where
  "sides p = map (\<lambda>pos. pos = Left) (ProofPath p)"

definition wf_hashes :: "MerkleHash list \<Rightarrow> bool" where
  "wf_hashes hs = list_all (\<lambda>h. length h = HashSize) hs"

section \<open>Lemmas\<close>

declare countOne.simps [simp del]

lemma countOne_pc: "countOne v = pc (unat v)"
proof (induction v rule: countOne.induct)
  case (1 v)
  show ?case
  proof (cases "v = 0")
    case True
    then show ?thesis by (simp add: countOne.simps)
  next
    case False
    then have "unat (v AND (v - 1)) = unat v AND (unat v - 1)"
      by (simp add: unsigned_and_eq unat_minus_one)
    moreover have "0 < unat v" using False by (simp add: unat_gt_0)
    ultimately show ?thesis
      using 1 False pc_and_pred [of "unat v"] by (simp add: countOne.simps [of v])
  qed
qed

lemma countOne_mask: "k < 64 \<Longrightarrow> countOne (2 ^ k - 1) = k"
proof -
  assume k: "k < 64"
  have "unat ((2::int64) ^ k) = 2 ^ k" using k by (rule unat_int64_pow)
  moreover have "(2::int64) ^ k \<noteq> 0" using calculation by (metis power_not_zero unat_0 zero_neq_numeral)
  ultimately show ?thesis by (simp add: countOne_pc unat_minus_one pc_mask [simplified])
qed

lemma Left_Right [simp]: "Left \<noteq> Right" "Right \<noteq> Left"
  by (simp_all add: Left_def Right_def)

lemma length_convertBytes [simp]: "length (convertBytesToMerkleHash b) = HashSize"
  by (simp add: convertBytesToMerkleHash_def)

lemma convertBytes_id: "length b = HashSize \<Longrightarrow> convertBytesToMerkleHash b = b"
  by (simp add: convertBytesToMerkleHash_def)

lemma IsEmptyHash_iff: "length h = HashSize \<Longrightarrow> IsEmptyHash h \<longleftrightarrow> h = EmptyHash"
  by (auto simp: IsEmptyHash_def EmptyHash_def list_all_iff intro: replicate_eqI)

lemma hash_input_inj:
  assumes "length a = HashSize" "length b = HashSize" "length c = HashSize" "length d = HashSize"
    and "(p = Left) = (q = Left)" and "hash_input a b p = hash_input c d q"
  shows "a = c \<and> b = d"
  using assms by (auto simp: hash_input_def split: if_splits)

lemma Hash_swap: "Hash H a b Left = Hash H b a Right"
  by (simp add: Hash_def hash_input_def)

lemma fold_path_append:
  "length proof1 = length path1 \<Longrightarrow>
   fold_path H h (proof1 @ proof2) (path1 @ path2) = fold_path H (fold_path H h proof1 path1) proof2 path2"
  by (induction proof1 path1 arbitrary: h rule: list_induct2) auto

lemma path_Verify_Inr:
  "path_Verify H p r = Inr () \<longleftrightarrow>
   (\<exists>h proof. Hashes p = h # proof \<and> length proof = length (ProofPath p) \<and>
      fold_path H h proof (ProofPath p) = r)"
  by (cases "Hashes p") (auto simp: path_Verify_def Let_def)

lemma unit_sum_cases: "x = Inr () \<or> (\<exists>e. x = Inl e)" for x :: "merkle_error + unit"
  by (cases x) auto

text \<open>Equal results of two folds with the same sides go back to equal starting hashes and equal
  proofs: induction from the leaf to the root, each level inverting the hash.\<close>

lemma fold_path_inj:
  assumes len: "length proof1 = length path1" "length proof2 = length path2"
    and sides: "map (\<lambda>p. p = Left) path1 = map (\<lambda>p. p = Left) path2"
    and wf: "wf_hashes (h1 # proof1)" "wf_hashes (h2 # proof2)"
    and H: "\<And>m. length (H m) = HashSize"
    and inj: "inj_on H (set (path_inputs H h1 proof1 path1) \<union> set (path_inputs H h2 proof2 path2))"
    and eq: "fold_path H h1 proof1 path1 = fold_path H h2 proof2 path2"
  shows "h1 = h2 \<and> proof1 = proof2"
  using assms
proof (induction proof1 path1 arbitrary: h1 h2 proof2 path2 rule: list_induct2)
  case Nil
  then show ?case by simp
next
  case (Cons s1 proof1 pos1 path1)
  from Cons.prems obtain s2 proof2' pos2 path2' where
    p2: "proof2 = s2 # proof2'" "path2 = pos2 # path2'" "length proof2' = length path2'"
    by (cases proof2; cases path2) auto
  let ?x1 = "hash_input h1 s1 pos1" and ?x2 = "hash_input h2 s2 pos2"
  have "H ?x1 = H ?x2 \<and> proof1 = proof2'"
    using Cons.IH [where ?h1.0 = "H ?x1" and ?h2.0 = "H ?x2" and ?proof2.0 = proof2' and ?path2.0 = path2']
      Cons.prems p2 by (auto simp: Hash_def wf_hashes_def intro: inj_on_subset)
  moreover have "?x1 = ?x2" if "H ?x1 = H ?x2"
    by (rule inj_onD [OF Cons.prems(6) that]) (simp_all add: p2)
  ultimately have "?x1 = ?x2" and pf: "proof1 = proof2'"
    by auto
  then have "h1 = h2 \<and> s1 = s2"
    using Cons.prems p2 by (intro hash_input_inj [of h1 s1 h2 s2 pos1 pos2]) (auto simp: wf_hashes_def)
  with pf p2 show ?case by simp
qed

lemma path_binding:
  assumes "path_Verify H p r = Inr ()" "path_Verify H q r = Inr ()"
    and "sides p = sides q"
    and "wf_hashes (Hashes p)" "wf_hashes (Hashes q)"
    and "\<And>m. length (H m) = HashSize"
    and "inj_on H (verify_inputs H p \<union> verify_inputs H q)"
  shows "Hashes p = Hashes q"
proof -
  from assms(1) obtain h1 proof1 where p: "Hashes p = h1 # proof1"
    "length proof1 = length (ProofPath p)" "fold_path H h1 proof1 (ProofPath p) = r"
    by (auto simp: path_Verify_Inr)
  from assms(2) obtain h2 proof2 where q: "Hashes q = h2 # proof2"
    "length proof2 = length (ProofPath q)" "fold_path H h2 proof2 (ProofPath q) = r"
    by (auto simp: path_Verify_Inr)
  have "h1 = h2 \<and> proof1 = proof2"
    using assms p q by (intro fold_path_inj [where H = H]) (auto simp: sides_def verify_inputs_def)
  with p q show ?thesis by simp
qed

end
