(* ===== verification/MerkleSpec.thy ===== *)
theory MerkleSpec
  imports MerklePath
begin

text \<open>
  Merkle trees as values. \<open>mth H xs\<close> is the reference Merkle root of a list of leaves: split at
  the largest power of two below the length, as in RFC 6962. A tree node carries the heap address
  that represents it, so that the heap lemmas can speak about single nodes. \<open>canon\<close> is the shape
  the code keeps: every left subtree is as large a power of two as possible.
\<close>

section \<open>Reference root\<close>

text \<open>The largest power of two below \<open>n\<close>, for \<open>n \<ge> 2\<close>.\<close>

fun lp2 :: "nat \<Rightarrow> nat" where
  "lp2 n = (if n \<le> 2 then 1 else 2 * lp2 ((n + 1) div 2))"

declare lp2.simps [simp del]

lemma lp2_pow: "2 \<le> n \<Longrightarrow> \<exists>k. lp2 n = 2 ^ k \<and> 2 ^ k < n \<and> n \<le> 2 ^ Suc k"
proof (induction n rule: lp2.induct)
  case (1 n)
  show ?case
  proof (cases "n \<le> 2")
    case True
    with "1.prems" show ?thesis by (intro exI [of _ 0]) (simp add: lp2.simps)
  next
    case False
    then have "2 \<le> (n + 1) div 2" by simp
    with False obtain k where k: "lp2 ((n + 1) div 2) = 2 ^ k" "2 ^ k < (n + 1) div 2" "(n + 1) div 2 \<le> 2 ^ Suc k"
      using "1.IH" by blast
    then have "2 * 2 ^ k < n" "n \<le> 2 * 2 ^ Suc k" by linarith+
    then show ?thesis using False k by (intro exI [of _ "Suc k"]) (simp add: lp2.simps [of n])
  qed
qed

lemma lp2_less: "2 \<le> n \<Longrightarrow> lp2 n < n"
  using lp2_pow [of n] by auto

lemma lp2_pos: "0 < lp2 n"
  by (induction n rule: lp2.induct) (simp add: lp2.simps)

lemma lp2_unique: "2 ^ k < n \<Longrightarrow> n \<le> 2 ^ Suc k \<Longrightarrow> lp2 n = 2 ^ k"
proof -
  assume k: "2 ^ k < n" "n \<le> 2 ^ Suc k"
  then have "2 \<le> n" using one_le_power [of 2 k] by (cases n) auto
  then obtain j where j: "lp2 n = 2 ^ j" "2 ^ j < n" "n \<le> 2 ^ Suc j" using lp2_pow by blast
  have "(2::nat) ^ k < 2 ^ Suc j" "(2::nat) ^ j < 2 ^ Suc k" using k j by linarith+
  then have "k < Suc j" "j < Suc k" by (simp_all only: power_strict_increasing_iff [of 2])
  with j show ?thesis by simp
qed

lemma lp2_double: "lp2 (2 ^ Suc k) = 2 ^ k"
  by (rule lp2_unique) simp_all

function mth :: "hash_fun \<Rightarrow> MerkleHash list \<Rightarrow> MerkleHash" where
  "mth H xs =
     (if length xs \<le> 1 then concat xs
      else let k = lp2 (length xs) in Hash H (mth H (take k xs)) (mth H (drop k xs)) Right)"
  by pat_completeness auto
termination
  by (relation "measure (\<lambda>(H, xs). length xs)") (auto simp: lp2_less lp2_pos intro: diff_less)

declare mth.simps [simp del]

section \<open>Trees\<close>

datatype mtree = Lf addr MerkleHash | Nd addr MerkleHash mtree mtree

primrec raddr :: "mtree \<Rightarrow> addr" where
  "raddr (Lf a h) = a"
| "raddr (Nd a h l r) = a"

primrec rhash :: "mtree \<Rightarrow> MerkleHash" where
  "rhash (Lf a h) = h"
| "rhash (Nd a h l r) = h"

primrec addrs :: "mtree \<Rightarrow> addr list" where
  "addrs (Lf a h) = [a]"
| "addrs (Nd a h l r) = a # addrs l @ addrs r"

primrec hashes :: "mtree \<Rightarrow> MerkleHash list" where
  "hashes (Lf a h) = [h]"
| "hashes (Nd a h l r) = h # hashes l @ hashes r"

primrec leaves :: "mtree \<Rightarrow> MerkleHash list" where
  "leaves (Lf a h) = [h]"
| "leaves (Nd a h l r) = leaves l @ leaves r"

primrec leaf_addrs :: "mtree \<Rightarrow> addr list" where
  "leaf_addrs (Lf a h) = [a]"
| "leaf_addrs (Nd a h l r) = leaf_addrs l @ leaf_addrs r"

abbreviation entries :: "mtree \<Rightarrow> (MerkleHash \<times> addr) list" where
  "entries t \<equiv> zip (hashes t) (addrs t)"

primrec hash_ok :: "hash_fun \<Rightarrow> mtree \<Rightarrow> bool" where
  "hash_ok H (Lf a h) = True"
| "hash_ok H (Nd a h l r) = (h = Hash H (rhash l) (rhash r) Right \<and> hash_ok H l \<and> hash_ok H r)"

primrec canon :: "mtree \<Rightarrow> bool" where
  "canon (Lf a h) = True"
| "canon (Nd a h l r) =
     (length (leaves l) = lp2 (length (leaves l) + length (leaves r)) \<and> canon l \<and> canon r)"

text \<open>The Merkle proof of the node at an address: sibling hashes and sides, leaf to root.\<close>

primrec tpath :: "mtree \<Rightarrow> addr \<Rightarrow> (MerkleHash \<times> byte) list" where
  "tpath (Lf a h) x = []"
| "tpath (Nd a h l r) x =
     (if x = a then []
      else if x \<in> set (addrs l) then tpath l x @ [(rhash r, Right)]
      else tpath r x @ [(rhash l, Left)])"

primrec hash_at :: "mtree \<Rightarrow> addr \<Rightarrow> MerkleHash" where
  "hash_at (Lf a h) x = h"
| "hash_at (Nd a h l r) x = (if x = a then h else if x \<in> set (addrs l) then hash_at l x else hash_at r x)"

section \<open>Lemmas\<close>

lemma leaves_nonempty [simp]: "leaves t \<noteq> []"
  by (induction t) auto

lemma length_leaves_pos [simp]: "0 < length (leaves t)"
  by simp

lemma length_hashes [simp]: "length (hashes t) = length (addrs t)"
  by (induction t) auto

lemma length_leaf_addrs [simp]: "length (leaf_addrs t) = length (leaves t)"
  by (induction t) auto

lemma raddr_in [simp]: "raddr t \<in> set (addrs t)"
  by (cases t) auto

lemma rhash_in [simp]: "rhash t \<in> set (hashes t)"
  by (cases t) auto

lemma leaf_addrs_sub: "set (leaf_addrs t) \<subseteq> set (addrs t)"
  by (induction t) auto

lemma leaves_sub: "set (leaves t) \<subseteq> set (hashes t)"
  by (induction t) auto

lemma canon_root:
  "hash_ok H t \<Longrightarrow> canon t \<Longrightarrow> rhash t = mth H (leaves t)"
proof (induction t)
  case (Lf a h)
  then show ?case by (simp add: mth.simps)
next
  case (Nd a h l r)
  have "2 \<le> length (leaves l) + length (leaves r)"
    using length_leaves_pos [of l] length_leaves_pos [of r] by linarith
  then have "\<not> length (leaves (Nd a h l r)) \<le> 1" by simp
  moreover have "lp2 (length (leaves (Nd a h l r))) = length (leaves l)"
    using Nd.prems by simp
  ultimately show ?case
    using Nd by (subst mth.simps) (simp add: Let_def)
qed

text \<open>Following the proof of any node of a hash-consistent tree yields the root hash.\<close>

lemma fold_tpath:
  "hash_ok H t \<Longrightarrow> x \<in> set (addrs t) \<Longrightarrow>
   fold_path H (hash_at t x) (map fst (tpath t x)) (map snd (tpath t x)) = rhash t"
proof (induction t)
  case (Lf a h)
  then show ?case by simp
next
  case (Nd a h l r)
  then show ?case
    by (auto simp: fold_path_append Hash_swap)
qed

lemma hash_at_entries: "distinct (addrs t) \<Longrightarrow> x \<in> set (addrs t) \<Longrightarrow> (hash_at t x, x) \<in> set (entries t)"
  by (induction t) auto

lemma entries_hash_at: "distinct (addrs t) \<Longrightarrow> (h, x) \<in> set (entries t) \<Longrightarrow> h = hash_at t x"
  by (induction t) (auto dest: set_zip_rightD)

lemma hash_at_root [simp]: "hash_at t (raddr t) = rhash t"
  by (cases t) auto

end
