(* ===== verification/MerkleRep.thy ===== *)
theory MerkleRep
  imports MerkleTree MerkleSpec "HOL-Library.Multiset"
begin

text \<open>
  The heap of \<^verbatim>\<open>MerkleTree\<close> against trees as values. \<open>rep st p t\<close>: the heap \<open>st\<close> holds the tree \<open>t\<close>
  and its root's parent pointer is \<open>p\<close>. A context \<open>c\<close> is a path to a hole, innermost frame
  first; \<open>plug c s\<close> is the whole tree with \<open>s\<close> in the hole. The lemmas turn the pointer loops of the
  code (\<^verbatim>\<open>createMerkleProof\<close>, \<^verbatim>\<open>updateNode\<close>, the climbs) into functions on trees and contexts.
\<close>

section \<open>Definitions\<close>

primrec rep :: "(addr \<rightharpoonup> ramMerkleNode) \<Rightarrow> addr option \<Rightarrow> mtree \<Rightarrow> bool" where
  "rep st p (Lf a h) = (st a = Some \<lparr>parent = p, leftChild = None, rightChild = None, hash = Some h\<rparr>)"
| "rep st p (Nd a h l r) =
     (st a = Some \<lparr>parent = p, leftChild = Some (raddr l), rightChild = Some (raddr r), hash = Some h\<rparr> \<and>
      rep st (Some a) l \<and> rep st (Some a) r)"

text \<open>A frame: is the hole the left child, the parent's address and hash, the sibling tree.\<close>

type_synonym frame = "bool \<times> addr \<times> MerkleHash \<times> mtree"

fun wrap :: "frame \<Rightarrow> mtree \<Rightarrow> mtree" where
  "wrap (b, a, h, s) t = (if b then Nd a h t s else Nd a h s t)"

fun plug :: "frame list \<Rightarrow> mtree \<Rightarrow> mtree" where
  "plug [] t = t"
| "plug (f # c) t = plug c (wrap f t)"

fun ctop :: "frame list \<Rightarrow> addr option" where
  "ctop [] = None"
| "ctop ((b, a, h, s) # c) = Some a"

fun crep :: "(addr \<rightharpoonup> ramMerkleNode) \<Rightarrow> frame list \<Rightarrow> addr \<Rightarrow> bool" where
  "crep st [] x = True"
| "crep st ((b, a, h, s) # c) x =
     (st a = Some \<lparr>parent = ctop c, leftChild = Some (if b then x else raddr s),
                   rightChild = Some (if b then raddr s else x), hash = Some h\<rparr> \<and>
      rep st (Some a) s \<and> crep st c a)"

fun caddrs :: "frame list \<Rightarrow> addr list" where
  "caddrs [] = []"
| "caddrs ((b, a, h, s) # c) = a # addrs s @ caddrs c"

definition jhash :: "hash_fun \<Rightarrow> bool \<Rightarrow> MerkleHash \<Rightarrow> MerkleHash \<Rightarrow> MerkleHash" where
  "jhash H b x y = (if b then Hash H x y Right else Hash H y x Right)"

fun rehash :: "hash_fun \<Rightarrow> frame list \<Rightarrow> MerkleHash \<Rightarrow> frame list" where
  "rehash H [] x = []"
| "rehash H ((b, a, h, s) # c) x = (b, a, jhash H b x (rhash s), s) # rehash H c (jhash H b x (rhash s))"

type_synonym change = "addr \<times> MerkleHash \<times> MerkleHash"

fun changes :: "hash_fun \<Rightarrow> frame list \<Rightarrow> MerkleHash \<Rightarrow> change list" where
  "changes H [] x = []"
| "changes H ((b, a, h, s) # c) x = (a, h, jhash H b x (rhash s)) # changes H c (jhash H b x (rhash s))"

fun step_change :: "change \<Rightarrow> MerkleTree \<Rightarrow> MerkleTree" where
  "step_change (a, oh, nh) t =
     (let t' = setHash a nh t in if listener t' then onNodeHashChanged a oh nh t' else t')"

primrec put_hash :: "MerkleHash \<Rightarrow> mtree \<Rightarrow> mtree" where
  "put_hash x (Lf a h) = Lf a x"
| "put_hash x (Nd a h l r) = Nd a x l r"

section \<open>Trees and contexts\<close>

lemmas node_get = getParent_def getLeftChild_def getRightChild_def getHash_def
lemmas node_set = setParent_def setLeftChild_def setRightChild_def setHash_def modNode_def

lemma rep_cong: "(\<And>a. a \<in> set (addrs t) \<Longrightarrow> st a = st' a) \<Longrightarrow> rep st p t = rep st' p t"
  by (induction t arbitrary: p) auto

lemma rep_root: "rep st p t \<Longrightarrow> \<exists>n. st (raddr t) = Some n \<and> parent n = p \<and> hash n = Some (rhash t)"
  by (cases t) auto

lemma rep_hash: "rep (store t) p s \<Longrightarrow> getHash t (raddr s) = Some (rhash s)"
  by (cases s) (auto simp: node_get)

lemma rep_parent: "rep (store t) p s \<Longrightarrow> getParent t (raddr s) = p"
  by (cases s) (auto simp: node_get)

lemma raddr_wrap [simp]: "raddr (wrap (b, a, h, s) t) = a"
  by simp

lemma rep_plug: "rep st None (plug c t) \<longleftrightarrow> rep st (ctop c) t \<and> crep st c (raddr t)"
proof (induction c arbitrary: t)
  case Nil
  then show ?case by simp
next
  case (Cons f c)
  obtain b a h s where f: "f = (b, a, h, s)" by (cases f) auto
  show ?case
    using Cons [of "wrap f t"] by (auto simp: f)
qed

lemma crep_cong: "(\<And>a. a \<in> set (caddrs c) \<Longrightarrow> st a = st' a) \<Longrightarrow> crep st c x = crep st' c x"
proof (induction c arbitrary: x)
  case (Cons f c)
  obtain b a h s where f: "f = (b, a, h, s)" by (cases f) auto
  have "rep st (Some a) s = rep st' (Some a) s" using Cons.prems by (intro rep_cong) (auto simp: f)
  then show ?case using Cons by (auto simp: f)
qed simp

lemma mset_addrs_plug: "mset (addrs (plug c t)) = mset (caddrs c) + mset (addrs t)"
proof (induction c arbitrary: t)
  case (Cons f c)
  then show ?case by (cases f) auto
qed simp

lemma distinct_plug: "distinct (addrs (plug c t)) \<longleftrightarrow> distinct (caddrs c @ addrs t)"
  by (rule mset_eq_imp_distinct_iff) (simp add: mset_addrs_plug)

lemma set_addrs_plug: "set (addrs (plug c t)) = set (caddrs c) \<union> set (addrs t)"
  by (metis mset_addrs_plug mset_append set_append set_mset_mset)

lemma plug_exists: "x \<in> set (addrs t) \<Longrightarrow> \<exists>c s. t = plug c s \<and> raddr s = x"
proof (induction t)
  case (Lf a h)
  then show ?case by (intro exI [of _ "[]"] exI [of _ "Lf a h"]) simp
next
  case (Nd a h l r)
  consider "x = a" | "x \<in> set (addrs l)" | "x \<in> set (addrs r)" using Nd.prems by auto
  then show ?case
  proof cases
    case 1
    then show ?thesis by (intro exI [of _ "[]"] exI [of _ "Nd a h l r"]) simp
  next
    case 2
    then obtain c s where "l = plug c s" "raddr s = x" using Nd.IH(1) by blast
    moreover have "plug (c @ [(True, a, h, r)]) s = Nd a h (plug c s) r" for s
      by (induction c arbitrary: s) auto
    ultimately show ?thesis by metis
  next
    case 3
    then obtain c s where "r = plug c s" "raddr s = x" using Nd.IH(2) by blast
    moreover have "plug (c @ [(False, a, h, l)]) s = Nd a h l (plug c s)" for s
      by (induction c arbitrary: s) auto
    ultimately show ?thesis by metis
  qed
qed

lemma caddrs_rehash [simp]: "caddrs (rehash H c x) = caddrs c"
  by (induction H c x rule: rehash.induct) auto

section \<open>Pointer loops\<close>

lemma modNode_id: "store t a = Some n \<Longrightarrow> f n = n \<Longrightarrow> modNode a f t = t"
  by (simp add: modNode_def fun_upd_idem)

lemma proof_loop_rep:
  assumes "rep (store t) p s" "distinct (addrs s)" "x \<in> set (addrs s)"
  shows "merkleProofLoop t x hs ps =
         merkleProofLoop t (raddr s) (hs @ map fst (tpath s x)) (ps @ map snd (tpath s x))"
  using assms
proof (induction s arbitrary: p hs ps)
  case (Lf a h)
  then show ?case by simp
next
  case (Nd a h l r)
  have hl: "getHash t (raddr l) = Some (rhash l)" and hr: "getHash t (raddr r) = Some (rhash r)"
    and pl: "getParent t (raddr l) = Some a" and pr: "getParent t (raddr r) = Some a"
    and ca: "getLeftChild t a = Some (raddr l)" "getRightChild t a = Some (raddr r)"
    using Nd.prems by (auto intro: rep_hash rep_parent simp: getLeftChild_def getRightChild_def)
  consider "x = a" | "x \<noteq> a" "x \<in> set (addrs l)" | "x \<noteq> a" "x \<notin> set (addrs l)" "x \<in> set (addrs r)"
    using Nd.prems by auto
  then show ?case
  proof cases
    case 1
    then show ?thesis by simp
  next
    case 2
    have "merkleProofLoop t (raddr l) hs' ps' = merkleProofLoop t a (hs' @ [rhash r]) (ps' @ [Right])" for hs' ps'
      using hr pl ca by (subst merkleProofLoop.simps) simp
    then show ?thesis using Nd.IH(1) [of "Some a"] Nd.prems 2 by simp
  next
    case 3
    have "set (addrs l) \<inter> set (addrs r) = {}" using Nd.prems by simp
    then have "raddr l \<noteq> raddr r" by (metis disjoint_iff raddr_in)
    then have "merkleProofLoop t (raddr r) hs' ps' = merkleProofLoop t a (hs' @ [rhash l]) (ps' @ [Left])" for hs' ps'
      using hl pr ca by (subst merkleProofLoop.simps) simp
    then show ?thesis using Nd.IH(2) [of "Some a"] Nd.prems 3 by simp
  qed
qed

lemma createMerkleProof_rep:
  assumes "rep (store t) None s" "distinct (addrs s)" "x \<in> set (addrs s)"
  shows "createMerkleProof t x = Some (map fst (tpath s x), map snd (tpath s x))"
  using proof_loop_rep [OF assms, of "[]" "[]"] rep_parent [OF assms(1)]
  by (simp add: createMerkleProof_def merkleProofLoop.simps [of t "raddr s"])

lemma climbRoot_up: "getParent t x = Some y \<Longrightarrow> climbRoot t x = climbRoot t y"
  by (subst climbRoot.simps) simp

lemma climbRoot_sub:
  assumes "rep (store t) p s" "x \<in> set (addrs s)"
  shows "climbRoot t x = climbRoot t (raddr s)"
  using assms
proof (induction s arbitrary: p)
  case (Nd a h l r)
  have "climbRoot t (raddr l) = climbRoot t a" "climbRoot t (raddr r) = climbRoot t a"
    using Nd.prems by (auto intro!: climbRoot_up rep_parent)
  then show ?case using Nd.IH [of "Some a"] Nd.prems by auto
qed simp

lemma climbRoot_rep:
  assumes "rep (store t) None s" "x \<in> set (addrs s)"
  shows "climbRoot t x = Some (raddr s)"
  using climbRoot_sub [OF assms] rep_parent [OF assms(1)] by (simp add: climbRoot.simps)

section \<open>Setting a hash and updating the ancestors\<close>

lemma store_step_change [simp]:
  "store (step_change (a, oh, nh) t) = (store t)(a := map_option (\<lambda>n. n\<lparr>hash := Some nh\<rparr>) (store t a))"
  by (auto simp: Let_def onNodeHashChanged_def mapSet_def mapDel_def node_set)

lemma step_change_frame [frame]:
  "cursor (step_change ch t) = cursor t" "listener (step_change ch t) = listener t"
  "Size (step_change ch t) = Size t" "MerkleRoot (step_change ch t) = MerkleRoot t"
  by (cases ch; auto simp: Let_def onNodeHashChanged_def mapSet_def mapDel_def node_set)+

declare step_change.simps [simp del]

text \<open>Where the neighbours of a node already point to it, \<^const>\<open>setNodeHash\<close> only sets the hash.\<close>

lemma setNodeHash_eq:
  assumes n: "store t a = Some \<lparr>parent = p, leftChild = lc, rightChild = rc, hash = Some oh\<rparr>"
    and l: "\<And>x. lc = Some x \<Longrightarrow> x \<noteq> a \<and> getParent t x = Some a"
    and r: "\<And>x. rc = Some x \<Longrightarrow> x \<noteq> a \<and> getParent t x = Some a"
    and p: "\<And>x. p = Some x \<Longrightarrow> x \<noteq> a \<and> (getLeftChild t x = Some a \<or>
              (\<exists>y. getLeftChild t x = Some y \<and> y \<noteq> a \<and> getRightChild t x = Some a))"
  shows "setNodeHash a nh t = Some (step_change (a, oh, nh) t)"
proof -
  let ?t = "setHash a nh t"
  have st: "store ?t x = store t x" if "x \<noteq> a" for x
    using that by (simp add: node_set)
  have ga: "getLeftChild ?t a = lc" "getRightChild ?t a = rc"
    using n by (simp_all add: node_set node_get)
  have lid: "setParent x (Some a) ?t = ?t" if "lc = Some x \<or> rc = Some x" for x
  proof -
    have "x \<noteq> a" "getParent t x = Some a" using that l r by auto
    then obtain nx where "store ?t x = Some nx" "parent nx = Some a"
      using st [of x] by (auto simp: getParent_def bind_eq_Some_conv)
    then show ?thesis by (auto simp: setParent_def intro: modNode_id)
  qed
  have pid: "(if y = a then setLeftChild x (Some a) ?t else setRightChild x (Some a) ?t) = ?t"
    if "p = Some x" "getLeftChild t x = Some y" for x y
  proof -
    have "x \<noteq> a" and c: "y = a \<or> getRightChild t x = Some a" using that p by fastforce+
    then show ?thesis using that st [of x]
      by (auto simp: setLeftChild_def setRightChild_def getLeftChild_def getRightChild_def
          bind_eq_Some_conv intro: modNode_id)
  qed
  have oh: "getHash t a = Some oh" and pn: "getParent t a = p"
    using n by (simp_all add: node_get)
  have lst: "listener ?t = listener t" by (simp add: node_set)
  show ?thesis
  proof (cases p)
    case None
    then show ?thesis using lid oh pn ga
      by (cases lc; cases rc) (auto simp: setNodeHash_def Let_def step_change.simps)
  next
    case (Some x)
    then obtain y where y: "getLeftChild t x = Some y" using p by fastforce
    show ?thesis using lid pid [OF Some y] oh pn ga Some y
      by (cases lc; cases rc) (auto simp: setNodeHash_def Let_def step_change.simps split: if_splits)
  qed
qed

lemma raddr_disjoint: "set (addrs l) \<inter> set (addrs r) = {} \<Longrightarrow> raddr l \<noteq> raddr r"
  by (metis disjoint_iff raddr_in)

lemma raddr_put_hash [simp]: "raddr (put_hash x t) = raddr t"
  by (cases t) auto

lemma rhash_put_hash [simp]: "rhash (put_hash x t) = x"
  by (cases t) auto

lemma addrs_put_hash [simp]: "addrs (put_hash x t) = addrs t"
  by (cases t) auto

lemma rep_step_change_other [simp]:
  "a \<notin> set (addrs s) \<Longrightarrow> rep (store (step_change (a, oh, nh) t)) p s = rep (store t) p s"
  by (rule rep_cong) auto

lemma crep_step_change_other [simp]:
  "a \<notin> set (caddrs c) \<Longrightarrow> crep (store (step_change (a, oh, nh) t)) c x = crep (store t) c x"
  by (rule crep_cong) auto

declare store_step_change [simp del]

lemma rep_step_change_root:
  assumes "rep (store t) p s" "distinct (addrs s)"
  shows "rep (store (step_change (raddr s, oh, nh) t)) p (put_hash nh s)"
proof (cases s)
  case (Nd a h l r)
  then have "a \<notin> set (addrs l)" "a \<notin> set (addrs r)" using assms by auto
  then have "rep (store (step_change (a, oh, nh) t)) q x = rep (store t) q x" if "x = l \<or> x = r" for q x
    using that by auto
  then show ?thesis using assms Nd by simp (simp add: store_step_change)
qed (use assms in \<open>auto simp: store_step_change\<close>)

lemma setNodeHash_rep:
  assumes s: "rep (store t) (ctop c) s" and c: "crep (store t) c (raddr s)"
    and d: "distinct (caddrs c @ addrs s)"
  shows "setNodeHash (raddr s) nh t = Some (step_change (raddr s, rhash s, nh) t)"
proof -
  let ?a = "raddr s"
  have nin: "?a \<notin> set (caddrs c)"
    using d by (metis IntI distinct_append empty_iff raddr_in)
  have p: "x \<noteq> ?a \<and> (getLeftChild t x = Some ?a \<or>
       (\<exists>y. getLeftChild t x = Some y \<and> y \<noteq> ?a \<and> getRightChild t x = Some ?a))" if cx: "ctop c = Some x" for x
  proof -
    obtain b h s' c' where ceq: "c = (b, x, h, s') # c'" using cx by (cases c rule: ctop.cases) simp_all
    have "x \<noteq> ?a" "raddr s' \<noteq> ?a" using nin raddr_in [of s'] unfolding ceq by (auto simp del: raddr_in)
    then show ?thesis using c ceq by (cases b) (auto simp: getLeftChild_def getRightChild_def)
  qed
  show ?thesis
  proof (cases s)
    case (Lf a h)
    then show ?thesis using setNodeHash_eq [where a = a and lc = None and rc = None] s p by auto
  next
    case (Nd a h l r)
    have "raddr l \<noteq> a" "raddr r \<noteq> a" using d Nd raddr_in [of l] raddr_in [of r] by auto
    moreover have "getParent t (raddr l) = Some a" "getParent t (raddr r) = Some a"
      using s Nd by (auto intro: rep_parent)
    ultimately show ?thesis
      using setNodeHash_eq [where a = a and lc = "Some (raddr l)" and rc = "Some (raddr r)" and p = "ctop c"]
        s p Nd by auto
  qed
qed

lemma updateAncestors_rep:
  assumes "rep (store t) (ctop c) s" "crep (store t) c (raddr s)" "distinct (caddrs c @ addrs s)"
  shows "updateAncestors H (ctop c) t = Some (fold step_change (changes H c (rhash s)) t) \<and>
         rep (store (fold step_change (changes H c (rhash s)) t)) None (plug (rehash H c (rhash s)) s)"
  using assms
proof (induction c arbitrary: s t)
  case Nil
  then show ?case by (simp add: updateAncestors.simps)
next
  case (Cons f c)
  obtain b a h sib where f: "f = (b, a, h, sib)" by (cases f) auto
  define n where "n = jhash H b (rhash s) (rhash sib)"
  let ?w = "wrap f s" let ?t = "step_change (a, h, n) t"
  have w: "rep (store t) (ctop c) ?w" "crep (store t) c (raddr ?w)" "distinct (caddrs c @ addrs ?w)"
    and ra: "raddr ?w = a" "rhash ?w = h"
    using Cons.prems by (auto simp: f)
  have set: "setNodeHash a n t = Some ?t"
    using setNodeHash_rep [OF w] ra by simp
  have "a \<notin> set (caddrs c)" using Cons.prems by (auto simp: f)
  then have c': "crep (store ?t) c a" using w(2) ra by simp
  have w': "rep (store ?t) (ctop c) (put_hash n ?w)"
    using rep_step_change_root [OF w(1)] w(3) ra by simp
  have par: "getParent ?t a = ctop c" using rep_parent [OF w'] ra by simp
  have hs: "getHash t (raddr s) = Some (rhash s)" "getHash t (raddr sib) = Some (rhash sib)"
    using Cons.prems by (auto intro: rep_hash simp: f)
  have "updateAncestors H (ctop (f # c)) t = updateAncestors H (ctop c) ?t"
    using Cons.prems set par hs unfolding n_def
    by (subst updateAncestors.simps) (cases b; auto simp: f getLeftChild_def getRightChild_def jhash_def)
  moreover have "plug (rehash H (f # c) (rhash s)) s = plug (rehash H c n) (put_hash n ?w)"
    by (simp add: f n_def)
  ultimately show ?case
    using Cons.IH [OF w'] c' w(3) ra by (simp add: f flip: n_def)
qed

text \<open>\<^const>\<open>updateNode\<close> on any node of a represented tree: it returns, and the heap holds the tree with
  the new hash in place and every ancestor's hash recomputed.\<close>

lemma updateNode_rep:
  fixes H :: hash_fun and nh :: MerkleHash
  assumes "rep (store t) None (plug c s)" "distinct (addrs (plug c s))"
  defines "t' \<equiv> fold step_change ((raddr s, rhash s, nh) # changes H c nh) t"
  shows "updateNode H (raddr s) nh t = Some t'"
    and "rep (store t') None (plug (rehash H c nh) (put_hash nh s))"
proof -
  let ?t = "step_change (raddr s, rhash s, nh) t" let ?s = "put_hash nh s"
  have a: "rep (store t) (ctop c) s" "crep (store t) c (raddr s)" "distinct (caddrs c @ addrs s)"
    using assms by (simp_all add: rep_plug distinct_plug)
  then have "raddr s \<notin> set (caddrs c)" by (metis IntI distinct_append empty_iff raddr_in)
  then have b: "rep (store ?t) (ctop c) ?s" "crep (store ?t) c (raddr ?s)" "distinct (caddrs c @ addrs ?s)"
    using a rep_step_change_root [OF a(1)] by simp_all
  have "getParent ?t (raddr s) = ctop c" using rep_parent [OF b(1)] by simp
  then show "updateNode H (raddr s) nh t = Some t'" "rep (store t') None (plug (rehash H c nh) (put_hash nh s))"
    using setNodeHash_rep [OF a] updateAncestors_rep [OF b, of H]
    by (simp_all add: updateNode_def t'_def)
qed

section \<open>Appending one leaf\<close>

text \<open>\<open>fresh_heap\<close>: the cursor is above every allocated address and every address of the tree.\<close>

definition fresh_heap :: "MerkleTree \<Rightarrow> mtree \<Rightarrow> bool" where
  "fresh_heap t s \<longleftrightarrow> (\<forall>a \<in> set (addrs s). a < cursor t)"

lemma newNode_simps [simp]:
  "newNode t = (cursor t, t\<lparr>store := (store t)(cursor t \<mapsto> createRAMMerkleNode), cursor := Suc (cursor t)\<rparr>)"
  by (simp add: newNode_def)

lemma climb_congr:
  "(\<And>x. x \<in> A \<Longrightarrow> getParent t' x = getParent t x) \<Longrightarrow>
   (\<And>x y. x \<in> A \<Longrightarrow> getParent t x = Some y \<Longrightarrow> y \<in> A) \<Longrightarrow> x \<in> A \<Longrightarrow> climb t' n x = climb t n x"
  by (induction n arbitrary: x) (auto split: option.split)

lemma rep_setParent:
  assumes "rep st p s" "distinct (addrs s)"
  shows "rep (st(raddr s := map_option (\<lambda>n. n\<lparr>parent := q\<rparr>) (st (raddr s)))) q s"
proof (cases s)
  case (Nd a h l r)
  then have "a \<notin> set (addrs l)" "a \<notin> set (addrs r)" using assms by auto
  then have "rep (st(a := x)) q' l = rep st q' l" "rep (st(a := x)) q' r = rep st q' r" for x q'
    by (auto intro!: rep_cong)
  then show ?thesis using assms Nd by simp
qed (use assms in auto)

text \<open>The heap after the pointer surgery of \<^const>\<open>appendOne\<close>, before the hashes are recomputed.\<close>

definition splice :: "MerkleHash \<Rightarrow> MerkleHash \<Rightarrow> addr \<Rightarrow> addr option \<Rightarrow> MerkleTree \<Rightarrow> MerkleTree" where
  "splice y hj rp pn t =
     (let n = cursor t; j = Suc n;
          st = (store t)(j \<mapsto> \<lparr>parent = pn, leftChild = Some rp, rightChild = Some n, hash = Some hj\<rparr>,
                         n \<mapsto> \<lparr>parent = Some j, leftChild = None, rightChild = None, hash = Some y\<rparr>);
          st = st(rp := map_option (\<lambda>x. x\<lparr>parent := Some j\<rparr>) (st rp));
          st = (case pn of None \<Rightarrow> st | Some p \<Rightarrow> st(p := map_option (\<lambda>x. x\<lparr>rightChild := Some j\<rparr>) (st p)))
      in t\<lparr>store := st, cursor := Suc j, nodeMap := (nodeMap t)(y \<mapsto> n, hj \<mapsto> j)\<rparr>)"

lemma rep_splice:
  assumes rep: "rep (store t) None (plug c s)" and d: "distinct (addrs (plug c s))"
    and f: "fresh_heap t (plug c s)" and right: "\<forall>f \<in> set c. \<not> fst f"
  shows "rep (store (splice y hj (raddr s) (ctop c) t)) None
           (plug c (Nd (Suc (cursor t)) hj s (Lf (cursor t) y)))"
proof -
  let ?n = "cursor t" let ?j = "Suc ?n" let ?a = "raddr s"
  let ?st = "store (splice y hj ?a (ctop c) t)"
  have s: "rep (store t) (ctop c) s" and c: "crep (store t) c ?a" and d': "distinct (caddrs c @ addrs s)"
    using rep d by (simp_all add: rep_plug distinct_plug)
  have lt: "\<forall>x \<in> set (caddrs c) \<union> set (addrs s). x < ?n" using f by (simp add: fresh_heap_def set_addrs_plug)
  then have an: "?a < ?n" by simp
  then have lt': "?a \<noteq> ?n" "?j \<noteq> ?a" "?a \<noteq> ?j" "?n \<notin> set (caddrs c)" "?j \<notin> set (caddrs c)"
    using bspec [OF lt, of ?n] bspec [OF lt, of ?j] by auto
  have anc: "?a \<notin> set (caddrs c)" using d' by (metis IntI distinct_append empty_iff raddr_in)
  have ptop: "x \<in> set (caddrs c)" if "ctop c = Some x" for x using that by (cases c rule: ctop.cases) auto
  have st: "?st x = (if x = ?a then map_option (\<lambda>n. n\<lparr>parent := Some ?j\<rparr>) (store t ?a)
      else if ctop c = Some x then map_option (\<lambda>n. n\<lparr>rightChild := Some ?j\<rparr>) (store t x) else store t x)"
    if "x < ?n" for x
    using that an anc ptop by (auto simp: splice_def Let_def split: option.splits)
  have "?st ?n = Some \<lparr>parent = Some ?j, leftChild = None, rightChild = None, hash = Some y\<rparr>"
    and "?st ?j = Some \<lparr>parent = ctop c, leftChild = Some ?a, rightChild = Some ?n, hash = Some hj\<rparr>"
    using an lt' ptop by (auto simp: splice_def Let_def split: option.splits)
  moreover have "rep ?st (Some ?j) s"
  proof -
    have "x \<noteq> ?a \<Longrightarrow> ctop c \<noteq> Some x" if "x \<in> set (addrs s)" for x
      using that ptop d' by auto
    then have "rep ?st (Some ?j) s = rep ((store t)(?a := map_option (\<lambda>n. n\<lparr>parent := Some ?j\<rparr>) (store t ?a))) (Some ?j) s"
      using st lt by (intro rep_cong) auto
    then show ?thesis using rep_setParent [OF s] d' by simp
  qed
  moreover have "crep ?st c ?j"
  proof (cases c)
    case (Cons f c')
    obtain b p h sib where fe: "f = (b, p, h, sib)" by (cases f) auto
    have "crep ?st c' p = crep (store t) c' p" "rep ?st (Some p) sib = rep (store t) (Some p) sib"
      using st lt anc d' Cons fe by (intro crep_cong rep_cong; force)+
    then show ?thesis using c Cons fe right st [of p] lt anc by auto
  qed simp
  ultimately show ?thesis by (simp add: rep_plug)
qed

lemma appendOne_splice:
  assumes rep: "rep (store t) None (plug c s)" and d: "distinct (addrs (plug c s))"
    and f: "fresh_heap t (plug c s)" and right: "\<forall>f \<in> set c. \<not> fst f"
    and sz: "sz \<noteq> 0" and x: "x \<in> set (addrs (plug c s))"
    and cl: "climb t (countOne (leastSignificantBit sz - 1)) x = Some (raddr s)"
  shows "appendOne H sz (Some x) y t = map_option (Pair (cursor t))
           (let hj = Hash H y (rhash s) Left
            in updateNode H (Suc (cursor t)) hj (splice y hj (raddr s) (ctop c) t))"
proof -
  let ?n = "cursor t" let ?a = "raddr s"
  let ?t = "t\<lparr>store := (store t)(?n \<mapsto> \<lparr>parent = None, leftChild = None, rightChild = None, hash = Some y\<rparr>),
               cursor := Suc ?n, nodeMap := (nodeMap t)(y \<mapsto> ?n)\<rparr>"
  have lt: "\<And>z. z \<in> set (addrs (plug c s)) \<Longrightarrow> z < ?n" using f by (simp add: fresh_heap_def)
  have an: "?a < ?n" using lt by (simp add: set_addrs_plug)
  have closed: "z' \<in> set (addrs q)" if "rep (store t) p q" "z \<in> set (addrs q)" "z \<noteq> raddr q"
      "getParent t z = Some z'" for p q z z'
    using that
  proof (induction q arbitrary: p)
    case (Nd a h l r)
    then show ?case using rep_parent [of t "Some a" l] rep_parent [of t "Some a" r] by fastforce
  qed simp
  have cl': "climb ?t (countOne (leastSignificantBit sz - 1)) x = Some ?a"
    unfolding cl [symmetric]
  proof (rule climb_congr [of "set (addrs (plug c s))"])
    fix z z' assume z: "z \<in> set (addrs (plug c s))"
    show "getParent ?t z = getParent t z" using lt [OF z] by (simp add: getParent_def)
    assume "getParent t z = Some z'"
    then show "z' \<in> set (addrs (plug c s))" using closed [OF rep z] rep_parent [OF rep] by force
  qed (fact x)
  have h: "getHash ?t ?a = Some (rhash s)" and p: "getParent ?t ?a = ctop c"
    using rep rep_root [of "store t" "ctop c" s] an by (auto simp: rep_plug getHash_def getParent_def)
  have ne: "z < ?n" if "ctop c = Some z" for z
    using that lt by (cases c rule: ctop.cases) (auto simp: set_addrs_plug)
  have ij: "insertJoint hj ?a ?n ?t = (Suc ?n, splice y hj ?a (ctop c) t)" for hj
  proof -
    have ne1: "?a \<noteq> ?n" "?n \<noteq> ?a" "?a \<noteq> Suc ?n" "Suc ?n \<noteq> ?a" using an by auto
    have ne2: "z \<noteq> ?n \<and> ?n \<noteq> z \<and> z \<noteq> Suc ?n \<and> Suc ?n \<noteq> z" if "ctop c = Some z" for z
      using ne [OF that] by auto
    have p': "Option.bind (store t ?a) parent = ctop c" using p ne1 by (simp add: getParent_def)
    note defs = insertJoint_def splice_def node_set mapSet_def createRAMMerkleNode_def getParent_def
    show ?thesis
      using p' ne1 ne2 by (cases t; cases "ctop c") (simp_all add: defs Let_def)
  qed
  have t: "mapSet y ?n (setHash ?n y (t\<lparr>store := (store t)(?n \<mapsto> createRAMMerkleNode), cursor := Suc ?n\<rparr>)) = ?t"
    by (simp add: mapSet_def node_set createRAMMerkleNode_def)
  show ?thesis
    using h p cl' sz unfolding appendOne_def newNode_simps Let_def split_def fst_conv snd_conv t ij
    by (simp add: ij map_conv_bind_option comp_def)
qed

end
