(* ===== verification/MerkleShape.thy ===== *)
theory MerkleShape
  imports MerkleRep
begin

text \<open>
  The shape of the trees: where a new leaf goes, what happens to the leaves, the hashes and the
  entries of the node map when the hash of one node or the subtree in a hole changes. Nothing here
  mentions the heap except the effect of \<^verbatim>\<open>onNodeHashChanged\<close> on the node map.
\<close>

section \<open>Definitions\<close>

text \<open>All hashes of the reference tree over a list of leaves, and those on the way of leaf \<open>i\<close> to
  the root.\<close>

function subroots :: "hash_fun \<Rightarrow> MerkleHash list \<Rightarrow> MerkleHash list" where
  "subroots H xs =
     (if length xs \<le> 1 then xs
      else let k = lp2 (length xs) in mth H xs # subroots H (take k xs) @ subroots H (drop k xs))"
  by pat_completeness auto
termination
  by (relation "measure (\<lambda>(H, xs). length xs)") (auto simp: lp2_less lp2_pos intro: diff_less)

function chain :: "hash_fun \<Rightarrow> MerkleHash list \<Rightarrow> nat \<Rightarrow> MerkleHash list" where
  "chain H xs i =
     (if length xs \<le> 1 then xs
      else let k = lp2 (length xs)
           in (if i < k then chain H (take k xs) i else chain H (drop k xs) (i - k)) @ [mth H xs])"
  by pat_completeness auto
termination
  by (relation "measure (\<lambda>(H, xs, i). length xs)") (auto simp: lp2_less lp2_pos intro: diff_less)

text \<open>The proof of the last leaf: the roots of the left siblings, leaf to root.\<close>

function last_path :: "hash_fun \<Rightarrow> MerkleHash list \<Rightarrow> MerkleHash list" where
  "last_path H xs =
     (if length xs \<le> 1 then []
      else let k = lp2 (length xs) in last_path H (drop k xs) @ [mth H (take k xs)])"
  by pat_completeness auto
termination
  by (relation "measure (\<lambda>(H, xs). length xs)") (auto simp: lp2_pos intro: diff_less)

definition lastMerklePath :: "hash_fun \<Rightarrow> MerkleHash list \<Rightarrow> MerklePath" where
  "lastMerklePath H xs = \<lparr>Hashes = last xs # last_path H xs, ProofPath = replicate (length (last_path H xs)) Left\<rparr>"

declare subroots.simps [simp del] chain.simps [simp del] last_path.simps [simp del]

primrec rdepth :: "mtree \<Rightarrow> nat" where
  "rdepth (Lf a h) = 0"
| "rdepth (Nd a h l r) = Suc (rdepth r)"

abbreviation last_addr :: "mtree \<Rightarrow> addr" where
  "last_addr t \<equiv> last (leaf_addrs t)"

fun centries :: "frame list \<Rightarrow> (MerkleHash \<times> addr) list" where
  "centries [] = []"
| "centries ((b, a, h, s) # c) = (h, a) # entries s @ centries c"

fun cleaves_l :: "frame list \<Rightarrow> MerkleHash list" where
  "cleaves_l [] = []"
| "cleaves_l ((b, a, h, s) # c) = cleaves_l c @ (if b then [] else leaves s)"

fun cleaves_r :: "frame list \<Rightarrow> MerkleHash list" where
  "cleaves_r [] = []"
| "cleaves_r ((b, a, h, s) # c) = (if b then leaves s else []) @ cleaves_r c"

fun chash_ok :: "hash_fun \<Rightarrow> frame list \<Rightarrow> bool" where
  "chash_ok H [] = True"
| "chash_ok H ((b, a, h, s) # c) = (hash_ok H s \<and> chash_ok H c)"

section \<open>Leaves, hashes and entries of a plugged tree\<close>

lemma leaf_addrs_nonempty [simp]: "leaf_addrs t \<noteq> []"
  by (induction t) auto

lemma plug_append [simp]: "plug (c @ d) s = plug d (plug c s)"
  by (induction c arbitrary: s) auto

lemma leaves_plug: "leaves (plug c s) = cleaves_l c @ leaves s @ cleaves_r c"
  by (induction c arbitrary: s rule: cleaves_l.induct) auto

lemma cleaves_rehash [simp]:
  "cleaves_l (rehash H c x) = cleaves_l c" "cleaves_r (rehash H c x) = cleaves_r c"
  by (induction H c x rule: rehash.induct) auto

lemma leaves_put_hash: "leaves (put_hash x t) = (case t of Lf a h \<Rightarrow> [x] | Nd a h l r \<Rightarrow> leaves t)"
  by (cases t) auto

lemma hash_ok_put_hash:
  "hash_ok H (put_hash x t) = (case t of Lf a h \<Rightarrow> True
     | Nd a h l r \<Rightarrow> x = Hash H (rhash l) (rhash r) Right \<and> hash_ok H l \<and> hash_ok H r)"
  by (cases t) auto

lemma hash_ok_plugD: "hash_ok H (plug c s) \<Longrightarrow> hash_ok H s \<and> chash_ok H c"
  by (induction H c arbitrary: s rule: chash_ok.induct) (fastforce split: if_splits)+

lemma hash_ok_rehash: "hash_ok H s \<Longrightarrow> chash_ok H c \<Longrightarrow> hash_ok H (plug (rehash H c (rhash s)) s)"
proof (induction H c arbitrary: s rule: chash_ok.induct)
  case (2 H b a h sib c)
  let ?w = "wrap (b, a, jhash H b (rhash s) (rhash sib), sib) s"
  have "hash_ok H ?w" "rhash ?w = jhash H b (rhash s) (rhash sib)"
    using 2 by (auto simp: jhash_def)
  then show ?case using "2.IH" [of ?w] "2.prems" by simp
qed simp

text \<open>On a tree whose hashes are consistent, recomputing them changes nothing.\<close>

lemma rehash_id: "hash_ok H (plug c s) \<Longrightarrow> rehash H c (rhash s) = c"
proof (induction H c arbitrary: s rule: chash_ok.induct)
  case (2 H b a h sib c)
  have "hash_ok H (wrap (b, a, h, sib) s)" using "2.prems" hash_ok_plugD [of H c] by simp
  then have "jhash H b (rhash s) (rhash sib) = h" by (auto simp: jhash_def split: if_splits)
  then show ?case using "2.IH" [of "wrap (b, a, h, sib) s"] "2.prems" by (simp split: if_splits)
qed simp

lemma same_shape_canon:
  "length (leaves s) = length (leaves s') \<Longrightarrow> canon s = canon s' \<Longrightarrow>
   canon (plug (rehash H c x) s) = canon (plug c s')"
proof (induction H c x arbitrary: s s' rule: rehash.induct)
  case (2 H b a h sib c x)
  show ?case
    using "2.IH" [of "wrap (b, a, jhash H b x (rhash sib), sib) s" "wrap (b, a, h, sib) s'"] "2.prems" by simp
qed simp

lemma set_entries_plug: "set (entries (plug c s)) = set (centries c) \<union> set (entries s)"
  by (induction c arbitrary: s rule: centries.induct) auto

lemma mset_hashes_plug: "mset (hashes (plug c s)) = mset (map fst (centries c)) + mset (hashes s)"
  by (induction c arbitrary: s rule: centries.induct) auto

lemma fst_set_entries [simp]: "fst ` set (entries t) = set (hashes t)"
  by (metis length_hashes list.set_map map_fst_zip)

lemma canon_hashes: "hash_ok H t \<Longrightarrow> canon t \<Longrightarrow> hashes t = subroots H (leaves t)"
proof (induction t)
  case (Lf a h)
  then show ?case by (simp add: subroots.simps)
next
  case (Nd a h l r)
  have "\<not> length (leaves (Nd a h l r)) \<le> 1"
    using length_leaves_pos [of l] length_leaves_pos [of r] by (simp del: length_leaves_pos leaves_nonempty length_greater_0_conv)
  moreover have "lp2 (length (leaves (Nd a h l r))) = length (leaves l)"
    using Nd.prems by simp
  ultimately show ?case
    using Nd canon_root [OF Nd.prems] by (subst subroots.simps) (simp add: Let_def)
qed

section \<open>Where a new leaf goes\<close>

lemma two_leaves: "2 \<le> length (leaves l) + length (leaves r)"
  using length_leaves_pos [of l] length_leaves_pos [of r] by linarith

lemma canon_NdE:
  assumes "canon (Nd a h l r)"
  obtains k where "length (leaves l) = 2 ^ k" "length (leaves r) \<le> 2 ^ k" "canon l" "canon r"
proof -
  obtain k where "lp2 (length (leaves l) + length (leaves r)) = 2 ^ k"
    "length (leaves l) + length (leaves r) \<le> 2 ^ Suc k"
    using lp2_pow [OF two_leaves] by blast
  then show ?thesis using assms that [of k] by simp
qed

lemma canon_NdI:
  assumes "length (leaves l) = 2 ^ k" "length (leaves r) \<le> 2 ^ k" "canon l" "canon r"
  shows "canon (Nd a h l r)"
proof -
  have "lp2 (length (leaves l) + length (leaves r)) = 2 ^ k"
    using assms by (intro lp2_unique) simp_all
  then show ?thesis using assms by simp
qed

text \<open>The last leaf is as deep as \<^verbatim>\<open>countOne(size - 1)\<close> says.\<close>

lemma rdepth_canon: "canon t \<Longrightarrow> rdepth t = pc (length (leaves t) - 1)"
proof (induction t)
  case (Nd a h l r)
  obtain k where k: "length (leaves l) = 2 ^ k" "length (leaves r) \<le> 2 ^ k" "canon r"
    using canon_NdE [OF Nd.prems] by blast
  obtain m where m: "length (leaves r) = Suc m" by (metis length_leaves_pos gr0_implies_Suc)
  then show ?case using Nd.IH(2) k pc_add [of m k] by simp
qed simp

lemma append_ctx:
  assumes "canon t"
  shows "\<exists>c s. t = plug c s \<and> canon s \<and> length (leaves s) = 2 ^ tz (length (leaves t)) \<and>
           (\<forall>f \<in> set c. \<not> fst f) \<and>
           (\<forall>s'. canon s' \<longrightarrow> length (leaves s') = Suc (length (leaves s)) \<longrightarrow> canon (plug c s'))"
  using assms
proof (induction t)
  case (Lf a h)
  show ?case by (rule exI [of _ "[]"], rule exI [of _ "Lf a h"]) (simp add: tz.simps)
next
  case (Nd a h l r)
  obtain k where k: "length (leaves l) = 2 ^ k" "length (leaves r) \<le> 2 ^ k" "canon l" "canon r"
    using canon_NdE [OF Nd.prems] by blast
  show ?case
  proof (cases "length (leaves r) = 2 ^ k")
    case True
    then have "length (leaves (Nd a h l r)) = 2 ^ Suc k" using k by simp
    then have "length (leaves (Nd a h l r)) = 2 ^ tz (length (leaves (Nd a h l r)))" by (metis tz_pow)
    then show ?thesis using Nd.prems
      by (intro exI [of _ "[]"] exI [of _ "Nd a h l r"]) (simp del: canon.simps leaves.simps)
  next
    case False
    then have less: "length (leaves r) < 2 ^ k" using k by simp
    obtain c s where c: "r = plug c s" "canon s" "length (leaves s) = 2 ^ tz (length (leaves r))"
        "\<forall>f \<in> set c. \<not> fst f"
        "\<forall>s'. canon s' \<longrightarrow> length (leaves s') = Suc (length (leaves s)) \<longrightarrow> canon (plug c s')"
      using Nd.IH(2) k(4) by blast
    have tz: "tz (length (leaves (Nd a h l r))) = tz (length (leaves r))"
      using tz_add [of "length (leaves r)" k] less k(1) by simp
    have "canon (plug (c @ [(False, a, h, l)]) s')"
      if s': "canon s'" "length (leaves s') = Suc (length (leaves s))" for s'
    proof -
      have "length (leaves (plug c s')) = Suc (length (leaves r))"
        using s'(2) by (simp add: c(1) leaves_plug)
      then have "length (leaves (plug c s')) \<le> 2 ^ k" using less by linarith
      then show ?thesis using s' c(5) k by (simp del: canon.simps) (rule canon_NdI, auto)
    qed
    then show ?thesis using c tz
      by (intro exI [of _ "c @ [(False, a, h, l)]"] exI [of _ s]) auto
  qed
qed

text \<open>The new leaf and the maximal perfect subtree at the right end under a joint node.\<close>

lemma append_canon:
  assumes "canon (plug c s)" "canon s" "length (leaves s) = 2 ^ k"
    and "\<forall>s'. canon s' \<longrightarrow> length (leaves s') = Suc (length (leaves s)) \<longrightarrow> canon (plug c s')"
  shows "canon (plug (rehash H c x) (Nd j hj s (Lf n y)))"
proof -
  have "canon (Nd j hj s (Lf n y))" by (rule canon_NdI [of _ k]) (use assms in auto)
  then show ?thesis using assms(4) same_shape_canon [of "Nd j hj s (Lf n y)" "Nd j hj s (Lf n y)" H c x] by simp
qed

lemma cleaves_r_right: "\<forall>f \<in> set c. \<not> fst f \<Longrightarrow> cleaves_r c = []"
  by (induction c rule: cleaves_r.induct) auto

lemma last_addr_plug: "\<forall>f \<in> set c. \<not> fst f \<Longrightarrow> last_addr (plug c s) = last_addr s"
  by (induction c arbitrary: s rule: cleaves_r.induct) auto

lemma climb_snoc: "climb t (Suc n) x = Option.bind (climb t n x) (getParent t)"
proof (induction n arbitrary: x)
  case 0
  show ?case by (simp split: option.split)
next
  case (Suc n)
  show ?case
    by (cases "getParent t x")
      (use Suc in \<open>simp_all only: climb.simps(2) [of t _ x] option.case bind.simps\<close>)
qed

lemma climb_right:
  "rep (store t) p s \<Longrightarrow> climb t (rdepth s) (last_addr s) = Some (raddr s)"
proof (induction s arbitrary: p)
  case (Nd a h l r)
  have "getParent t (raddr r) = Some a" using Nd.prems by (auto intro: rep_parent)
  then show ?case using Nd.IH(2) [of "Some a"] Nd.prems climb_snoc [of t "rdepth r"] by simp
qed simp

text \<open>The climb of \<^verbatim>\<open>append\<close> ends at the subtree that the joint node replaces.\<close>

lemma climb_depth:
  assumes n: "0 < n" "n < 2 ^ 63"
  shows "countOne (leastSignificantBit (of_nat n) - 1) = tz n"
proof -
  have "tz n < 63" using tz_le [OF n(1)] n(2) by (metis le_less_trans power_less_imp_less_exp one_less_numeral_iff semiring_norm(76))
  then show ?thesis using n by (simp add: leastSignificantBit_def lsb_word countOne_mask)
qed

lemma climb_append:
  assumes n: "0 < n" "n < 2 ^ 63" and s: "canon s" "length (leaves s) = 2 ^ tz n"
    and rep: "rep (store t) p s"
  shows "climb t (countOne (leastSignificantBit (of_nat n) - 1)) (last_addr s) = Some (raddr s)"
proof -
  have "rdepth s = tz n" using rdepth_canon [OF s(1)] s(2) pc_mask [of "tz n"] by simp
  then show ?thesis using climb_right [OF rep] climb_depth [OF n] by simp
qed

section \<open>The hashes on the way to the root\<close>

abbreviation news :: "hash_fun \<Rightarrow> frame list \<Rightarrow> MerkleHash \<Rightarrow> MerkleHash list" where
  "news H c x \<equiv> map (\<lambda>(a, oh, nh). nh) (changes H c x)"

abbreviation frame_hashes :: "frame list \<Rightarrow> MerkleHash list" where
  "frame_hashes c \<equiv> map (\<lambda>(b, a, h, s). h) c"

lemma news_rehash: "frame_hashes (rehash H c x) = news H c x"
  by (induction H c x rule: rehash.induct) auto

lemma cleaves_l_append: "cleaves_l (c @ d) = cleaves_l d @ cleaves_l c"
  by (induction c rule: cleaves_l.induct) auto

lemma chain_plug:
  "hash_ok H (plug c (Lf a y)) \<Longrightarrow> canon (plug c (Lf a y)) \<Longrightarrow>
   chain H (leaves (plug c (Lf a y))) (length (cleaves_l c)) = y # frame_hashes c"
proof (induction c rule: rev_induct)
  case Nil
  then show ?case by (simp add: chain.simps)
next
  case (snoc f c)
  obtain b p h sib where f: "f = (b, p, h, sib)" by (cases f) auto
  let ?u = "plug c (Lf a y)" let ?w = "wrap f ?u"
  have w: "hash_ok H ?w" "canon ?w" "rhash ?w = h" using snoc.prems by (simp_all add: f)
  have "hash_ok H ?u" "canon ?u" using w by (auto simp: f split: if_splits)
  note IH = snoc.IH [OF this]
  have two: "\<not> length (leaves ?w) \<le> 1"
    using two_leaves [of ?u sib] by (auto simp: f)
  have lp: "lp2 (length (leaves ?w)) = length (leaves (if b then ?u else sib))"
    using w(2) by (auto simp: f split: if_splits)
  have less: "length (cleaves_l c) < length (leaves ?u)" by (simp add: leaves_plug)
  have "h = mth H (leaves ?w)" using canon_root [OF w(1,2)] w(3) by simp
  then show ?case
    using IH two lp less
    by (subst chain.simps) (auto simp: Let_def f cleaves_l_append simp del: One_nat_def)
qed

section \<open>The node map\<close>

fun upd_map :: "change \<Rightarrow> (MerkleHash \<rightharpoonup> addr) \<Rightarrow> (MerkleHash \<rightharpoonup> addr)" where
  "upd_map (a, oh, nh) m = (if oh = nh then m else (m(nh \<mapsto> a))(oh := None))"

lemma nodeMap_step_change:
  "nodeMap (step_change ch t) = (if listener t then upd_map ch (nodeMap t) else nodeMap t)"
  by (cases ch) (auto simp: step_change.simps Let_def onNodeHashChanged_def mapSet_def mapDel_def node_set)

lemma lastNodeHash_step_change:
  "lastNodeHash (step_change (a, oh, nh) t) =
     (if listener t \<and> lastNodeHash t = Some oh then Some nh else lastNodeHash t)"
  by (auto simp: step_change.simps Let_def onNodeHashChanged_def mapSet_def mapDel_def node_set)

lemma fold_step_change_frame [frame]:
  "cursor (fold step_change chs t) = cursor t" "listener (fold step_change chs t) = listener t"
  "Size (fold step_change chs t) = Size t" "MerkleRoot (fold step_change chs t) = MerkleRoot t"
  by (induction chs arbitrary: t) (simp_all add: frame)

lemma nodeMap_fold:
  "nodeMap (fold step_change chs t) = (if listener t then fold upd_map chs (nodeMap t) else nodeMap t)"
  by (induction chs arbitrary: t) (auto simp: frame nodeMap_step_change)

lemma graph_del: "Map.graph (m(k := None)) = {e \<in> Map.graph m. fst e \<noteq> k}"
  by (auto simp: Map.graph_def split: if_splits)

lemma graph_upd: "Map.graph (m(k \<mapsto> v)) = insert (k, v) {e \<in> Map.graph m. fst e \<noteq> k}"
  by (auto simp: Map.graph_def split: if_splits)

lemma graph_fresh: "k \<notin> fst ` Map.graph m \<Longrightarrow> Map.graph (m(k \<mapsto> v)) = insert (k, v) (Map.graph m)"
  unfolding graph_upd by force

lemma graph_upd_map:
  assumes "Map.graph m = insert (oh, a) X" "oh \<notin> fst ` X" "nh \<notin> insert oh (fst ` X)"
  shows "Map.graph (upd_map (a, oh, nh) m) = insert (nh, a) X"
proof -
  have ne: "oh \<noteq> nh" using assms(3) by blast
  then have "Map.graph (upd_map (a, oh, nh) m) = {e \<in> insert (nh, a) {e \<in> insert (oh, a) X. fst e \<noteq> nh}. fst e \<noteq> oh}"
    using assms(1) by (simp add: graph_del graph_upd)
  moreover have "\<And>e. e \<in> X \<Longrightarrow> fst e \<noteq> nh \<and> fst e \<noteq> oh" using assms(2,3) by blast
  ultimately show ?thesis using ne by auto
qed

lemma graph_changes:
  assumes "Map.graph m = set (X @ centries c)" "distinct (news H c x @ map fst (X @ centries c))"
  shows "Map.graph (fold upd_map (changes H c x) m) = set (X @ centries (rehash H c x)) \<and>
         distinct (map fst (X @ centries (rehash H c x)))"
  using assms
proof (induction H c x arbitrary: m X rule: changes.induct)
  case (2 H b a h s c x)
  let ?n = "jhash H b x (rhash s)" let ?X = "X @ (?n, a) # entries s"
  have "Map.graph m = insert (h, a) (set (X @ entries s @ centries c))"
    using "2.prems"(1) by auto
  then have "Map.graph (upd_map (a, h, ?n) m) = insert (?n, a) (set (X @ entries s @ centries c))"
    by (rule graph_upd_map) (use "2.prems"(2) in \<open>simp_all add: image_Un eq_commute [of _ h]\<close>)
  then have g: "Map.graph (upd_map (a, h, ?n) m) = set (?X @ centries c)" by auto
  have "distinct (news H c ?n @ map fst (?X @ centries c))"
    using "2.prems"(2) by (simp add: image_Un Int_Un_distrib)
  from "2.IH" [OF g this] show ?case by simp
qed simp

section \<open>The path of the last leaf\<close>

lemma lp2_split:
  assumes "\<not> length xs \<le> 1"
  obtains k m where "lp2 (length xs) = 2 ^ k" "length (drop (2 ^ k) xs) = Suc m" "m < 2 ^ k"
    "length xs - 1 = 2 ^ k + m"
proof -
  obtain k where k: "lp2 (length xs) = 2 ^ k" "2 ^ k < length xs" "length xs \<le> 2 ^ Suc k"
    using lp2_pow [of "length xs"] assms by auto
  then show ?thesis using that [of k "length xs - 2 ^ k - 1"] by simp
qed

lemma length_last_path: "length (last_path H xs) = pc (length xs - 1)"
proof (induction H xs rule: last_path.induct)
  case (1 H xs)
  show ?case
  proof (cases "length xs \<le> 1")
    case False
    then obtain k m where k: "lp2 (length xs) = 2 ^ k" "length (drop (2 ^ k) xs) = Suc m" "m < 2 ^ k"
      "length xs - 1 = 2 ^ k + m" by (rule lp2_split)
    then have "length (last_path H (drop (2 ^ k) xs)) = pc m" using 1 [OF False refl] by simp
    then show ?thesis using False k pc_add [OF k(3)] by (subst last_path.simps) (simp add: Let_def)
  qed (auto simp: last_path.simps)
qed

lemma fold_last_path:
  "xs \<noteq> [] \<Longrightarrow> fold_path H (last xs) (last_path H xs) (replicate (length (last_path H xs)) Left) = mth H xs"
proof (induction H xs rule: last_path.induct)
  case (1 H xs)
  show ?case
  proof (cases "length xs \<le> 1")
    case True
    then obtain x where "xs = [x]" using "1.prems" by (cases xs) auto
    then show ?thesis by (simp add: last_path.simps mth.simps)
  next
    case False
    let ?k = "lp2 (length xs)" let ?l = "last_path H (drop ?k xs)"
    have k: "?k < length xs" using False lp2_less [of "length xs"] by simp
    then have ne: "drop ?k xs \<noteq> []" "last (drop ?k xs) = last xs" by simp_all
    have "last_path H xs = ?l @ [mth H (take ?k xs)]" using False by (subst last_path.simps) (simp add: Let_def)
    moreover have "replicate (length (?l @ [mth H (take ?k xs)])) Left = replicate (length ?l) Left @ [Left]"
      by (simp add: replicate_append_same)
    ultimately have "fold_path H (last xs) (last_path H xs) (replicate (length (last_path H xs)) Left) =
        Hash H (mth H (drop ?k xs)) (mth H (take ?k xs)) Left"
      using "1.IH" [OF False refl ne(1)] ne(2) by (simp only: fold_path_append length_replicate fold_path.simps)
    then show ?thesis using False by (subst mth.simps) (simp add: Let_def Hash_swap)
  qed
qed

lemma lastMerklePath_Verify: "xs \<noteq> [] \<Longrightarrow> path_Verify H (lastMerklePath H xs) (mth H xs) = Inr ()"
  by (simp add: path_Verify_Inr lastMerklePath_def fold_last_path)

lemma tpath_last:
  assumes "hash_ok H s" "canon s" "distinct (addrs s)"
  shows "tpath s (last_addr s) = zip (last_path H (leaves s)) (replicate (rdepth s) Left)"
  using assms
proof (induction s)
  case (Lf a h)
  then show ?case by (simp add: last_path.simps)
next
  case (Nd a h l r)
  have la: "last_addr r \<in> set (addrs r)" using leaf_addrs_sub [of r] last_in_set leaf_addrs_nonempty by blast
  then have ne: "last_addr r \<noteq> a" "last_addr r \<notin> set (addrs l)" using Nd.prems(3) by auto
  have two: "\<not> length (leaves l @ leaves r) \<le> 1" using two_leaves [of l r] by simp
  have lp: "lp2 (length (leaves l @ leaves r)) = length (leaves l)" using Nd.prems by simp
  have "last_path H (leaves l @ leaves r) = last_path H (leaves r) @ [rhash l]"
    using two lp canon_root [of H l] Nd.prems by (subst last_path.simps) (simp add: Let_def)
  moreover have "rdepth r = length (last_path H (leaves r))"
    using rdepth_canon Nd.prems length_last_path by simp
  moreover have "replicate (Suc (rdepth r)) Left = replicate (rdepth r) Left @ [Left]"
    by (simp add: replicate_append_same)
  ultimately show ?case using Nd ne la by (simp del: replicate_Suc)
qed

lemma of_nat_pred: "0 < n \<Longrightarrow> n < 2 ^ 63 \<Longrightarrow> countOne (of_nat n - 1) = pc (n - 1)"
proof -
  assume n: "0 < n" "n < 2 ^ 63"
  then have "(of_nat n - 1 :: int64) = of_nat (n - 1)" by (simp add: of_nat_diff Suc_leI)
  moreover have "unat (of_nat (n - 1) :: int64) = n - 1" using n by (intro unat_int64_of_nat) simp
  ultimately show ?thesis by (simp add: countOne_pc)
qed

lemma VerifyLast_complete:
  "xs \<noteq> [] \<Longrightarrow> length xs < 2 ^ 63 \<Longrightarrow>
   VerifyLastNodeMerklePath H (mth H xs) (of_nat (length xs)) (lastMerklePath H xs) = Inr ()"
  using of_nat_pred [of "length xs"] length_last_path [of H xs] lastMerklePath_Verify [of xs H]
  by (simp add: VerifyLastNodeMerklePath_def Let_def) (simp add: lastMerklePath_def list_all_iff)

lemma VerifyLast_sides:
  assumes "VerifyLastNodeMerklePath H r (of_nat n) p = Inr ()" "0 < n" "n < 2 ^ 63"
  shows "path_Verify H p r = Inr ()" "sides p = replicate (pc (n - 1)) True"
proof -
  show v: "path_Verify H p r = Inr ()" using assms(1)
    by (cases "path_Verify H p r") (auto simp: VerifyLastNodeMerklePath_def)
  have "length (ProofPath p) = pc (n - 1)" "\<forall>pos \<in> set (ProofPath p). pos = Left"
    using assms v of_nat_pred [of n]
    by (auto simp: VerifyLastNodeMerklePath_def Let_def list_all_iff split: if_splits)
  then show "sides p = replicate (pc (n - 1)) True"
    by (auto simp: sides_def intro!: replicate_eqI)
qed

end
