(* ===== verification/FullMerkleTree.thy ===== *)
theory FullMerkleTree
  imports MerkleShape
begin

text \<open>
  \<^verbatim>\<open>full_merkle_tree.go\<close>: the tree that a storage node keeps over all leaves, with every operation
  of \<^verbatim>\<open>FullMerkleTree\<close>. \<open>full_tree H t xs\<close> is inductive: \<open>t\<close> is a tree the code reaches with the leaves
  \<open>xs\<close>. The root of every such tree is the reference root of its leaves, every leaf has a path that
  verifies, and appending and updating keep it so.
\<close>

section \<open>Definitions\<close>

definition createNode :: "MerkleHash \<Rightarrow> MerkleTree \<Rightarrow> addr \<times> MerkleTree" where
  "createNode h t =
     (let (node, t) = newNode t; t = setHash node h t in (node, mapSet h node t))"

text \<open>The five statements that \<^verbatim>\<open>init\<close> and \<^verbatim>\<open>buildPerfectSubtree\<close> share: a node over two roots.\<close>

definition joinNodes :: "hash_fun \<Rightarrow> addr \<Rightarrow> addr \<Rightarrow> MerkleTree \<Rightarrow> (addr \<times> MerkleTree) option" where
  "joinNodes H leftNode rightNode t =
     do {
       hl \<leftarrow> getHash t leftNode;
       hr \<leftarrow> getHash t rightNode;
       let (node, t) = createNode (Hash H hl hr Right) t;
       let t = setLeftChild node (Some leftNode) t;
       let t = setRightChild node (Some rightNode) t;
       let t = setParent leftNode (Some node) t;
       let t = setParent rightNode (Some node) t;
       Some (node, t)
     }"

function buildPerfectSubtree ::
    "hash_fun \<Rightarrow> MerkleHash list \<Rightarrow> MerkleTree \<Rightarrow> (addr \<times> MerkleTree) option" where
  "buildPerfectSubtree H lvs t =
     (let size = length lvs in
      if size < 2 then None
      else if size = 2 then
        (let (leftNode, t) = createNode (lvs ! 0) t;
             (rightNode, t) = createNode (lvs ! 1) t
         in joinNodes H leftNode rightNode t)
      else do {
        (leftNode, t) \<leftarrow> buildPerfectSubtree H (take (size div 2) lvs) t;
        (rightNode, t) \<leftarrow> buildPerfectSubtree H (drop (size div 2) lvs) t;
        joinNodes H leftNode rightNode t
      })"
  by pat_completeness auto
termination
  by (relation "measure (\<lambda>(H, lvs, t). length lvs)") auto

declare buildPerfectSubtree.simps [simp del]

partial_function (option) initLoop ::
    "hash_fun \<Rightarrow> MerkleHash list \<Rightarrow> int64 \<Rightarrow> addr option \<Rightarrow> MerkleTree \<Rightarrow> (addr option \<times> MerkleTree) option" where
  "initLoop H lvs numberOfNodes node t =
     (if 0 <s numberOfNodes then
        (let lsb = leastSignificantBit numberOfNodes in
         if lsb = 1 then
           (let (node, t) = createNode (lvs ! unat (numberOfNodes - 1)) t
            in initLoop H lvs (numberOfNodes - lsb) (Some node) t)
         else do {
           (subTreeRoot, t) \<leftarrow> buildPerfectSubtree H
             (drop (unat (numberOfNodes - lsb)) (take (unat numberOfNodes) lvs)) t;
           (node, t) \<leftarrow> (case node of None \<Rightarrow> Some (subTreeRoot, t)
                         | Some node \<Rightarrow> joinNodes H subTreeRoot node t);
           initLoop H lvs (numberOfNodes - lsb) (Some node) t
         })
      else Some (node, t))"

definition fullInit :: "hash_fun \<Rightarrow> MerkleHash list \<Rightarrow> MerkleTree \<Rightarrow> MerkleTree option" where
  "fullInit H lvs t =
     (let t = t\<lparr>listener := True\<rparr> in
      if lvs = [] then Some t
      else do {
        let t = t\<lparr>Size := of_nat (length lvs)\<rparr>;
        (node, t) \<leftarrow> initLoop H lvs (Size t) None t;
        node \<leftarrow> node;
        let t = t\<lparr>MerkleRoot := getHash t node\<rparr>;
        Some (t\<lparr>lastNodeHash := Some (lvs ! unat (Size t - 1))\<rparr>)
      })"

definition NewFullMerkleTree :: "hash_fun \<Rightarrow> MerkleHash list \<Rightarrow> MerkleTree option" where
  "NewFullMerkleTree H lvs = fullInit H lvs newEmptyRAMMerkleTree"

text \<open>\<^verbatim>\<open>updateMerkleRoot\<close>: a nil last node, or one that the map does not have, is dereferenced.\<close>

definition updateMerkleRoot :: "MerkleTree \<Rightarrow> MerkleTree option" where
  "updateMerkleRoot t =
     do {
       h \<leftarrow> lastNodeHash t;
       node \<leftarrow> nodeMap t h;
       node \<leftarrow> climbRoot t node;
       Some (t\<lparr>MerkleRoot := getHash t node\<rparr>)
     }"

definition fullUpdateLeaf ::
    "hash_fun \<Rightarrow> MerkleHash \<Rightarrow> MerkleHash \<Rightarrow> MerkleTree \<Rightarrow> (merkle_error + MerkleTree) option" where
  "fullUpdateLeaf H originalHash newHash t =
     (case nodeMap t originalHash of None \<Rightarrow> Some (Inl (ErrHashNotFound originalHash))
      | Some node \<Rightarrow> do { t \<leftarrow> updateNode H node newHash t; t \<leftarrow> updateMerkleRoot t; Some (Inr t) })"

definition fullAppend ::
    "hash_fun \<Rightarrow> MerkleHash list \<Rightarrow> MerkleTree \<Rightarrow> (merkle_error + MerkleTree) option" where
  "fullAppend H lvs t =
     do {
       r \<leftarrow> merkleAppend H lvs t;
       case r of Inl err \<Rightarrow> Some (Inl err)
       | Inr t \<Rightarrow> map_option Inr (updateMerkleRoot t)
     }"

text \<open>\<^verbatim>\<open>GetMerklePath\<close>. The path is checked against the root before it is returned.\<close>

definition fullGetMerklePath ::
    "hash_fun \<Rightarrow> MerkleHash \<Rightarrow> MerkleTree \<Rightarrow> (merkle_error + MerklePath) option" where
  "fullGetMerklePath H h t =
     (case nodeMap t h of None \<Rightarrow> Some (Inl (ErrHashNotFound h))
      | Some node \<Rightarrow>
          do {
            (proofHashes, proofPath) \<leftarrow> createMerkleProof t node;
            let path = \<lparr>Hashes = h # proofHashes, ProofPath = proofPath\<rparr>;
            root \<leftarrow> MerkleRoot t;
            case path_Verify H path root of Inl err \<Rightarrow> Some (Inl err) | Inr u \<Rightarrow> Some (Inr path)
          })"

definition HasNode :: "MerkleHash \<Rightarrow> MerkleTree \<Rightarrow> bool" where
  "HasNode h t = (nodeMap t h \<noteq> None)"

text \<open>\<^verbatim>\<open>deepcopyNode\<close> copies a node of the heap of another tree; a node with one child is a panic.\<close>

partial_function (option) deepcopyNode ::
    "MerkleTree \<Rightarrow> addr \<Rightarrow> MerkleTree \<Rightarrow> (addr \<times> MerkleTree) option" where
  "deepcopyNode src node t =
     do {
       h \<leftarrow> getHash src node;
       let (nn, t) = newNode t;
       let t = setHash nn h t;
       t \<leftarrow> (case (getLeftChild src node, getRightChild src node) of
               (Some l, Some r) \<Rightarrow>
                 do {
                   (leftNode, t) \<leftarrow> deepcopyNode src l t;
                   (rightNode, t) \<leftarrow> deepcopyNode src r t;
                   let t = setLeftChild nn (Some leftNode) t;
                   let t = setRightChild nn (Some rightNode) t;
                   let t = setParent leftNode (Some nn) t;
                   let t = setParent rightNode (Some nn) t;
                   Some t
                 }
             | (None, None) \<Rightarrow> Some t
             | _ \<Rightarrow> None);
       Some (nn, mapSet h nn t)
     }"

definition HookSecondLayerTree ::
    "MerkleTree option \<Rightarrow> MerkleTree \<Rightarrow> (merkle_error + MerkleTree) option" where
  "HookSecondLayerTree subtree t =
     (case subtree of None \<Rightarrow> Some (Inl ErrSubtreeNil)
      | Some sub \<Rightarrow>
          do {
            root \<leftarrow> MerkleRoot sub;
            case nodeMap t root of None \<Rightarrow> Some (Inl ErrSubtreeRootNotInTop)
            | Some node \<Rightarrow>
                (case nodeMap sub root of None \<Rightarrow> Some (Inl ErrSubtreeRootNotInSub)
                 | Some subtreeRoot \<Rightarrow>
                     (case (getLeftChild sub subtreeRoot, getRightChild sub subtreeRoot) of
                        (Some l, Some r) \<Rightarrow>
                          do {
                            (leftNode, t) \<leftarrow> deepcopyNode sub l t;
                            (rightNode, t) \<leftarrow> deepcopyNode sub r t;
                            let t = setLeftChild node (Some leftNode) t;
                            let t = setRightChild node (Some rightNode) t;
                            let t = setParent leftNode (Some node) t;
                            let t = setParent rightNode (Some node) t;
                            Some (Inr t)
                          }
                      | _ \<Rightarrow> Some (Inr t)))
          })"

text \<open>The hashes that appending the leaves one by one brings into the tree are new to it.\<close>

fun fresh_appends :: "hash_fun \<Rightarrow> MerkleHash list \<Rightarrow> MerkleHash list \<Rightarrow> bool" where
  "fresh_appends H xs [] = True"
| "fresh_appends H xs (y # ys) =
     (distinct (subroots H xs @ chain H (xs @ [y]) (length xs)) \<and> fresh_appends H (xs @ [y]) ys)"

text \<open>The trees that the code reaches: a new tree, a tree after \<^verbatim>\<open>Append\<close>, a tree after \<^verbatim>\<open>UpdateLeaf\<close>.
  The side conditions say that no two nodes get the same hash, which the node map (keyed by hash)
  relies on, and that the size stays an \<^verbatim>\<open>int64\<close>.\<close>

inductive full_tree :: "hash_fun \<Rightarrow> MerkleTree \<Rightarrow> MerkleHash list \<Rightarrow> bool" for H where
  created: "NewFullMerkleTree H xs = Some t \<Longrightarrow> length xs < 2 ^ 63 \<Longrightarrow> distinct (subroots H xs) \<Longrightarrow> full_tree H t xs"
| appended: "full_tree H t xs \<Longrightarrow> fullAppend H ys t = Some (Inr t') \<Longrightarrow> ys \<noteq> [] \<Longrightarrow>
    length xs + length ys < 2 ^ 63 \<Longrightarrow> fresh_appends H xs ys \<Longrightarrow> full_tree H t' (xs @ ys)"
| updated: "full_tree H t xs \<Longrightarrow> fullUpdateLeaf H (xs ! i) y t = Some (Inr t') \<Longrightarrow> i < length xs \<Longrightarrow>
    distinct (subroots H xs @ chain H (xs[i := y]) i) \<Longrightarrow> full_tree H t' (xs[i := y])"

section \<open>Building a tree\<close>

text \<open>\<open>map_ext t0 t E\<close>: the node map of \<open>t\<close> is the one of \<open>t0\<close> with the entries \<open>E\<close> added, some of
  which may hide an older one of the same hash. \<open>built H t0 t s xs\<close>: from \<open>t0\<close> the code allocated the
  tree \<open>s\<close> over the leaves \<open>xs\<close> and came to \<open>t\<close>.\<close>

definition map_ext :: "MerkleTree \<Rightarrow> MerkleTree \<Rightarrow> (MerkleHash \<times> addr) set \<Rightarrow> bool" where
  "map_ext t0 t E \<longleftrightarrow> Map.graph (nodeMap t) \<subseteq> Map.graph (nodeMap t0) \<union> E \<and>
     dom (nodeMap t) = dom (nodeMap t0) \<union> fst ` E"

definition same_info :: "MerkleTree \<Rightarrow> MerkleTree \<Rightarrow> bool" where
  "same_info t0 t \<longleftrightarrow> Size t = Size t0 \<and> MerkleRoot t = MerkleRoot t0 \<and>
     lastNodeHash t = lastNodeHash t0 \<and> listener t = listener t0"

definition built :: "hash_fun \<Rightarrow> MerkleTree \<Rightarrow> MerkleTree \<Rightarrow> mtree \<Rightarrow> MerkleHash list \<Rightarrow> bool" where
  "built H t0 t s xs \<longleftrightarrow> rep (store t) None s \<and> distinct (addrs s) \<and>
     set (addrs s) \<subseteq> {cursor t0..<cursor t} \<and> hash_ok H s \<and> canon s \<and> leaves s = xs \<and>
     cursor t0 \<le> cursor t \<and> (\<forall>a < cursor t0. store t a = store t0 a) \<and>
     map_ext t0 t (set (entries s)) \<and> same_info t0 t"

lemma map_ext_trans: "map_ext t0 t1 E \<Longrightarrow> map_ext t1 t2 F \<Longrightarrow> map_ext t0 t2 (E \<union> F)"
  unfolding map_ext_def by (auto simp: image_Un)

lemma map_ext_upd: "nodeMap t' = (nodeMap t)(h \<mapsto> a) \<Longrightarrow> map_ext t t' {(h, a)}"
  unfolding map_ext_def by (auto simp: Map.graph_def split: if_splits)

lemma same_info_trans: "same_info t0 t1 \<Longrightarrow> same_info t1 t2 \<Longrightarrow> same_info t0 t2"
  by (simp add: same_info_def)

lemma createNode_eq:
  "createNode h t = (cursor t,
     t\<lparr>store := (store t)(cursor t \<mapsto> \<lparr>parent = None, leftChild = None, rightChild = None, hash = Some h\<rparr>),
       cursor := Suc (cursor t), nodeMap := (nodeMap t)(h \<mapsto> cursor t)\<rparr>)"
  by (simp add: createNode_def createRAMMerkleNode_def node_set mapSet_def Let_def)

lemma createNode_built:
  "built H t (snd (createNode h t)) (Lf (fst (createNode h t)) h) [h]"
  by (simp add: createNode_eq built_def same_info_def map_ext_upd)

lemma joinNodes_rep:
  assumes l: "rep (store t) None l" and r: "rep (store t) None r" and d: "distinct (addrs l @ addrs r)"
    and lt: "\<And>a. a \<in> set (addrs l) \<union> set (addrs r) \<Longrightarrow> a < cursor t"
  shows "\<exists>t'. joinNodes H (raddr l) (raddr r) t = Some (cursor t, t') \<and>
           rep (store t') None (Nd (cursor t) (Hash H (rhash l) (rhash r) Right) l r) \<and>
           cursor t' = Suc (cursor t) \<and> same_info t t' \<and>
           (\<forall>a. a < cursor t \<longrightarrow> a \<noteq> raddr l \<longrightarrow> a \<noteq> raddr r \<longrightarrow> store t' a = store t a) \<and>
           map_ext t t' {(Hash H (rhash l) (rhash r) Right, cursor t)}"
proof -
  let ?n = "cursor t" let ?h = "Hash H (rhash l) (rhash r) Right" let ?a = "raddr l" let ?b = "raddr r"
  define st where "st = (store t)(?n \<mapsto> \<lparr>parent = None, leftChild = Some ?a, rightChild = Some ?b, hash = Some ?h\<rparr>,
     ?a := map_option (\<lambda>n. n\<lparr>parent := Some ?n\<rparr>) (store t ?a), ?b := map_option (\<lambda>n. n\<lparr>parent := Some ?n\<rparr>) (store t ?b))"
  let ?t = "t\<lparr>store := st, cursor := Suc ?n, nodeMap := (nodeMap t)(?h \<mapsto> ?n)\<rparr>"
  have ne: "?a < ?n" "?b < ?n" using lt by auto
  have ab: "?a \<noteq> ?b" using d raddr_disjoint by simp
  have "joinNodes H ?a ?b t = Some (?n, ?t)"
    using ne ab rep_hash [OF l] rep_hash [OF r]
    by (simp add: joinNodes_def createNode_eq Let_def node_set st_def)
  moreover have "rep st (Some ?n) l"
  proof -
    have "rep st (Some ?n) l = rep ((store t)(?a := map_option (\<lambda>n. n\<lparr>parent := Some ?n\<rparr>) (store t ?a))) (Some ?n) l"
      using lt ne ab d raddr_in [of r] by (intro rep_cong) (auto simp: st_def simp del: raddr_in)
    then show ?thesis using rep_setParent [OF l] d by simp
  qed
  moreover have "rep st (Some ?n) r"
  proof -
    have "rep st (Some ?n) r = rep ((store t)(?b := map_option (\<lambda>n. n\<lparr>parent := Some ?n\<rparr>) (store t ?b))) (Some ?n) r"
      using lt ne ab d raddr_in [of l] by (intro rep_cong) (auto simp: st_def simp del: raddr_in)
    then show ?thesis using rep_setParent [OF r] d by simp
  qed
  moreover have "st ?n = Some \<lparr>parent = None, leftChild = Some ?a, rightChild = Some ?b, hash = Some ?h\<rparr>"
    using ne by (simp add: st_def)
  moreover have "\<forall>a. a < ?n \<longrightarrow> a \<noteq> ?a \<longrightarrow> a \<noteq> ?b \<longrightarrow> ?t\<lparr>store := st\<rparr> = ?t \<and> st a = store t a"
    by (simp add: st_def)
  ultimately show ?thesis
    by (intro exI [of _ ?t]) (simp add: same_info_def map_ext_upd)
qed

text \<open>Joining two trees: the one on the left built after the one on the right, or the other way round.\<close>

lemma joinNodes_built:
  assumes l: "rep (store t) None l" "distinct (addrs l)" "set (addrs l) \<subseteq> {cursor t0..<cursor t}" "hash_ok H l" "canon l"
    and r: "rep (store t) None r" "distinct (addrs r)" "set (addrs r) \<subseteq> {cursor t0..<cursor t}" "hash_ok H r" "canon r"
    and dj: "set (addrs l) \<inter> set (addrs r) = {}"
    and len: "length (leaves l) = 2 ^ k" "length (leaves r) \<le> 2 ^ k"
    and t0: "cursor t0 \<le> cursor t" "\<forall>a < cursor t0. store t a = store t0 a"
      "map_ext t0 t (set (entries l) \<union> set (entries r))" "same_info t0 t"
  shows "\<exists>s t'. joinNodes H (raddr l) (raddr r) t = Some (raddr s, t') \<and> built H t0 t' s (leaves l @ leaves r)"
proof -
  let ?s = "Nd (cursor t) (Hash H (rhash l) (rhash r) Right) l r"
  obtain t' where t': "joinNodes H (raddr l) (raddr r) t = Some (cursor t, t')" "rep (store t') None ?s"
    "cursor t' = Suc (cursor t)" "same_info t t'"
    "\<forall>a. a < cursor t \<longrightarrow> a \<noteq> raddr l \<longrightarrow> a \<noteq> raddr r \<longrightarrow> store t' a = store t a"
    "map_ext t t' {(rhash ?s, cursor t)}"
    using joinNodes_rep [OF l(1) r(1)] l(2,3) r(2,3) dj by (fastforce simp: subset_iff)
  have "raddr l \<ge> cursor t0" "raddr r \<ge> cursor t0"
    using raddr_in [of l] raddr_in [of r] l(3) r(3) by (auto simp: subset_iff simp del: raddr_in)
  then have "\<forall>a < cursor t0. store t' a = store t0 a" using t0 t'(5) by auto
  moreover have "canon ?s" using canon_NdI [OF len l(5) r(5)] .
  moreover have "map_ext t0 t' (set (entries ?s))"
    using map_ext_trans [OF t0(3) t'(6)] by (simp add: Un_ac)
  ultimately have "built H t0 t' ?s (leaves l @ leaves r)"
    using t' t0 l r dj same_info_trans [OF t0(4) t'(4)] unfolding built_def
    by (auto simp: subset_iff)
  then show ?thesis using t'(1) by (intro exI [of _ ?s] exI [of _ t']) simp
qed

lemma built_keep:
  assumes "built H t0 t s xs" "built H t t' s' ys"
  shows "rep (store t') None s" "set (addrs s) \<subseteq> {cursor t0..<cursor t'}" "set (addrs s) \<inter> set (addrs s') = {}"
    "set (addrs s') \<subseteq> {cursor t0..<cursor t'}" "cursor t0 \<le> cursor t'" "\<forall>a < cursor t0. store t' a = store t0 a"
    "map_ext t0 t' (set (entries s) \<union> set (entries s'))" "same_info t0 t'"
proof -
  have st: "\<forall>a < cursor t. store t' a = store t a" using assms(2) by (simp add: built_def)
  have "rep (store t') None s = rep (store t) None s"
    using assms(1) st by (intro rep_cong) (auto simp: built_def subset_iff)
  then show "rep (store t') None s" using assms(1) by (simp add: built_def)
  show "map_ext t0 t' (set (entries s) \<union> set (entries s'))" "same_info t0 t'"
    using assms map_ext_trans same_info_trans unfolding built_def by blast+
qed (use assms in \<open>(force simp: built_def subset_iff)+\<close>)

lemmas builtD = built_def [THEN iffD1]

lemma join_old_left:
  assumes "built H t0 t l xs" "built H t t' r ys" "length xs = 2 ^ k" "length ys \<le> 2 ^ k"
  shows "\<exists>s t''. joinNodes H (raddr l) (raddr r) t' = Some (raddr s, t'') \<and> built H t0 t'' s (xs @ ys)"
  using joinNodes_built [of t' l t0 H r k] built_keep [OF assms(1,2)] builtD [OF assms(1)] builtD [OF assms(2)] assms(3,4)
  by auto

lemma join_old_right:
  assumes "built H t0 t r ys" "built H t t' l xs" "length xs = 2 ^ k" "length ys \<le> 2 ^ k"
  shows "\<exists>s t''. joinNodes H (raddr l) (raddr r) t' = Some (raddr s, t'') \<and> built H t0 t'' s (xs @ ys)"
  using joinNodes_built [of t' l t0 H r k] built_keep [OF assms(1,2)] builtD [OF assms(1)] builtD [OF assms(2)] assms(3,4)
  by (auto simp: Int_commute Un_commute)

lemma buildPerfectSubtree_built:
  "length xs = 2 ^ Suc k \<Longrightarrow>
   \<exists>s t'. buildPerfectSubtree H xs t = Some (raddr s, t') \<and> built H t t' s xs"
proof (induction k arbitrary: xs t)
  case 0
  then obtain x y where xs: "xs = [x, y]"
    by (auto simp: length_Suc_conv numeral_2_eq_2)
  obtain n1 t1 n2 t2 where c: "createNode x t = (n1, t1)" "createNode y t1 = (n2, t2)"
    by (metis prod.exhaust)
  have "built H t t1 (Lf n1 x) [x]" "built H t1 t2 (Lf n2 y) [y]"
    using createNode_built [of H t x] createNode_built [of H t1 y] c by simp_all
  from join_old_left [OF this, of 0] show ?case
    using c by (subst buildPerfectSubtree.simps) (auto simp: xs)
next
  case (Suc k)
  let ?m = "length xs div 2"
  have m: "length (take ?m xs) = 2 ^ Suc k" "length (drop ?m xs) = 2 ^ Suc k" "length xs \<noteq> 2" "\<not> length xs < 2"
    using Suc.prems by simp_all
  obtain l t1 where l: "buildPerfectSubtree H (take ?m xs) t = Some (raddr l, t1)" "built H t t1 l (take ?m xs)"
    using Suc.IH m(1) by blast
  obtain r t2 where r: "buildPerfectSubtree H (drop ?m xs) t1 = Some (raddr r, t2)" "built H t1 t2 r (drop ?m xs)"
    using Suc.IH m(2) by blast
  show ?case using join_old_left [OF l(2) r(2) m(1)] m l(1) r(1)
    by (subst buildPerfectSubtree.simps) (simp add: Let_def)
qed

section \<open>The loop of init\<close>

lemma sless_of_nat: "n < 2 ^ 63 \<Longrightarrow> (0::int64) <s of_nat n \<longleftrightarrow> 0 < n"
proof -
  assume n: "n < 2 ^ 63"
  then have "sint (of_nat n :: int64) = int n"
    by (simp add: signed_of_nat signed_take_bit_int_eq_self)
  then show ?thesis by (simp add: word_sless_alt)
qed

lemma tz_clear: "0 < n \<Longrightarrow> 2 ^ tz n < n \<Longrightarrow> tz n < tz (n - 2 ^ tz n)"
proof (induction n rule: tz.induct)
  case (1 n)
  show ?case
  proof (cases "odd n")
    case True
    then obtain m where "n = Suc (2 * m)" by (auto elim: oddE)
    then show ?thesis using "1.prems" by (cases m) (auto simp: tz.simps)
  next
    case False
    then obtain m where m: "n = 2 * m" by auto
    then have td: "tz (2 * m) = Suc (tz m)" using tz_double "1.prems" by simp
    then have "tz m < tz (m - 2 ^ tz m)" using "1.IH" "1.prems" False m by simp
    moreover have "tz n = Suc (tz m)" "n - 2 ^ tz n = 2 * (m - 2 ^ tz m)" "0 < m - 2 ^ tz m"
      using m td "1.prems" by auto
    ultimately show ?thesis using tz_double by simp
  qed
qed

definition node_built :: "hash_fun \<Rightarrow> MerkleTree \<Rightarrow> MerkleTree \<Rightarrow> addr option \<Rightarrow> MerkleHash list \<Rightarrow> bool" where
  "node_built H t0 t node ys =
     (case node of None \<Rightarrow> ys = [] \<and> t = t0 | Some a \<Rightarrow> (\<exists>s. a = raddr s \<and> built H t0 t s ys))"

lemma initLoop_turn:
  assumes n: "0 < n" "n \<le> length xs" "length xs < 2 ^ 63"
    and len: "length xs - n < 2 ^ tz n" and b: "node_built H t0 t node (drop n xs)"
  shows "\<exists>node' t'. initLoop H xs (of_nat n) node t = initLoop H xs (of_nat (n - 2 ^ tz n)) (Some node') t' \<and>
           node_built H t0 t' (Some node') (drop (n - 2 ^ tz n) xs)"
proof -
  let ?k = "tz n" let ?m = "n - 2 ^ ?k"
  have k: "2 ^ ?k \<le> n" using tz_le [OF n(1)] .
  then have k63: "?k < 63" using n by (metis le_less_trans power_less_imp_less_exp one_less_numeral_iff semiring_norm(76))
  have lsb: "leastSignificantBit (of_nat n) = of_nat (2 ^ ?k)"
    using n(1) by (simp add: leastSignificantBit_def lsb_word)
  have sub: "of_nat n - of_nat (2 ^ ?k) = (of_nat ?m :: int64)" using k by (simp add: of_nat_diff)
  have un: "unat (of_nat n :: int64) = n" "unat (of_nat ?m :: int64) = ?m"
    using n by (auto intro!: unat_int64_of_nat)
  have pos: "(0::int64) <s of_nat n" using sless_of_nat n by simp
  have one: "(of_nat (2 ^ ?k) :: int64) = 1 \<longleftrightarrow> ?k = 0"
  proof
    assume "(of_nat (2 ^ ?k) :: int64) = 1"
    then have "unat ((2::int64) ^ ?k) = 1" by simp
    then show "?k = 0" using unat_int64_pow [of ?k] k63 by simp
  qed simp
  have "drop ?m (take n xs @ drop n xs) = drop ?m (take n xs) @ drop n xs"
    unfolding drop_append using n(2) by simp
  then have dr: "drop ?m xs = drop ?m (take n xs) @ drop n xs" by simp
  have slice: "length (drop ?m (take n xs)) = 2 ^ ?k" using k n(2) by simp
  show ?thesis
  proof (cases "?k = 0")
    case True
    then have "length xs = n" using len n(2) by simp
    then have "node = None" "t = t0"
      using b by (auto simp: node_built_def built_def split: option.splits)
    moreover have "drop ?m xs = [xs ! (n - 1)]"
      using Cons_nth_drop_Suc [of "n - 1" xs] \<open>length xs = n\<close> n(1) True by simp
    ultimately have nn: "node = None" "t = t0" "drop ?m xs = [xs ! (n - 1)]" by auto
    have "initLoop H xs (of_nat n) node t = initLoop H xs (of_nat ?m) (Some (fst (createNode (xs ! (n - 1)) t)))
        (snd (createNode (xs ! (n - 1)) t))"
      using pos lsb sub un True by (subst initLoop.simps) (simp add: Let_def split_def)
    moreover have "node_built H t0 (snd (createNode (xs ! (n - 1)) t)) (Some (fst (createNode (xs ! (n - 1)) t))) (drop ?m xs)"
      unfolding node_built_def option.case
      by (rule exI [of _ "Lf (fst (createNode (xs ! (n - 1)) t)) (xs ! (n - 1))"])
        (use createNode_built [of H t "xs ! (n - 1)"] nn in simp)
    ultimately show ?thesis by blast
  next
    case False
    then obtain j where "?k = Suc j" by (cases ?k) auto
    then obtain s t1 where s: "buildPerfectSubtree H (drop ?m (take n xs)) t = Some (raddr s, t1)"
      "built H t t1 s (drop ?m (take n xs))"
      using buildPerfectSubtree_built [of "drop ?m (take n xs)" j H t] slice by metis
    obtain s' t2 where s': "(case node of None \<Rightarrow> Some (raddr s, t1) | Some node \<Rightarrow> joinNodes H (raddr s) node t1) = Some (raddr s', t2)"
      "built H t0 t2 s' (drop ?m xs)"
    proof (cases node)
      case None
      then show ?thesis using that [of s t1] s b dr by (auto simp: node_built_def)
    next
      case (Some a)
      then obtain r where r: "a = raddr r" "built H t0 t r (drop n xs)" using b by (auto simp: node_built_def)
      then show ?thesis using join_old_right [OF r(2) s(2) slice] len that Some by (auto simp: dr)
    qed
    then show ?thesis using pos lsb sub un one False s(1)
      by (subst initLoop.simps) (auto simp: Let_def node_built_def)
  qed
qed

lemma initLoop_built:
  assumes "0 < n" "n \<le> length xs" "length xs < 2 ^ 63" "length xs - n < 2 ^ tz n"
    "node_built H t0 t node (drop n xs)"
  shows "\<exists>s t'. initLoop H xs (of_nat n) node t = Some (Some (raddr s), t') \<and> built H t0 t' s xs"
  using assms
proof (induction n arbitrary: node t rule: less_induct)
  case (less n)
  let ?m = "n - 2 ^ tz n"
  obtain node' t' where turn: "initLoop H xs (of_nat n) node t = initLoop H xs (of_nat ?m) (Some node') t'"
    "node_built H t0 t' (Some node') (drop ?m xs)"
    using initLoop_turn [OF less.prems] by blast
  show ?case
  proof (cases "?m = 0")
    case True
    then have "initLoop H xs (of_nat ?m) (Some node') t' = Some (Some node', t')"
      by (subst initLoop.simps) simp
    then show ?thesis using turn True by (auto simp: node_built_def)
  next
    case False
    then have "tz n < tz ?m" using tz_clear less.prems(1) by simp
    then have "(2::nat) ^ Suc (tz n) \<le> 2 ^ tz ?m" by (intro power_increasing) auto
    then have "length xs - ?m < 2 ^ tz ?m" using less.prems(2,4) tz_le [OF less.prems(1)] by simp
    then show ?thesis using less.IH [of ?m] turn less.prems False by simp
  qed
qed

section \<open>The invariant of full trees\<close>

text \<open>\<open>core\<close> is what the loop of \<^verbatim>\<open>append\<close> keeps; \<open>full_inv\<close> adds the fields set at its end.\<close>

definition core :: "hash_fun \<Rightarrow> MerkleTree \<Rightarrow> mtree \<Rightarrow> MerkleHash list \<Rightarrow> bool" where
  "core H t s xs \<longleftrightarrow> rep (store t) None s \<and> distinct (addrs s) \<and> fresh_heap t s \<and> hash_ok H s \<and> canon s \<and>
     leaves s = xs \<and> listener t \<and> distinct (hashes s) \<and> Map.graph (nodeMap t) = set (entries s)"

definition full_inv :: "hash_fun \<Rightarrow> MerkleTree \<Rightarrow> MerkleHash list \<Rightarrow> bool" where
  "full_inv H t xs \<longleftrightarrow>
     listener t \<and> Size t = of_nat (length xs) \<and> length xs < 2 ^ 63 \<and>
     (if xs = [] then nodeMap t = Map.empty \<and> MerkleRoot t = None \<and> lastNodeHash t = None
      else \<exists>s. core H t s xs \<and> MerkleRoot t = Some (rhash s) \<and> lastNodeHash t = Some (last xs))"

lemma map_ext_graph:
  assumes "map_ext t0 t (set E)" "nodeMap t0 = Map.empty" "distinct (map fst E)"
  shows "Map.graph (nodeMap t) = set E"
proof -
  have sub: "Map.graph (nodeMap t) \<subseteq> set E" and dm: "dom (nodeMap t) = fst ` set E"
    using assms(1,2) by (auto simp: map_ext_def)
  have "(h, a) \<in> Map.graph (nodeMap t)" if "(h, a) \<in> set E" for h a
  proof -
    have "h \<in> dom (nodeMap t)" using that dm by force
    then obtain a' where "(h, a') \<in> Map.graph (nodeMap t)" by (auto intro: in_graphI)
    then show ?thesis using sub that assms(3) by (metis eq_key_imp_eq_value subsetD)
  qed
  then show ?thesis using sub by auto
qed

lemma NewFullMerkleTree_built:
  assumes "xs \<noteq> []" "length xs < 2 ^ 63"
  shows "\<exists>s t. NewFullMerkleTree H xs = Some t \<and> rep (store t) None s \<and> distinct (addrs s) \<and> fresh_heap t s \<and>
     hash_ok H s \<and> canon s \<and> leaves s = xs \<and> listener t \<and> Size t = of_nat (length xs) \<and>
     MerkleRoot t = Some (rhash s) \<and> lastNodeHash t = Some (last xs) \<and>
     map_ext newEmptyRAMMerkleTree t (set (entries s))"
proof -
  let ?t0 = "newEmptyRAMMerkleTree\<lparr>listener := True, Size := of_nat (length xs)\<rparr>"
  have "\<exists>s t'. initLoop H xs (of_nat (length xs)) None ?t0 = Some (Some (raddr s), t') \<and> built H ?t0 t' s xs"
    using assms by (intro initLoop_built) (auto simp: node_built_def)
  then obtain s t' where s: "initLoop H xs (of_nat (length xs)) None ?t0 = Some (Some (raddr s), t')" "built H ?t0 t' s xs"
    by blast
  then have rep: "rep (store t') None s" "same_info ?t0 t'" by (auto simp: built_def)
  have l: "unat (of_nat (length xs) - 1 :: int64) = length xs - 1"
    using assms unat_int64_of_nat [of "length xs - 1"] by (simp add: of_nat_diff Suc_leI)
  have "NewFullMerkleTree H xs = Some (t'\<lparr>MerkleRoot := Some (rhash s), lastNodeHash := Some (last xs)\<rparr>)"
    using assms(1) s(1) rep_hash [OF rep(1)] rep(2) l
    by (simp add: NewFullMerkleTree_def fullInit_def Let_def same_info_def last_conv_nth)
  then show ?thesis using s(2)
    by (intro exI [of _ s]) (auto simp: built_def fresh_heap_def map_ext_def same_info_def subset_iff)
qed

lemma NewFullMerkleTree_inv:
  assumes "length xs < 2 ^ 63" "distinct (subroots H xs)"
  shows "\<exists>t. NewFullMerkleTree H xs = Some t \<and> full_inv H t xs"
proof (cases "xs = []")
  case True
  then show ?thesis by (simp add: NewFullMerkleTree_def fullInit_def full_inv_def newEmptyRAMMerkleTree_def)
next
  case False
  obtain s t where t: "NewFullMerkleTree H xs = Some t" "rep (store t) None s" "distinct (addrs s)" "fresh_heap t s"
     "hash_ok H s" "canon s" "leaves s = xs" "listener t" "Size t = of_nat (length xs)"
     "MerkleRoot t = Some (rhash s)" "lastNodeHash t = Some (last xs)"
     "map_ext newEmptyRAMMerkleTree t (set (entries s))"
    using NewFullMerkleTree_built [OF False assms(1)] by blast
  have d: "distinct (hashes s)" using canon_hashes [OF t(5,6)] t(7) assms(2) by simp
  have "Map.graph (nodeMap t) = set (entries s)"
    by (rule map_ext_graph [OF t(12)]) (simp_all add: newEmptyRAMMerkleTree_def d)
  then show ?thesis using t d False assms(1) by (auto simp: full_inv_def core_def)
qed

section \<open>Append\<close>

lemma core_hashes: "core H t s xs \<Longrightarrow> hashes s = subroots H xs"
  using canon_hashes by (auto simp: core_def)

lemma core_lookup:
  assumes "core H t s xs" "(h, a) \<in> set (entries s)"
  shows "nodeMap t h = Some a"
  using assms by (auto simp: core_def intro: in_graphD)

lemma last_entry: "(last (leaves s), last_addr s) \<in> set (entries s)"
  by (induction s) auto

text \<open>The tree after one append: the subtree \<open>u\<close> in the hole of \<open>c\<close> and the new leaf under a joint.\<close>

lemma append_tree:
  fixes H :: hash_fun and y :: MerkleHash and j n :: addr
  assumes s: "hash_ok H (plug c u)" "canon (plug c u)" "leaves (plug c u) = xs"
    and u: "canon u" "length (leaves u) = 2 ^ k" "\<forall>f \<in> set c. \<not> fst f"
      "\<forall>u'. canon u' \<longrightarrow> length (leaves u') = Suc (length (leaves u)) \<longrightarrow> canon (plug c u')"
  defines "hj \<equiv> Hash H y (rhash u) Left"
  defines "s' \<equiv> plug (rehash H c hj) (Nd j hj u (Lf n y))"
  shows "hash_ok H s'" "canon s'" "leaves s' = xs @ [y]" "last_addr s' = n"
    "chain H (xs @ [y]) (length xs) = y # hj # news H c hj"
proof -
  let ?u = "Nd j hj u (Lf n y)" let ?c = "(False, j, hj, u) # rehash H c hj"
  have "hash_ok H u" "chash_ok H c" using s(1) hash_ok_plugD by blast+
  then show hok: "hash_ok H s'" using hash_ok_rehash [of H ?u c] by (simp add: hj_def s'_def Hash_swap)
  show can: "canon s'" unfolding s'_def by (rule append_canon [OF s(2) u(1,2,4)])
  show lvs: "leaves s' = xs @ [y]" using s(3) cleaves_r_right [OF u(3)] by (simp add: s'_def leaves_plug)
  have "\<forall>f \<in> set (rehash H c x). \<not> fst f" for x using u(3) by (induction H c x rule: rehash.induct) auto
  then show "last_addr s' = n" unfolding s'_def by (subst last_addr_plug) simp_all
  have p: "s' = plug ?c (Lf n y)" by (simp add: s'_def)
  have "length (cleaves_l ?c) = length xs"
    using s(3) cleaves_r_right [OF u(3)] by (auto simp: leaves_plug)
  then show "chain H (xs @ [y]) (length xs) = y # hj # news H c hj"
    using chain_plug [of H ?c n y] hok can lvs by (simp add: news_rehash p)
qed

lemma append_map:
  fixes j n :: addr
  assumes g: "Map.graph m = set (entries (plug c u))"
    and d: "distinct (hashes (plug c u) @ y # hj # news H c hj)"
  defines "s' \<equiv> plug (rehash H c hj) (Nd j hj u (Lf n y))"
  shows "Map.graph (fold upd_map (changes H c hj) (m(y \<mapsto> n, hj \<mapsto> j))) = set (entries s')" "distinct (hashes s')"
proof -
  let ?X = "(hj, j) # entries u @ [(y, n)]"
  have ms: "mset (hashes (plug c u) @ y # hj # news H c hj) = mset (news H c hj @ map fst (?X @ centries c))"
    by (simp add: mset_hashes_plug)
  have "y \<notin> fst ` set (entries (plug c u))" "hj \<notin> fst ` set (entries (plug c u))" "y \<noteq> hj"
    using d by (simp_all del: set_zip)
  then have "Map.graph (m(y \<mapsto> n, hj \<mapsto> j)) = insert (hj, j) (insert (y, n) (set (entries (plug c u))))"
    using graph_fresh [of y m n] graph_fresh [of hj "m(y \<mapsto> n)" j] by (simp add: g eq_commute [of hj])
  then have "Map.graph (m(y \<mapsto> n, hj \<mapsto> j)) = set (?X @ centries c)" by (auto simp: set_entries_plug)
  from graph_changes [OF this, of H hj]
  have r: "Map.graph (fold upd_map (changes H c hj) (m(y \<mapsto> n, hj \<mapsto> j))) = set (?X @ centries (rehash H c hj))"
    "distinct (map fst (?X @ centries (rehash H c hj)))"
    using d mset_eq_imp_distinct_iff [OF ms] by simp_all
  have "set (entries s') = set (?X @ centries (rehash H c hj))"
    by (auto simp: s'_def set_entries_plug)
  then show "Map.graph (fold upd_map (changes H c hj) (m(y \<mapsto> n, hj \<mapsto> j))) = set (entries s')" using r by simp
  have "mset (hashes s') = mset (map fst (?X @ centries (rehash H c hj)))"
    by (simp add: s'_def mset_hashes_plug)
  then show "distinct (hashes s')" using r(2) mset_eq_imp_distinct_iff by blast
qed

lemma appendOne_core:
  assumes core: "core H t s xs" and len: "length xs < 2 ^ 63"
    and fresh: "distinct (subroots H xs @ chain H (xs @ [y]) (length xs))"
  shows "\<exists>t' s'. appendOne H (of_nat (length xs)) (Some (last_addr s)) y t = Some (last_addr s', t') \<and>
           core H t' s' (xs @ [y])"
proof -
  let ?n = "cursor t" let ?j = "Suc ?n"
  have c0: "rep (store t) None s" "distinct (addrs s)" "fresh_heap t s" "hash_ok H s" "canon s" "leaves s = xs"
    "listener t" "distinct (hashes s)" "Map.graph (nodeMap t) = set (entries s)"
    using core by (auto simp: core_def)
  obtain c u where u: "s = plug c u" "canon u" "length (leaves u) = 2 ^ tz (length xs)" "\<forall>f \<in> set c. \<not> fst f"
    and ins: "\<forall>u'. canon u' \<longrightarrow> length (leaves u') = Suc (length (leaves u)) \<longrightarrow> canon (plug c u')"
    using append_ctx [OF c0(5)] c0(6) by blast
  define hj where "hj = Hash H y (rhash u) Left"
  define t1 where "t1 = splice y hj (raddr u) (ctop c) t"
  define t' where "t' = fold step_change ((?j, hj, hj) # changes H c hj) t1"
  let ?u = "Nd ?j hj u (Lf ?n y)" let ?s = "plug (rehash H c hj) ?u"
  note tree = append_tree [OF c0(4,5,6) [unfolded u(1)] u(2,3,4) ins, where y = y, folded hj_def]
  have ne: "0 < length xs" using c0(6) by auto
  have rep1: "rep (store t1) None (plug c ?u)"
    unfolding t1_def by (rule rep_splice) (use c0 u in simp_all)
  have lt: "\<forall>a \<in> set (caddrs c) \<union> set (addrs u). a < ?n"
    using c0(3) u(1) by (simp add: fresh_heap_def set_addrs_plug)
  have "a \<noteq> ?n \<and> a \<noteq> ?j" if "a \<in> set (caddrs c) \<union> set (addrs u)" for a
    using bspec [OF lt that] by simp
  then have fr1: "?n \<notin> set (caddrs c) \<union> set (addrs u)" "?j \<notin> set (caddrs c) \<union> set (addrs u)" by blast+
  then have d1: "distinct (addrs (plug c ?u))" using c0(2) unfolding u(1) distinct_plug by auto
  note upd = updateNode_rep [OF rep1 d1, where H = H and nh = hj, simplified, folded fold_simps t'_def]
  have "rep (store t) (ctop c) u" using c0(1) u(1) by (simp add: rep_plug)
  then have cl: "climb t (countOne (leastSignificantBit (of_nat (length xs)) - 1)) (last_addr s) = Some (raddr u)"
    using climb_append [OF ne len u(2,3)] u(1) last_addr_plug [OF u(4)] by simp
  have "last_addr s \<in> set (addrs s)" using leaf_addrs_sub [of s] last_in_set leaf_addrs_nonempty by blast
  then have app: "appendOne H (of_nat (length xs)) (Some (last_addr s)) y t = Some (?n, t')"
    using appendOne_splice [of t c u "of_nat (length xs)" "last_addr s" H y] c0 u cl upd ne len int64_of_nat_0
    by (simp add: Let_def t1_def t'_def flip: hj_def)
  have fr: "distinct (hashes (plug c u) @ y # hj # news H c hj)"
    using fresh unfolding tree(5) u(1) [symmetric] core_hashes [OF core] .
  have lis: "listener t1" "cursor t1 = Suc ?j" "nodeMap t1 = (nodeMap t)(y \<mapsto> ?n, hj \<mapsto> ?j)"
    using c0(7) by (simp_all add: t1_def splice_def Let_def)
  then have nm: "nodeMap t' = fold upd_map (changes H c hj) ((nodeMap t)(y \<mapsto> ?n, hj \<mapsto> ?j))"
    by (simp add: t'_def nodeMap_fold nodeMap_step_change frame)
  note map = append_map [OF c0(9) [unfolded u(1)] fr, where n = ?n and j = ?j]
  have "mset (addrs ?s) = mset (addrs (plug c ?u))" by (simp add: mset_addrs_plug caddrs_rehash)
  then have "distinct (addrs ?s)" "set (addrs ?s) = set (addrs (plug c ?u))"
    using d1 mset_eq_imp_distinct_iff mset_eq_setD by blast+
  moreover from this have "fresh_heap t' ?s"
    using bspec [OF lt] lis(2) by (auto simp: fresh_heap_def set_addrs_plug t'_def frame intro: less_SucI)
  ultimately have "core H t' ?s (xs @ [y])"
    using upd tree(1,2,3) lis nm map by (simp add: core_def t'_def frame)
  then show ?thesis using app tree(4) by metis
qed

lemma rep_entry: "rep (store t) p s \<Longrightarrow> (h, a) \<in> set (entries s) \<Longrightarrow> getHash t a = Some h"
  by (induction s arbitrary: p) (auto simp: getHash_def)

lemma entry_addr: "(h, a) \<in> set (entries s) \<Longrightarrow> a \<in> set (addrs s)"
  by (rule set_zip_rightD)

lemma appendLoop_core:
  assumes "core H t s xs" "length xs + length ys < 2 ^ 63" "fresh_appends H xs ys"
  shows "\<exists>t' s'. appendLoop H (of_nat (length xs)) (Some (last_addr s)) ys t =
           Some (of_nat (length (xs @ ys)), Some (last_addr s'), t') \<and> core H t' s' (xs @ ys)"
  using assms
proof (induction ys arbitrary: t s xs)
  case Nil
  then show ?case by auto
next
  case (Cons y ys)
  obtain t1 s1 where s1: "appendOne H (of_nat (length xs)) (Some (last_addr s)) y t = Some (last_addr s1, t1)"
      "core H t1 s1 (xs @ [y])"
    using appendOne_core [OF Cons.prems(1), of y] Cons.prems by fastforce
  show ?case using Cons.IH [OF s1(2)] s1(1) Cons.prems by (simp add: add.commute)
qed

lemma appendOne_empty:
  assumes "nodeMap t = Map.empty" "listener t"
  shows "\<exists>t' s'. appendOne H 0 x y t = Some (last_addr s', t') \<and> core H t' s' [y]"
proof -
  let ?t = "t\<lparr>store := (store t)(cursor t \<mapsto> \<lparr>parent = None, leftChild = None, rightChild = None, hash = Some y\<rparr>),
              cursor := Suc (cursor t), nodeMap := [y \<mapsto> cursor t], MerkleRoot := Some y\<rparr>"
  have "appendOne H 0 x y t = Some (cursor t, ?t)"
    using assms(1) by (simp add: appendOne_def mapSet_def node_set createRAMMerkleNode_def)
  moreover have "core H ?t (Lf (cursor t) y) [y]"
    using assms(2) by (simp add: core_def fresh_heap_def graph_upd)
  ultimately show ?thesis by (metis last.simps leaf_addrs.simps(1))
qed

lemma core_info [simp]:
  "core H (t\<lparr>Size := a\<rparr>) s xs = core H t s xs" "core H (t\<lparr>lastNodeHash := b\<rparr>) s xs = core H t s xs"
  "core H (t\<lparr>MerkleRoot := c\<rparr>) s xs = core H t s xs"
  by (simp_all add: core_def fresh_heap_def)

lemma updateMerkleRoot_core:
  assumes "core H t s xs" "lastNodeHash t = Some (last xs)"
  shows "updateMerkleRoot t = Some (t\<lparr>MerkleRoot := Some (rhash s)\<rparr>)"
proof -
  have c: "rep (store t) None s" "leaves s = xs" using assms(1) by (auto simp: core_def)
  have e: "(last xs, last_addr s) \<in> set (entries s)" using last_entry [of s] c(2) by simp
  show ?thesis
    using core_lookup [OF assms(1) e] climbRoot_rep [OF c(1) entry_addr [OF e]] rep_hash [OF c(1)] assms(2)
    by (simp add: updateMerkleRoot_def)
qed

lemma UnknownSize_of_nat: "n < 2 ^ 63 \<Longrightarrow> of_nat n \<noteq> UnknownSize"
proof -
  assume n: "n < 2 ^ 63"
  then have "unat (of_nat n :: int64) = n" by (intro unat_int64_of_nat) simp
  moreover have "unat UnknownSize = 2 ^ 64 - 1" by (simp add: UnknownSize_def unsigned_minus_1_eq_mask mask_eq_exp_minus_1)
  ultimately show ?thesis using n by auto
qed

lemma fullAppend_inv:
  assumes inv: "full_inv H t xs" and len: "length xs + length ys < 2 ^ 63" and ys: "ys \<noteq> []"
    and fresh: "fresh_appends H xs ys"
  shows "\<exists>t'. fullAppend H ys t = Some (Inr t') \<and> full_inv H t' (xs @ ys)"
proof -
  let ?last = "if 0 <s Size t then map_option (nodeMap t) (lastNodeHash t) else Some None"
  have l: "length xs < 2 ^ 63" "Size t = of_nat (length xs)" "listener t" using inv by (auto simp: full_inv_def)
  have "\<exists>ln t' s'. ?last = Some ln \<and>
      appendLoop H (Size t) ln ys t = Some (of_nat (length (xs @ ys)), Some (last_addr s'), t') \<and> core H t' s' (xs @ ys)"
  proof (cases "xs = []")
    case True
    obtain y zs where y: "ys = y # zs" using ys by (cases ys) auto
    obtain t1 s1 where "appendOne H 0 None y t = Some (last_addr s1, t1)" "core H t1 s1 [y]"
      using appendOne_empty [of t H None y] inv True by (auto simp: full_inv_def)
    moreover have "length [y] + length zs < 2 ^ 63" "fresh_appends H [y] zs" using len fresh True by (auto simp: y)
    ultimately show ?thesis using appendLoop_core [of H t1 s1 "[y]" zs] l True by (auto simp: y)
  next
    case False
    then obtain s where s: "core H t s xs" "lastNodeHash t = Some (last xs)" using inv by (auto simp: full_inv_def)
    moreover have "leaves s = xs" using s(1) by (simp add: core_def)
    ultimately have "nodeMap t (last xs) = Some (last_addr s)" using core_lookup last_entry by metis
    moreover have "0 <s Size t" using l sless_of_nat False by simp
    ultimately show ?thesis using appendLoop_core [OF s(1) len fresh] s(2) l by auto
  qed
  then obtain ln t' s' where a: "?last = Some ln"
      "appendLoop H (Size t) ln ys t = Some (of_nat (length (xs @ ys)), Some (last_addr s'), t')" "core H t' s' (xs @ ys)"
    by blast
  let ?t = "t'\<lparr>Size := of_nat (length (xs @ ys)), lastNodeHash := Some (last (xs @ ys))\<rparr>"
  have "leaves s' = xs @ ys" "rep (store t') None s'" "listener t'" using a(3) by (auto simp: core_def)
  then have "getHash t' (last_addr s') = Some (last (xs @ ys))" using rep_entry last_entry by metis
  then have "merkleAppend H ys t = Some (Inr ?t)"
    using a(1,2) UnknownSize_of_nat [OF l(1)] l(2) by (simp add: merkleAppend_def)
  moreover have "updateMerkleRoot ?t = Some (?t\<lparr>MerkleRoot := Some (rhash s')\<rparr>)"
    by (rule updateMerkleRoot_core [of H _ _ "xs @ ys"]) (use a(3) in simp_all)
  ultimately show ?thesis
    using a(3) ys len \<open>listener t'\<close> by (auto simp: fullAppend_def full_inv_def)
qed

section \<open>UpdateLeaf\<close>

lemma leaf_ctx:
  "i < length (leaves s) \<Longrightarrow> \<exists>c a. s = plug c (Lf a (leaves s ! i)) \<and> length (cleaves_l c) = i"
proof (induction s arbitrary: i)
  case (Lf a h)
  then show ?case by (intro exI [of _ "[]"] exI [of _ a]) simp
next
  case (Nd a h l r)
  show ?case
  proof (cases "i < length (leaves l)")
    case True
    then obtain c b where "l = plug c (Lf b (leaves l ! i))" "length (cleaves_l c) = i" using Nd.IH(1) by blast
    then show ?thesis using True
      by (intro exI [of _ "c @ [(True, a, h, r)]"] exI [of _ b]) (auto simp: nth_append cleaves_l_append)
  next
    case False
    let ?i = "i - length (leaves l)"
    have "?i < length (leaves r)" using False Nd.prems by simp
    then obtain c b where "r = plug c (Lf b (leaves r ! ?i))" "length (cleaves_l c) = ?i" using Nd.IH(2) by blast
    then show ?thesis using False
      by (intro exI [of _ "c @ [(False, a, h, l)]"] exI [of _ b]) (auto simp: nth_append cleaves_l_append)
  qed
qed

lemma ctx_keys:
  "set (frame_hashes c) \<subseteq> fst ` set (centries c)" "set (cleaves_l c) \<subseteq> fst ` set (centries c)"
  "set (cleaves_r c) \<subseteq> fst ` set (centries c)"
proof (induction c rule: centries.induct)
  case (2 b a h s c)
  note l = leaves_sub [of s]
  { case 1 then show ?case using 2 by auto }
  { case 2 then show ?case using "2.IH" l by (simp add: image_Un) blast }
  { case 3 then show ?case using "2.IH" l by (simp add: image_Un) blast }
qed simp_all

lemma leaf_not_frame:
  "distinct (map fst (centries c)) \<Longrightarrow> h \<in> set (cleaves_l c) \<union> set (cleaves_r c) \<Longrightarrow> h \<notin> set (frame_hashes c)"
proof (induction c rule: centries.induct)
  case (2 b a g s c)
  let ?K = "fst ` set (centries c)"
  have k: "g \<notin> set (hashes s)" "g \<notin> ?K" "set (hashes s) \<inter> ?K = {}" "distinct (map fst (centries c))"
    using "2.prems"(1) by simp_all
  have h: "h \<in> set (leaves s) \<or> h \<in> set (cleaves_l c) \<union> set (cleaves_r c)"
    using "2.prems"(2) by (auto split: if_splits)
  have "h \<noteq> g" using h k(1,2) leaves_sub [of s] ctx_keys(2,3) [of c] by blast
  moreover have "h \<notin> set (frame_hashes c)"
    using h k(3) "2.IH" [OF k(4)] leaves_sub [of s] ctx_keys(1) [of c] by blast
  ultimately show ?case by simp
qed simp

lemma lastNodeHash_changes:
  "lastNodeHash t = Some x \<Longrightarrow> x \<notin> set (frame_hashes c) \<Longrightarrow>
   lastNodeHash (fold step_change (changes H c y) t) = Some x"
  by (induction H c y arbitrary: t rule: changes.induct) (auto simp: lastNodeHash_step_change)

lemma fullUpdateLeaf_core:
  assumes core: "core H t s xs" and last: "lastNodeHash t = Some (last xs)" and i: "i < length xs"
    and fresh: "distinct (subroots H xs @ chain H (xs[i := y]) i)"
  shows "\<exists>t' s'. fullUpdateLeaf H (xs ! i) y t = Some (Inr t') \<and> core H t' s' (xs[i := y]) \<and>
     MerkleRoot t' = Some (rhash s') \<and> lastNodeHash t' = Some (last (xs[i := y])) \<and> Size t' = Size t"
proof -
  have c0: "rep (store t) None s" "distinct (addrs s)" "fresh_heap t s" "hash_ok H s" "canon s" "leaves s = xs"
    "listener t" "distinct (hashes s)" "Map.graph (nodeMap t) = set (entries s)"
    using core by (auto simp: core_def)
  let ?x = "xs ! i"
  obtain c a where s: "s = plug c (Lf a ?x)" and ci: "length (cleaves_l c) = i"
    using leaf_ctx [of i s] i c0(6) by auto
  let ?s = "plug (rehash H c y) (Lf a y)"
  define t' where "t' = fold step_change ((a, ?x, y) # changes H c y) t"
  have xs: "xs = cleaves_l c @ ?x # cleaves_r c" using c0(6) by (simp add: s leaves_plug)
  have lv: "leaves ?s = xs[i := y]" using ci
    by (subst xs) (simp add: leaves_plug list_update_append)
  have upd: "updateNode H a y t = Some t'" "rep (store t') None ?s"
    using updateNode_rep [OF c0(1,2) [unfolded s], where H = H and nh = y] by (simp_all add: t'_def)
  have hok: "hash_ok H ?s" using hash_ok_rehash [of H "Lf a y" c] hash_ok_plugD c0(4) s by auto
  have can: "canon ?s" using same_shape_canon [of "Lf a y" "Lf a ?x" H c y] c0(5) s by simp
  have ch: "chain H (xs[i := y]) i = y # news H c y"
    using chain_plug [OF hok can] lv ci by (simp add: news_rehash)
  have "mset (subroots H xs) = mset (?x # map fst (centries c))"
    using core_hashes [OF core] by (simp add: s mset_hashes_plug flip: core_hashes [OF core])
  then have "mset (subroots H xs @ chain H (xs[i := y]) i) = mset (y # news H c y @ ?x # map fst (centries c))"
    by (simp add: ch)
  then have d: "distinct (y # news H c y @ ?x # map fst (centries c))"
    using fresh mset_eq_imp_distinct_iff by blast
  have "Map.graph (nodeMap t) = insert (?x, a) (set (centries c))"
    using c0(9) by (simp add: s set_entries_plug)
  then have "Map.graph (upd_map (a, ?x, y) (nodeMap t)) = insert (y, a) (set (centries c))"
    by (rule graph_upd_map) (use d in auto)
  then have "Map.graph (upd_map (a, ?x, y) (nodeMap t)) = set ([(y, a)] @ centries c)" by simp
  from graph_changes [OF this, of H y] have "Map.graph (fold upd_map (changes H c y) (upd_map (a, ?x, y) (nodeMap t))) =
      set ((y, a) # centries (rehash H c y))" and dr: "distinct (y # map fst (centries (rehash H c y)))"
    using d by auto
  then have g: "Map.graph (nodeMap t') = set (entries ?s)"
    using c0(7) by (simp add: t'_def nodeMap_fold nodeMap_step_change frame set_entries_plug)
  have "mset (hashes ?s) = mset (y # map fst (centries (rehash H c y)))" by (simp add: mset_hashes_plug)
  then have dh: "distinct (hashes ?s)" using dr mset_eq_imp_distinct_iff by blast
  have ad: "distinct (addrs ?s)" "fresh_heap t' ?s"
    using c0(2,3) by (simp_all add: s distinct_plug fresh_heap_def set_addrs_plug t'_def frame)
  have "core H t' ?s (xs[i := y])"
    using upd hok can lv c0(7) g dh ad by (simp add: core_def t'_def frame)
  moreover have lst: "lastNodeHash t' = Some (last (xs[i := y]))"
    unfolding t'_def fold_simps
  proof (cases "cleaves_r c = []")
    case True
    then have l: "last (xs[i := y]) = y" "last xs = ?x"
      using lv by (simp_all add: leaves_plug flip: lv) (subst xs, simp)
    then have "lastNodeHash (step_change (a, ?x, y) t) = Some y"
      using last c0(7) by (simp add: lastNodeHash_step_change)
    moreover have "y \<notin> set (frame_hashes c)" using d ctx_keys(1) [of c] by auto
    ultimately show "lastNodeHash (fold step_change (changes H c y) (step_change (a, ?x, y) t)) = Some (last (xs[i := y]))"
      using l lastNodeHash_changes by simp
  next
    case False
    then have l: "last (xs[i := y]) = last (cleaves_r c)" "last xs = last (cleaves_r c)"
      using lv by (simp_all add: leaves_plug flip: lv) (subst xs, simp)
    have in_r: "last (cleaves_r c) \<in> set (cleaves_r c)" using False by simp
    have "last (cleaves_r c) \<noteq> ?x" using in_r d ctx_keys(3) [of c] by auto
    then have "lastNodeHash (step_change (a, ?x, y) t) = Some (last (cleaves_r c))"
      using last l by (simp add: lastNodeHash_step_change)
    moreover have "last (cleaves_r c) \<notin> set (frame_hashes c)" using leaf_not_frame [of c] in_r d by auto
    ultimately show "lastNodeHash (fold step_change (changes H c y) (step_change (a, ?x, y) t)) = Some (last (xs[i := y]))"
      using l lastNodeHash_changes by simp
  qed
  moreover have "nodeMap t ?x = Some a"
    by (rule core_lookup [OF core]) (simp add: s set_entries_plug)
  ultimately show ?thesis
    using upd(1) updateMerkleRoot_core [of H t' ?s "xs[i := y]"]
    by (auto simp: fullUpdateLeaf_def t'_def frame)
qed

lemma fullUpdateLeaf_inv:
  assumes "full_inv H t xs" "i < length xs" "distinct (subroots H xs @ chain H (xs[i := y]) i)"
  shows "\<exists>t'. fullUpdateLeaf H (xs ! i) y t = Some (Inr t') \<and> full_inv H t' (xs[i := y])"
proof -
  obtain s where "core H t s xs" "lastNodeHash t = Some (last xs)"
    using assms(1,2) by (auto simp: full_inv_def split: if_splits)
  from fullUpdateLeaf_core [OF this assms(2,3)] show ?thesis
    using assms(1,2) by (auto simp: full_inv_def core_def)
qed

section \<open>Queries\<close>

lemma full_tree_inv: "full_tree H t xs \<Longrightarrow> full_inv H t xs"
proof (induction rule: full_tree.induct)
  case (created xs t)
  then show ?case using NewFullMerkleTree_inv by fastforce
next
  case (appended t xs ys t')
  then show ?case using fullAppend_inv by fastforce
next
  case (updated t xs i y t')
  then show ?case using fullUpdateLeaf_inv by fastforce
qed

lemma full_inv_core:
  assumes "full_inv H t xs" "xs \<noteq> []"
  obtains s where "core H t s xs" "MerkleRoot t = Some (rhash s)" "lastNodeHash t = Some (last xs)"
  using assms by (auto simp: full_inv_def)

lemma core_root: "core H t s xs \<Longrightarrow> rhash s = mth H xs"
  using canon_root by (auto simp: core_def)

lemma full_inv_root: "full_inv H t xs \<Longrightarrow> MerkleRoot t = (if xs = [] then None else Some (mth H xs))"
  by (auto simp: full_inv_def core_root)

text \<open>Any node that the map knows gets a path, and the check before the return accepts it.\<close>

lemma fullGetMerklePath_entry:
  assumes "rep (store t) None s" "distinct (addrs s)" "hash_ok H s" "nodeMap t h = Some a"
    "(h, a) \<in> set (entries s)" "MerkleRoot t = Some (rhash s)"
  shows "fullGetMerklePath H h t = Some (Inr \<lparr>Hashes = h # map fst (tpath s a), ProofPath = map snd (tpath s a)\<rparr>)"
    and "path_Verify H \<lparr>Hashes = h # map fst (tpath s a), ProofPath = map snd (tpath s a)\<rparr> (rhash s) = Inr ()"
proof -
  let ?p = "\<lparr>Hashes = h # map fst (tpath s a), ProofPath = map snd (tpath s a)\<rparr>"
  have a: "a \<in> set (addrs s)" using entry_addr [OF assms(5)] .
  show v: "path_Verify H ?p (rhash s) = Inr ()"
    using fold_tpath [OF assms(3) a] entries_hash_at [OF assms(2,5)] by (simp add: path_Verify_Inr)
  show "fullGetMerklePath H h t = Some (Inr ?p)"
    using createMerkleProof_rep [OF assms(1,2) a] assms(4,6) v by (simp add: fullGetMerklePath_def Let_def)
qed

lemma core_path:
  assumes "core H t s xs" "MerkleRoot t = Some (rhash s)" "h \<in> set (hashes s)"
  shows "\<exists>p. fullGetMerklePath H h t = Some (Inr p) \<and> GetLeaf p = Some h \<and> path_Verify H p (mth H xs) = Inr ()"
proof -
  have c: "rep (store t) None s" "distinct (addrs s)" "hash_ok H s" using assms(1) by (auto simp: core_def)
  obtain a where a: "(h, a) \<in> set (entries s)" using assms(3) fst_set_entries [of s] by (metis imageE prod.collapse)
  from fullGetMerklePath_entry [OF c core_lookup [OF assms(1) a] a assms(2)] show ?thesis
    using core_root [OF assms(1)] by (simp add: GetLeaf_def)
qed

lemma core_nodeMap_iff: "core H t s xs \<Longrightarrow> nodeMap t h = None \<longleftrightarrow> h \<notin> set (subroots H xs)"
proof -
  assume c: "core H t s xs"
  then have "dom (nodeMap t) = set (hashes s)"
    using fst_set_entries [of s] by (simp add: core_def flip: fst_graph_eq_dom)
  then show ?thesis using core_hashes [OF c] by auto
qed

lemma core_last_path:
  assumes "core H t s xs" "lastNodeHash t = Some (last xs)"
  shows "GetLastNodeMerklePath t = Some (Inr (lastMerklePath H xs))"
proof -
  have c: "rep (store t) None s" "distinct (addrs s)" "hash_ok H s" "canon s" "leaves s = xs"
    using assms(1) by (auto simp: core_def)
  have e: "(last xs, last_addr s) \<in> set (entries s)" using last_entry [of s] c(5) by simp
  have "length (last_path H xs) = rdepth s" using rdepth_canon [OF c(4)] length_last_path c(5) by simp
  then show ?thesis
    using createMerkleProof_rep [OF c(1,2) entry_addr [OF e]] tpath_last [OF c(3,4,2)] c(5) assms(2)
      core_lookup [OF assms(1) e] rep_entry [OF c(1) e]
    by (simp add: GetLastNodeMerklePath_def lastMerklePath_def map_fst_zip map_snd_zip)
qed

section \<open>Properties\<close>

text \<open>C17. The root of a full tree is the reference root of its leaves. For every tree that the code
  reaches by \<^verbatim>\<open>NewFullMerkleTree\<close>, \<^verbatim>\<open>Append\<close> and \<^verbatim>\<open>UpdateLeaf\<close> in any order, \<^verbatim>\<open>MerkleRoot\<close> is the Merkle
  root, by the recursive reference definition, of the leaves put in and updated so far.\<close>

theorem full_tree_root:
  assumes "full_tree H t xs" "xs \<noteq> []"
  shows "MerkleRoot t = Some (mth H xs)" 
  using full_inv_root [OF full_tree_inv [OF assms(1)]] assms(2) by simp

text \<open>C21. \<^verbatim>\<open>NewFullMerkleTree\<close> is correct with no assumption on the hash: for any nonempty list of leaves
  it returns, its root is the reference root, and \<^verbatim>\<open>GetMerklePath\<close> returns for every leaf, even if two
  leaves are equal, a path with that leaf that \<^verbatim>\<open>Verify\<close> accepts against the root.\<close>

theorem NewFullMerkleTree_correct:
  assumes "xs \<noteq> []" "length xs < 2 ^ 63"
  shows "\<exists>t. NewFullMerkleTree H xs = Some t \<and> MerkleRoot t = Some (mth H xs) \<and>
     (\<forall>x \<in> set xs. \<exists>p. fullGetMerklePath H x t = Some (Inr p) \<and> GetLeaf p = Some x \<and>
        path_Verify H p (mth H xs) = Inr ())"
proof -
  obtain s t where t: "NewFullMerkleTree H xs = Some t" "rep (store t) None s" "distinct (addrs s)"
     "hash_ok H s" "canon s" "leaves s = xs" "MerkleRoot t = Some (rhash s)"
     "map_ext newEmptyRAMMerkleTree t (set (entries s))"
    using NewFullMerkleTree_built [OF assms] by blast
  have root: "rhash s = mth H xs" using canon_root [OF t(4,5)] t(6) by simp
  have "\<exists>p. fullGetMerklePath H x t = Some (Inr p) \<and> GetLeaf p = Some x \<and> path_Verify H p (mth H xs) = Inr ()"
    if "x \<in> set xs" for x
  proof -
    have "x \<in> dom (nodeMap t)" using that t(6,8) leaves_sub [of s] by (auto simp: map_ext_def)
    then obtain a where a: "nodeMap t x = Some a" by auto
    then have "(x, a) \<in> set (entries s)"
      using t(8) in_graphI [of "nodeMap t" x a] by (auto simp: map_ext_def newEmptyRAMMerkleTree_def)
    from fullGetMerklePath_entry [OF t(2,3,4) a this t(7)] show ?thesis
      by (auto simp: GetLeaf_def root)
  qed
  then show ?thesis using t(1,7) root by auto
qed

text \<open>C18. \<^verbatim>\<open>Append\<close> returns on every reachable tree and is the same as building the tree anew: the
  result is again reachable and its root is the reference root of the old leaves followed by the
  new ones, so the climb to the node to replace and the recomputed ancestors are right for every
  size.\<close>

theorem fullAppend_correct:
  assumes "full_tree H t xs" "ys \<noteq> []" "length xs + length ys < 2 ^ 63" "fresh_appends H xs ys"
  shows "\<exists>t'. fullAppend H ys t = Some (Inr t') \<and> full_tree H t' (xs @ ys) \<and>
     Size t' = of_nat (length xs + length ys) \<and> MerkleRoot t' = Some (mth H (xs @ ys))"
proof -
  obtain t' where t': "fullAppend H ys t = Some (Inr t')" "full_inv H t' (xs @ ys)"
    using fullAppend_inv [OF full_tree_inv [OF assms(1)]] assms by blast
  then have "full_tree H t' (xs @ ys)" using full_tree.appended assms by blast
  then show ?thesis using t' full_inv_root [OF t'(2)] assms(2) by (simp add: full_inv_def)
qed

text \<open>C19. \<^verbatim>\<open>UpdateLeaf\<close> returns on every reachable tree and replaces one leaf: the root becomes the
  reference root of the list with that leaf replaced.\<close>

theorem fullUpdateLeaf_correct:
  assumes "full_tree H t xs" "i < length xs" "distinct (subroots H xs @ chain H (xs[i := y]) i)"
  shows "\<exists>t'. fullUpdateLeaf H (xs ! i) y t = Some (Inr t') \<and> full_tree H t' (xs[i := y]) \<and>
     MerkleRoot t' = Some (mth H (xs[i := y]))"
proof -
  obtain t' where t': "fullUpdateLeaf H (xs ! i) y t = Some (Inr t')" "full_inv H t' (xs[i := y])"
    using fullUpdateLeaf_inv [OF full_tree_inv [OF assms(1)] assms(2,3)] by blast
  moreover have "full_tree H t' (xs[i := y])" using full_tree.updated assms t'(1) by blast
  ultimately show ?thesis using full_inv_root [OF t'(2)] assms(2) by auto
qed

text \<open>C23. Queries of a reachable tree. \<^verbatim>\<open>HasNode\<close> knows exactly the hashes of the reference tree;
  for each of them \<^verbatim>\<open>GetMerklePath\<close> returns a path that starts with it and that \<^verbatim>\<open>Verify\<close> accepts against
  the root, and for any other hash it returns the not-found error.\<close>

theorem full_tree_queries:
  assumes "full_tree H t xs" "xs \<noteq> []"
  shows "(HasNode h t \<longleftrightarrow> h \<in> set (subroots H xs)) \<and>
     (if HasNode h t
      then \<exists>p. fullGetMerklePath H h t = Some (Inr p) \<and> GetLeaf p = Some h \<and> path_Verify H p (mth H xs) = Inr ()
      else fullGetMerklePath H h t = Some (Inl (ErrHashNotFound h)))"
proof -
  obtain s where s: "core H t s xs" "MerkleRoot t = Some (rhash s)"
    using full_inv_core [OF full_tree_inv [OF assms(1)] assms(2)] by blast
  have has: "HasNode h t \<longleftrightarrow> h \<in> set (subroots H xs)" using core_nodeMap_iff [OF s(1)] by (simp add: HasNode_def)
  moreover have "fullGetMerklePath H h t = Some (Inl (ErrHashNotFound h))" if "\<not> HasNode h t"
    using that by (simp add: HasNode_def fullGetMerklePath_def)
  ultimately show ?thesis using core_path [OF s, of h] core_hashes [OF s(1)] by simp
qed

text \<open>C24. Completeness of the last-node check: the path that \<^verbatim>\<open>GetLastNodeMerklePath\<close> returns for a
  reachable tree passes \<^verbatim>\<open>VerifyLastNodeMerklePath\<close> with the root and size of the tree, and its leaf is the last one.\<close>

theorem GetLastNodeMerklePath_accepted:
  assumes "full_tree H t xs" "xs \<noteq> []"
  shows "\<exists>p root. GetLastNodeMerklePath t = Some (Inr p) \<and> GetLeaf p = Some (last xs) \<and> MerkleRoot t = Some root \<and>
     VerifyLastNodeMerklePath H root (Size t) p = Inr ()"
proof -
  have inv: "full_inv H t xs" using full_tree_inv [OF assms(1)] .
  then obtain s where s: "core H t s xs" "MerkleRoot t = Some (rhash s)" "lastNodeHash t = Some (last xs)"
    using full_inv_core assms(2) by blast
  moreover have "Size t = of_nat (length xs)" "length xs < 2 ^ 63" using inv by (auto simp: full_inv_def)
  ultimately show ?thesis
    using core_last_path [OF s(1,3)] VerifyLast_complete [OF assms(2)] core_root [OF s(1)]
    by (auto simp: lastMerklePath_def GetLeaf_def)
qed

text \<open>C22. Soundness of the last-node check: where the hash has no collision among the messages hashed,
  a path that \<^verbatim>\<open>VerifyLastNodeMerklePath\<close> accepts for the root and the number of the leaves \<open>xs\<close> is the path
  of the last leaf. A miner can thus not be made to append behind a leaf that is not the last.\<close>

theorem VerifyLastNodeMerklePath_sound:
  assumes "VerifyLastNodeMerklePath H (mth H xs) (of_nat (length xs)) p = Inr ()"
    and "xs \<noteq> []" "length xs < 2 ^ 63" "wf_hashes (Hashes p)" "wf_hashes (Hashes (lastMerklePath H xs))"
    and "\<And>m. length (H m) = HashSize"
    and "inj_on H (verify_inputs H p \<union> verify_inputs H (lastMerklePath H xs))"
  shows "Hashes p = Hashes (lastMerklePath H xs) \<and> GetLeaf p = Some (last xs)"
proof -
  have p: "path_Verify H p (mth H xs) = Inr ()" "sides p = replicate (pc (length xs - 1)) True"
    using VerifyLast_sides [OF assms(1)] assms(2,3) by auto
  have "sides (lastMerklePath H xs) = replicate (pc (length xs - 1)) True"
    using length_last_path [of H xs] by (simp add: sides_def lastMerklePath_def)
  with p have "sides p = sides (lastMerklePath H xs)" by simp
  from path_binding [OF p(1) lastMerklePath_Verify [OF assms(2)] this assms(4,5,6,7)]
  show ?thesis by (simp add: GetLeaf_def lastMerklePath_def)
qed

section \<open>Witnesses\<close>

text \<open>Concrete runs with the identity as hash, which has no collision, over three one-byte leaves.\<close>

lemma id_tree: "\<exists>t. full_tree (\<lambda>m. m) t [[1], [2], [3]]"
proof -
  have "distinct (subroots (\<lambda>m. m) [[1], [2], [3]])" by code_simp
  then show ?thesis using NewFullMerkleTree_inv [of "[[1], [2], [3]]" "\<lambda>m. m"] full_tree.created by fastforce
qed

theorem full_tree_root_witness:
  "\<exists>t. full_tree (\<lambda>m. m) t [[1], [2], [3]] \<and> MerkleRoot t = Some (mth (\<lambda>m. m) [[1], [2], [3]])"
  using id_tree full_tree_root [of "\<lambda>m. m" _ "[[1], [2], [3]]"] by blast

theorem NewFullMerkleTree_correct_witness:
  "\<exists>t. NewFullMerkleTree (\<lambda>m. m) [[1], [1], [2]] = Some t \<and> MerkleRoot t = Some (mth (\<lambda>m. m) [[1], [1], [2]])"
  using NewFullMerkleTree_correct [of "[[1], [1], [2]]" "\<lambda>m. m"] by auto

theorem fullAppend_correct_witness:
  "\<exists>t t'. full_tree (\<lambda>m. m) t [[1], [2], [3]] \<and> fullAppend (\<lambda>m. m) [[4], [5]] t = Some (Inr t') \<and>
     MerkleRoot t' = Some (mth (\<lambda>m. m) [[1], [2], [3], [4], [5]])"
proof -
  have "fresh_appends (\<lambda>m. m) [[1], [2], [3]] [[4], [5]]" by code_simp
  then show ?thesis using id_tree fullAppend_correct [of "\<lambda>m. m" _ "[[1], [2], [3]]" "[[4], [5]]"] by fastforce
qed

theorem fullUpdateLeaf_correct_witness:
  "\<exists>t t'. full_tree (\<lambda>m. m) t [[1], [2], [3]] \<and> fullUpdateLeaf (\<lambda>m. m) [2] [9] t = Some (Inr t') \<and>
     MerkleRoot t' = Some (mth (\<lambda>m. m) [[1], [9], [3]])"
proof -
  have "distinct (subroots (\<lambda>m. m) [[1], [2], [3]] @ chain (\<lambda>m. m) ([[1], [2], [3]][1 := [9]]) 1)" by code_simp
  then show ?thesis using id_tree fullUpdateLeaf_correct [of "\<lambda>m. m" _ "[[1], [2], [3]]" 1 "[9]"] by fastforce
qed

theorem full_tree_queries_witness:
  "\<exists>t p. full_tree (\<lambda>m. m) t [[1], [2], [3]] \<and> HasNode [2] t \<and> fullGetMerklePath (\<lambda>m. m) [2] t = Some (Inr p) \<and>
     fullGetMerklePath (\<lambda>m. m) [7] t = Some (Inl (ErrHashNotFound [7]))"
proof -
  obtain t where t: "full_tree (\<lambda>m. m) t [[1], [2], [3]]" using id_tree by blast
  have "[2] \<in> set (subroots (\<lambda>m. m) [[1], [2], [3]])" "[7] \<notin> set (subroots (\<lambda>m. m) [[1], [2], [3]])"
    by code_simp+
  then show ?thesis using t full_tree_queries [OF t, of "[2]"] full_tree_queries [OF t, of "[7]"] by fastforce
qed

theorem GetLastNodeMerklePath_accepted_witness:
  "\<exists>t p root. full_tree (\<lambda>m. m) t [[1], [2], [3]] \<and> GetLastNodeMerklePath t = Some (Inr p) \<and>
     MerkleRoot t = Some root \<and> VerifyLastNodeMerklePath (\<lambda>m. m) root (Size t) p = Inr ()"
  using id_tree GetLastNodeMerklePath_accepted [of "\<lambda>m. m" _ "[[1], [2], [3]]"] by blast

text \<open>A hash with values of \<^const>\<open>HashSize\<close> bytes: the right child's hash of a hashed pair.\<close>

definition toy_hash :: hash_fun where
  "toy_hash m = take 32 (drop 96 m @ replicate 32 0)"

definition toy_leaves :: "MerkleHash list" where
  "toy_leaves = [replicate 32 1, replicate 32 2, replicate 32 3, replicate 32 4]"

theorem VerifyLastNodeMerklePath_sound_witness:
  "VerifyLastNodeMerklePath toy_hash (mth toy_hash toy_leaves) 4 (lastMerklePath toy_hash toy_leaves) = Inr () \<and>
   GetLeaf (lastMerklePath toy_hash toy_leaves) = Some (replicate 32 4)"
proof -
  let ?p = "lastMerklePath toy_hash toy_leaves"
  have v: "VerifyLastNodeMerklePath toy_hash (mth toy_hash toy_leaves) (of_nat (length toy_leaves)) ?p = Inr ()"
    by code_simp
  have "distinct (map toy_hash (path_inputs toy_hash (hd (Hashes ?p)) (tl (Hashes ?p)) (ProofPath ?p)))" by code_simp
  then have inj: "inj_on toy_hash (verify_inputs toy_hash ?p \<union> verify_inputs toy_hash ?p)"
    by (simp add: verify_inputs_def distinct_map)
  have wf: "wf_hashes (Hashes ?p)" by code_simp
  have "Hashes ?p = Hashes ?p \<and> GetLeaf ?p = Some (last toy_leaves)"
    by (rule VerifyLastNodeMerklePath_sound [OF v _ _ wf wf _ inj]) (simp_all add: toy_leaves_def toy_hash_def HashSize_def)
  then show ?thesis using v by (simp add: toy_leaves_def)
qed

end
