(* ===== verification/DeltaMerkleTree.thy ===== *)
theory DeltaMerkleTree
  imports FullMerkleTree
begin

text \<open>
  \<^verbatim>\<open>delta_merkle_tree.go\<close>: the partial tree of a miner, built from the Merkle paths of the leaves it
  changes. Its node map stays keyed by the hashes of the old tree while the nodes carry the new ones
  (no listener is registered), so that a path of the old tree still finds its nodes.
\<close>

section \<open>Definitions\<close>

definition NewDeltaMerkleTree :: "MerkleHash \<Rightarrow> MerkleTree" where
  "NewDeltaMerkleTree merkleRoot =
     newEmptyRAMMerkleTree\<lparr>MerkleRoot := Some merkleRoot, Size := UnknownSize\<rparr>"

definition getOrCreateNode :: "MerkleHash \<Rightarrow> MerkleTree \<Rightarrow> addr \<times> bool \<times> MerkleTree" where
  "getOrCreateNode h t =
     (case nodeMap t h of Some node \<Rightarrow> (node, True, t)
      | None \<Rightarrow>
          (let (node, t) = newNode t; t = setHash node h t; t = mapSet h node t in (node, False, t)))"

text \<open>The pointers set in one turn of the loop of \<^verbatim>\<open>buildPartialTreeForOldMerklePath\<close>.\<close>

definition linkNodes :: "addr \<Rightarrow> addr \<Rightarrow> addr \<Rightarrow> byte \<Rightarrow> MerkleTree \<Rightarrow> MerkleTree" where
  "linkNodes curNode siblingNode parentNode siblingPos t =
     (let t = setParent curNode (Some parentNode) t;
          t = setParent siblingNode (Some parentNode) t
      in if siblingPos = Left
         then setRightChild parentNode (Some curNode) (setLeftChild parentNode (Some siblingNode) t)
         else setRightChild parentNode (Some siblingNode) (setLeftChild parentNode (Some curNode) t))"

text \<open>The loop over \<^verbatim>\<open>merklePath.ProofPath\<close>, with the sibling hashes \<^verbatim>\<open>Hashes[index+1]\<close> beside it.\<close>

fun buildLoop :: "hash_fun \<Rightarrow> MerkleHash \<Rightarrow> addr \<Rightarrow> MerkleHash list \<Rightarrow> byte list \<Rightarrow> MerkleTree \<Rightarrow> MerkleTree option" where
  "buildLoop H h curNode hs [] t = Some t"
| "buildLoop H h curNode [] (siblingPos # path) t = None"
| "buildLoop H h curNode (siblingHash # hs) (siblingPos # path) t =
     (let (siblingNode, exists, t) = getOrCreateNode siblingHash t in
      if exists then Some t
      else
        (let parentHash = Hash H h siblingHash siblingPos;
             (parentNode, _, t) = getOrCreateNode parentHash t;
             t = linkNodes curNode siblingNode parentNode siblingPos t
         in buildLoop H parentHash parentNode hs path t))"

definition buildPartialTreeForOldMerklePath :: "hash_fun \<Rightarrow> MerklePath \<Rightarrow> MerkleTree \<Rightarrow> MerkleTree option" where
  "buildPartialTreeForOldMerklePath H p t =
     (case Hashes p of [] \<Rightarrow> None
      | h # hs \<Rightarrow>
          (let (curNode, exists, t) = getOrCreateNode h t in
           if exists then Some t else buildLoop H h curNode hs (ProofPath p) t))"

definition deltaUpdateLeaf ::
    "hash_fun \<Rightarrow> MerklePath \<Rightarrow> MerkleHash \<Rightarrow> MerkleTree \<Rightarrow> (merkle_error + MerkleTree) option" where
  "deltaUpdateLeaf H p newHash t =
     do {
       root \<leftarrow> MerkleRoot t;
       case path_Verify H p root of Inl err \<Rightarrow> Some (Inl err)
       | Inr _ \<Rightarrow>
           do {
             t \<leftarrow> buildPartialTreeForOldMerklePath H p t;
             h \<leftarrow> GetLeaf p;
             node \<leftarrow> nodeMap t h;
             t \<leftarrow> updateNode H node newHash t;
             Some (Inr t)
           }
     }"

definition GetMerkleRoot :: "MerkleTree \<Rightarrow> MerkleHash option" where
  "GetMerkleRoot t =
     do {
       root \<leftarrow> MerkleRoot t;
       case nodeMap t root of None \<Rightarrow> Some root
       | Some node \<Rightarrow> do { node \<leftarrow> climbRoot t node; getHash t node }
     }"

definition GetShardDataMerklePath ::
    "hash_fun \<Rightarrow> MerkleHash \<Rightarrow> MerkleHash \<Rightarrow> MerkleTree \<Rightarrow> (merkle_error + MerklePath) option" where
  "GetShardDataMerklePath H oldHash newHash t =
     (case nodeMap t oldHash of None \<Rightarrow> Some (Inl (ErrHashNotFound oldHash))
      | Some node \<Rightarrow>
          do {
            (proofHashes, proofPath) \<leftarrow> createMerkleProof t node;
            let path = \<lparr>Hashes = newHash # proofHashes, ProofPath = proofPath\<rparr>;
            root \<leftarrow> GetMerkleRoot t;
            case path_Verify H path root of Inl err \<Rightarrow> Some (Inl err) | Inr _ \<Rightarrow> Some (Inr path)
          })"

text \<open>The search of \<^verbatim>\<open>RefreshMerklePath\<close> up the old path: the hashes and sides copied so far, and the
  first node the tree knows. The sides are those of the old path at the same index.\<close>

fun refreshLoop ::
    "hash_fun \<Rightarrow> MerkleTree \<Rightarrow> MerkleHash \<Rightarrow> MerkleHash list \<Rightarrow> byte list \<Rightarrow> MerkleHash list \<Rightarrow> byte list \<Rightarrow>
     MerkleHash list \<times> byte list \<times> addr option" where
  "refreshLoop H t nodeHash (h # hs) (pos # ps) hl path =
     (let hl = hl @ [h]; path = path @ [pos];
          parentHash = Hash H nodeHash h pos
      in case nodeMap t parentHash of
           Some node \<Rightarrow> (hl, path, Some node)
         | None \<Rightarrow> refreshLoop H t parentHash hs ps hl path)"
| "refreshLoop H t nodeHash hs ps hl path = (hl, path, None)"

definition RefreshMerklePath ::
    "hash_fun \<Rightarrow> MerklePath \<Rightarrow> MerkleTree \<Rightarrow> (merkle_error + MerklePath) option" where
  "RefreshMerklePath H p t =
     do {
       root \<leftarrow> MerkleRoot t;
       case path_Verify H p root of Inl err \<Rightarrow> Some (Inl err)
       | Inr _ \<Rightarrow>
           do {
             leafHash \<leftarrow> GetLeaf p;
             let (hl, path, node) =
               (case nodeMap t leafHash of Some node \<Rightarrow> ([leafHash], [], Some node)
                | None \<Rightarrow> refreshLoop H t leafHash (tl (Hashes p)) (ProofPath p) [leafHash] []);
             case node of None \<Rightarrow> Some (Inr \<lparr>Hashes = hl, ProofPath = path\<rparr>)
             | Some node \<Rightarrow>
                 do {
                   (proofHashes, proofPath) \<leftarrow> createMerkleProof t node;
                   Some (Inr \<lparr>Hashes = hl @ proofHashes, ProofPath = path @ proofPath\<rparr>)
                 }
           }
     }"

definition SetSizeAndLastNodeMerklePath ::
    "hash_fun \<Rightarrow> int64 \<Rightarrow> MerklePath \<Rightarrow> MerkleTree \<Rightarrow> (merkle_error + MerkleTree) option" where
  "SetSizeAndLastNodeMerklePath H sz p t =
     (if Size t = UnknownSize then
        do {
          root \<leftarrow> MerkleRoot t;
          case VerifyLastNodeMerklePath H root sz p of Inl err \<Rightarrow> Some (Inl err)
          | Inr _ \<Rightarrow>
              do {
                t \<leftarrow> buildPartialTreeForOldMerklePath H p t;
                h \<leftarrow> GetLeaf p;
                Some (Inr (t\<lparr>lastNodeHash := Some h, Size := sz\<rparr>))
              }
        }
      else Some (Inl ErrSizeAlreadySet))"

definition deltaAppend ::
    "hash_fun \<Rightarrow> MerkleHash list \<Rightarrow> MerkleTree \<Rightarrow> (merkle_error + MerkleTree) option" where
  "deltaAppend H lvs t = merkleAppend H lvs t"

definition deltaGetMerklePath ::
    "hash_fun \<Rightarrow> MerkleHash \<Rightarrow> MerkleTree \<Rightarrow> (merkle_error + MerklePath) option" where
  "deltaGetMerklePath H h t =
     (case nodeMap t h of None \<Rightarrow> Some (Inl (ErrHashNotFound h))
      | Some node \<Rightarrow>
          do {
            (proofHashes, proofPath) \<leftarrow> createMerkleProof t node;
            let path = \<lparr>Hashes = h # proofHashes, ProofPath = proofPath\<rparr>;
            root \<leftarrow> MerkleRoot t;
            case path_Verify H path root of Inl err \<Rightarrow> Some (Inl err) | Inr _ \<Rightarrow> Some (Inr path)
          })"

section \<open>Partial trees\<close>

text \<open>\<open>part P O N\<close>: the heap tree \<open>P\<close> is the old tree \<open>O\<close> with some subtrees cut off to stubs, and carries
  the hashes of the new tree \<open>N\<close>; below a stub nothing has changed. \<open>okeys P O\<close> are the entries of
  the node map: the old hash of every node of \<open>P\<close>. \<open>cpart\<close> and \<open>ckeys\<close> say the same of contexts.\<close>

fun part :: "mtree \<Rightarrow> mtree \<Rightarrow> mtree \<Rightarrow> bool" where
  "part (Lf a h) O1 N1 = (h = rhash N1 \<and> (N1 = O1 \<or> (\<exists>b x y. O1 = Lf b x \<and> N1 = Lf b y)))"
| "part (Nd a h l r) (Nd b oh ol orr) (Nd b' nh nl nr) = (h = nh \<and> part l ol nl \<and> part r orr nr)"
| "part _ _ _ = False"

fun okeys :: "mtree \<Rightarrow> mtree \<Rightarrow> (MerkleHash \<times> addr) list" where
  "okeys (Nd a h l r) (Nd b oh ol orr) = (oh, a) # okeys l ol @ okeys r orr"
| "okeys p q = [(rhash q, raddr p)]"

fun cpart :: "frame list \<Rightarrow> frame list \<Rightarrow> frame list \<Rightarrow> bool" where
  "cpart [] [] [] = True"
| "cpart ((b, a, h, s) # c) ((ob, oa, oh, os) # oc) ((nb, na, nh, ns) # nc) =
     (b = ob \<and> b = nb \<and> h = nh \<and> part s os ns \<and> cpart c oc nc)"
| "cpart _ _ _ = False"

fun ckeys :: "frame list \<Rightarrow> frame list \<Rightarrow> (MerkleHash \<times> addr) list" where
  "ckeys ((b, a, h, s) # c) ((ob, oa, oh, os) # oc) = (oh, a) # okeys s os @ ckeys c oc"
| "ckeys _ _ = []"

text \<open>Old and new tree have the same shape and the same (unused) addresses.\<close>

fun cshape :: "frame list \<Rightarrow> frame list \<Rightarrow> bool" where
  "cshape [] [] = True"
| "cshape ((b, a, h, s) # c) ((b', a', h', s') # c') = (b = b' \<and> cshape c c')"
| "cshape _ _ = False"

abbreviation cpath :: "frame list \<Rightarrow> (MerkleHash \<times> byte) list" where
  "cpath c \<equiv> map (\<lambda>(b, a, h, s). (rhash s, if b then Right else Left)) c"

lemma part_rhash: "part P Q R \<Longrightarrow> rhash P = rhash R"
  by (cases "(P, Q, R)" rule: part.cases) auto

lemma part_plug: "cpart qc oc nc \<Longrightarrow> part s so sn \<Longrightarrow> part (plug qc s) (plug oc so) (plug nc sn)"
  by (induction qc oc nc arbitrary: s so sn rule: cpart.induct) auto

lemma set_okeys_plug:
  "cpart qc oc nc \<Longrightarrow> part s so sn \<Longrightarrow> set (okeys (plug qc s) (plug oc so)) = set (ckeys qc oc) \<union> set (okeys s so)"
proof (induction qc oc nc arbitrary: s so sn rule: cpart.induct)
  case (2 b a h s c ob oa oh os oc nb na nh ns nc u uo un)
  let ?w = "wrap (b, a, h, s) u" let ?wo = "wrap (ob, oa, oh, os) uo" let ?wn = "wrap (nb, na, nh, ns) un"
  have "part ?w ?wo ?wn" using "2.prems" by auto
  then have "set (okeys (plug c ?w) (plug oc ?wo)) = set (ckeys c oc) \<union> set (okeys ?w ?wo)"
    by (rule "2.IH" [rotated]) (use "2.prems"(1) in simp)
  then show ?case using "2.prems" by (cases b) auto
qed auto

lemma okeys_sub: "part P Q R \<Longrightarrow> fst ` set (okeys P Q) \<subseteq> set (hashes Q)"
proof (induction P Q R rule: part.induct)
  case (2 a h l r b oh ol orr b' nh nl nr)
  then show ?case by (auto simp: image_Un)
qed auto

lemma okeys_root: "part P Q R \<Longrightarrow> (rhash Q, raddr P) \<in> set (okeys P Q)"
  by (cases "(P, Q, R)" rule: part.cases) auto

lemma okeys_addr: "part P Q R \<Longrightarrow> snd ` set (okeys P Q) = set (addrs P)"
proof (induction P Q R rule: part.induct)
  case (2 a h l r b oh ol orr b' nh nl nr)
  then show ?case by (auto simp: image_Un)
qed auto

lemma ckeys_sub: "cpart qc oc nc \<Longrightarrow> fst ` set (ckeys qc oc) \<subseteq> fst ` set (centries oc)"
proof (induction qc oc nc rule: cpart.induct)
  case (2 b a h s c ob oa oh os oc nb na nh ns nc)
  then have "fst ` set (okeys s os) \<subseteq> set (hashes os)" using okeys_sub [of s os ns] by simp
  then show ?case using 2 by (auto simp: image_Un)
qed auto

text \<open>Following a context from the root: the hole is in the partial tree, or the way ends in a stub.\<close>

lemma part_descend:
  assumes "part P (plug oc so) (plug nc sn)" "cshape oc nc"
  shows "(\<exists>qc s. P = plug qc s \<and> cpart qc oc nc \<and> part s so sn) \<or>
         (\<exists>oc1 oc2 nc2 qc a h. oc = oc1 @ oc2 \<and> nc = oc1 @ nc2 \<and> oc1 \<noteq> [] \<and> sn = so \<and>
            P = plug qc (Lf a h) \<and> cpart qc oc2 nc2 \<and> h = rhash (plug oc1 so))"
  using assms
proof (induction oc nc arbitrary: P so sn rule: cshape.induct)
  case 1
  then show ?case by (intro disjI1 exI [of _ "[]"] exI [of _ P]) simp
next
  case (2 b a h s c b' a' h' s' c')
  let ?wo = "wrap (b, a, h, s) so" let ?wn = "wrap (b', a', h', s') sn"
  have b: "b' = b" using "2.prems" by simp
  consider qc u where "P = plug qc u" "cpart qc c c'" "part u ?wo ?wn"
    | oc1 oc2 nc2 qc x k where "c = oc1 @ oc2" "c' = oc1 @ nc2" "oc1 \<noteq> []" "?wn = ?wo"
        "P = plug qc (Lf x k)" "cpart qc oc2 nc2" "k = rhash (plug oc1 ?wo)"
    using "2.IH" [of P ?wo ?wn] "2.prems" by force
  then show ?case
  proof cases
    case 1
    show ?thesis
    proof (cases u)
      case (Lf x k)
      then have "?wn = ?wo" "k = h" using 1(3) b by (auto split: if_splits)
      then have "sn = so" "(b', a', h', s') = (b, a, h, s)" using b by (auto split: if_splits)
      then show ?thesis using 1 Lf \<open>k = h\<close>
        by (intro disjI2 exI [of _ "[(b, a, h, s)]"] exI [of _ c] exI [of _ c'] exI [of _ qc] exI [of _ x] exI [of _ k]) auto
    next
      case (Nd x k l r)
      then have "part (if b then l else r) so sn" "part (if b then r else l) s s'" "k = h'"
        using 1(3) b by (auto split: if_splits)
      then show ?thesis using 1 Nd b
        by (intro disjI1 exI [of _ "(b, x, k, if b then r else l) # qc"] exI [of _ "if b then l else r"]) auto
    qed
  next
    case 2
    then have "sn = so" "(b', a', h', s') = (b, a, h, s)" using b by (auto split: if_splits)
    then show ?thesis using 2
      by (intro disjI2 exI [of _ "(b, a, h, s) # oc1"] exI [of _ oc2] exI [of _ nc2] exI [of _ qc] exI [of _ x] exI [of _ k]) auto
  qed
qed auto

section \<open>Linking nodes\<close>

lemma linkNodes_eq:
  assumes "cur \<noteq> sib" "par \<noteq> cur" "par \<noteq> sib"
  shows "linkNodes cur sib par pos t = t\<lparr>store := (store t)
     (cur := map_option (\<lambda>n. n\<lparr>parent := Some par\<rparr>) (store t cur),
      sib := map_option (\<lambda>n. n\<lparr>parent := Some par\<rparr>) (store t sib),
      par := map_option (\<lambda>n. n\<lparr>leftChild := Some (if pos = Left then sib else cur),
                              rightChild := Some (if pos = Left then cur else sib)\<rparr>) (store t par))\<rparr>"
  using assms by (cases "store t par") (auto simp: linkNodes_def Let_def node_set)

lemma linkNodes_rep:
  assumes s: "rep (store t) p0 s" and u: "rep (store t) q0 u" and d: "distinct (addrs s @ addrs u)"
    and par: "store t par = Some \<lparr>parent = pp, leftChild = lc, rightChild = rc, hash = Some ph\<rparr>"
    and nin: "par \<notin> set (addrs s)" "par \<notin> set (addrs u)"
  shows "rep (store (linkNodes (raddr s) (raddr u) par pos t)) pp (wrap (pos \<noteq> Left, par, ph, u) s)"
proof -
  let ?st = "store (linkNodes (raddr s) (raddr u) par pos t)"
  have ne: "raddr s \<noteq> raddr u" "par \<noteq> raddr s" "par \<noteq> raddr u"
    using d nin raddr_disjoint raddr_in by (auto simp del: raddr_in)
  note st = linkNodes_eq [OF ne, of pos t]
  have "rep ?st (Some par) s"
  proof -
    have "raddr u \<notin> set (addrs s)" using d by (metis disjoint_iff distinct_append raddr_in)
    then have "rep ?st (Some par) s = rep ((store t)(raddr s := map_option (\<lambda>n. n\<lparr>parent := Some par\<rparr>) (store t (raddr s)))) (Some par) s"
      using nin by (intro rep_cong) (auto simp: st)
    then show ?thesis using rep_setParent [OF s] d by simp
  qed
  moreover have "rep ?st (Some par) u"
  proof -
    have "raddr s \<notin> set (addrs u)" using d by (metis disjoint_iff distinct_append raddr_in)
    then have "rep ?st (Some par) u = rep ((store t)(raddr u := map_option (\<lambda>n. n\<lparr>parent := Some par\<rparr>) (store t (raddr u)))) (Some par) u"
      using nin by (intro rep_cong) (auto simp: st)
    then show ?thesis using rep_setParent [OF u] d by simp
  qed
  ultimately show ?thesis using par ne by (auto simp: st)
qed

section \<open>Building the nodes of a path\<close>

lemma getOrCreate_new:
  "nodeMap t h = None \<Longrightarrow> getOrCreateNode h t = (cursor t, False, snd (createNode h t))"
  by (simp add: getOrCreateNode_def createNode_def Let_def)

lemma getOrCreate_old: "nodeMap t h = Some a \<Longrightarrow> getOrCreateNode h t = (a, True, t)"
  by (simp add: getOrCreateNode_def)

lemma graph_None: "nodeMap t h = None \<longleftrightarrow> h \<notin> fst ` Map.graph (nodeMap t)"
  by (simp add: fst_graph_eq_dom domIff)

lemma distinct_hashes_plugD:
  assumes "distinct (hashes (plug c s))"
  shows "distinct (hashes s)" "fst ` set (centries c) \<inter> set (hashes s) = {}"
proof -
  have "mset (hashes (plug c s)) = mset (map fst (centries c) @ hashes s)" by (simp add: mset_hashes_plug)
  then have "distinct (map fst (centries c) @ hashes s)" using assms mset_eq_imp_distinct_iff by blast
  then show "distinct (hashes s)" "fst ` set (centries c) \<inter> set (hashes s) = {}" by simp_all
qed

lemma set_hashes_plug: "set (hashes (plug c s)) = fst ` set (centries c) \<union> set (hashes s)"
proof -
  have "mset (hashes (plug c s)) = mset (map fst (centries c) @ hashes s)" by (simp add: mset_hashes_plug)
  from mset_eq_setD [OF this] show ?thesis by simp
qed

abbreviation side :: "bool \<Rightarrow> byte" where
  "side b \<equiv> (if b then Right else Left)"

lemma frame_hash:
  assumes "hash_ok H (plug ((b, a, oh, os) # c) so)"
  shows "Hash H (rhash so) (rhash os) (side b) = oh"
  using hash_ok_plugD [of H c "wrap (b, a, oh, os) so"] assms by (auto simp: Hash_swap split: if_splits)

text \<open>One turn of the loop with a new parent: \<open>s\<close> and a new stub under a new node.\<close>

lemma build_turn_new:
  assumes rep: "rep (store t) None s" "distinct (addrs s)" "\<forall>x \<in> set (addrs s). x < cursor t"
    and ps: "part s so so" and w: "hash_ok H (wrap (b, a, oh, os) so)" "distinct (hashes (wrap (b, a, oh, os) so))"
    and g: "Map.graph (nodeMap t) = X \<union> set (okeys s so)"
    and X: "fst ` X \<inter> set (hashes (wrap (b, a, oh, os) so)) = {}"
  shows "\<exists>t' f'. buildLoop H (rhash so) (raddr s) (rhash os # hs) (side b # path) t =
           buildLoop H oh (raddr (wrap f' s)) hs path t' \<and>
           rep (store t') None (wrap f' s) \<and> distinct (addrs (wrap f' s)) \<and>
           (\<forall>x \<in> set (addrs (wrap f' s)). x < cursor t' \<and> (x \<in> set (addrs s) \<or> cursor t \<le> x)) \<and> cpart [f'] [(b, a, oh, os)] [(b, a, oh, os)] \<and>
           Map.graph (nodeMap t') = X \<union> set (okeys (wrap f' s) (wrap (b, a, oh, os) so)) \<and> cursor t \<le> cursor t' \<and>
           (\<forall>x < cursor t. x \<notin> set (addrs s) \<longrightarrow> store t' x = store t x) \<and> same_info t t'"
proof -
  let ?sib = "cursor t" let ?par = "Suc ?sib" let ?f = "(b, ?par, oh, Lf ?sib (rhash os))"
  define t1 where "t1 = snd (createNode (rhash os) t)"
  define t2 where "t2 = snd (createNode oh t1)"
  define t3 where "t3 = linkNodes (raddr s) ?sib ?par (side b) t2"
  have keys: "rhash os \<notin> fst ` X" "oh \<notin> fst ` X" "rhash os \<notin> set (hashes so)" "oh \<notin> set (hashes so)" "oh \<noteq> rhash os"
    using X w(2) rhash_in [of os] by (auto split: if_splits simp del: rhash_in)
  then have n: "rhash os \<notin> fst ` Map.graph (nodeMap t)" "oh \<notin> fst ` Map.graph (nodeMap t)"
    using okeys_sub [OF ps] by (auto simp: g image_Un)
  have t1: "nodeMap t1 = (nodeMap t)(rhash os \<mapsto> ?sib)" "cursor t1 = ?par"
    "store t1 = (store t)(?sib \<mapsto> \<lparr>parent = None, leftChild = None, rightChild = None, hash = Some (rhash os)\<rparr>)"
    by (simp_all add: t1_def createNode_eq)
  have t2: "nodeMap t2 = (nodeMap t)(rhash os \<mapsto> ?sib, oh \<mapsto> ?par)" "cursor t2 = Suc ?par"
    "store t2 = (store t)(?sib \<mapsto> \<lparr>parent = None, leftChild = None, rightChild = None, hash = Some (rhash os)\<rparr>,
       ?par \<mapsto> \<lparr>parent = None, leftChild = None, rightChild = None, hash = Some oh\<rparr>)"
    using t1 by (simp_all add: t2_def createNode_eq)
  have "nodeMap t (rhash os) = None" "nodeMap t1 oh = None"
    using n keys(5) graph_None [of t] by (auto simp: t1(1))
  moreover have "Hash H (rhash so) (rhash os) (side b) = oh"
    using w(1) by (auto simp: Hash_swap split: if_splits)
  ultimately have b: "buildLoop H (rhash so) (raddr s) (rhash os # hs) (side b # path) t = buildLoop H oh ?par hs path t3"
    by (simp add: getOrCreate_new t1_def [symmetric] t1(2) t2_def [symmetric] t3_def del: if_split)
  have lt: "raddr s < ?sib" using rep(3) by simp
  have nin: "?sib \<notin> set (addrs s)" "?par \<notin> set (addrs s)" using rep(3) by auto
  have "rep (store t2) None s" using rep(1) nin by (subst rep_cong [of _ _ "store t"]) (auto simp: t2(3))
  then have rep3: "rep (store t3) None (wrap ?f s)"
    using linkNodes_rep [of t2 None s None "Lf ?sib (rhash os)" ?par None None None oh "side b"] rep(2) nin t2(3)
    by (auto simp: t3_def)
  have eq3: "t3 = t2\<lparr>store := store t3\<rparr>" "\<And>x. x < ?sib \<Longrightarrow> x \<noteq> raddr s \<Longrightarrow> store t3 x = store t x"
    using linkNodes_eq [of "raddr s" ?sib ?par "side b" t2] lt by (simp_all add: t3_def t2(3))
  have nm3: "nodeMap t3 = nodeMap t2" "cursor t3 = cursor t2" by (subst eq3(1), simp)+
  have "Map.graph (nodeMap t2) = insert (oh, ?par) (insert (rhash os, ?sib) (Map.graph (nodeMap t)))"
    using n keys(5) graph_fresh [of "rhash os" "nodeMap t" ?sib] graph_fresh [of oh "(nodeMap t)(rhash os \<mapsto> ?sib)" ?par]
    by (simp add: t2(1))
  then have g3: "Map.graph (nodeMap t3) = X \<union> set (okeys (wrap ?f s) (wrap (b, a, oh, os) so))"
    by (auto simp: nm3 g)
  have "same_info t t2" by (simp add: same_info_def t2_def t1_def createNode_eq)
  then have si: "same_info t t3" by (subst eq3(1)) (simp add: same_info_def)
  have d3: "distinct (addrs (wrap ?f s))" and l3: "\<forall>x \<in> set (addrs (wrap ?f s)). x < cursor t3 \<and> (x \<in> set (addrs s) \<or> cursor t \<le> x)" and c3: "cpart [?f] [(b, a, oh, os)] [(b, a, oh, os)]"
    using rep(2,3) nin nm3(2) t2(2) by (auto simp: less_Suc_eq)
  have k3: "\<forall>x < cursor t. x \<notin> set (addrs s) \<longrightarrow> store t3 x = store t x"
    using eq3(2) raddr_in by metis
  have "cursor t \<le> cursor t3" "raddr (wrap ?f s) = ?par" using nm3(2) t2(2) by simp_all
  then show ?thesis using b rep3 d3 l3 c3 g3 k3 si
    by (intro exI [of _ t3] exI [of _ ?f] conjI) (simp_all only:)
qed

lemma buildLoop_new:
  assumes "rep (store t) None s" "distinct (addrs s)" "\<forall>x \<in> set (addrs s). x < cursor t"
    "part s so so" "hash_ok H (plug oc so)" "distinct (hashes (plug oc so))"
    "Map.graph (nodeMap t) = X \<union> set (okeys s so)" "fst ` X \<inter> set (hashes (plug oc so)) = {}"
  shows "\<exists>t' qc. buildLoop H (rhash so) (raddr s) (map fst (cpath oc) @ hs) (map snd (cpath oc) @ path) t =
           buildLoop H (rhash (plug oc so)) (raddr (plug qc s)) hs path t' \<and>
           rep (store t') None (plug qc s) \<and> distinct (addrs (plug qc s)) \<and>
           (\<forall>x \<in> set (addrs (plug qc s)). x < cursor t' \<and> (x \<in> set (addrs s) \<or> cursor t \<le> x)) \<and> cpart qc oc oc \<and>
           Map.graph (nodeMap t') = X \<union> set (okeys (plug qc s) (plug oc so)) \<and> cursor t \<le> cursor t' \<and>
           (\<forall>x < cursor t. x \<notin> set (addrs s) \<longrightarrow> store t' x = store t x) \<and> same_info t t'"
  using assms
proof (induction oc arbitrary: s so t)
  case Nil
  then show ?case by (intro exI [of _ t] exI [of _ "[]"]) (simp add: same_info_def)
next
  case (Cons f oc)
  obtain b a oh os where f: "f = (b, a, oh, os)" by (cases f) auto
  let ?w = "wrap f so"
  have w: "hash_ok H ?w" "distinct (hashes ?w)" "rhash ?w = oh" "fst ` X \<inter> set (hashes ?w) = {}"
    using hash_ok_plugD [of H oc ?w] distinct_hashes_plugD(1) [of oc ?w] Cons.prems(5,6,8) set_hashes_plug [of oc ?w]
    by (auto simp: f)
  obtain t1 f' where t1: "buildLoop H (rhash so) (raddr s) (rhash os # map fst (cpath oc) @ hs) (side b # map snd (cpath oc) @ path) t =
        buildLoop H oh (raddr (wrap f' s)) (map fst (cpath oc) @ hs) (map snd (cpath oc) @ path) t1"
      "rep (store t1) None (wrap f' s)" "distinct (addrs (wrap f' s))" "\<forall>x \<in> set (addrs (wrap f' s)). x < cursor t1 \<and> (x \<in> set (addrs s) \<or> cursor t \<le> x)"
      "cpart [f'] [f] [f]" "Map.graph (nodeMap t1) = X \<union> set (okeys (wrap f' s) ?w)" "cursor t \<le> cursor t1"
      "\<forall>x < cursor t. x \<notin> set (addrs s) \<longrightarrow> store t1 x = store t x" "same_info t t1"
    using build_turn_new [OF Cons.prems(1-4) w(1,2) [unfolded f] Cons.prems(7) w(4) [unfolded f],
        of "map fst (cpath oc) @ hs" "map snd (cpath oc) @ path"]
    by (auto simp only: f)
  have pw: "part (wrap f' s) ?w ?w" using part_plug [OF t1(5) Cons.prems(4)] by simp
  from Cons.IH [OF t1(2,3) _ pw _ _ t1(6)] t1(4) Cons.prems(5,6,8)
  obtain t' qc where t': "buildLoop H (rhash ?w) (raddr (wrap f' s)) (map fst (cpath oc) @ hs) (map snd (cpath oc) @ path) t1 =
        buildLoop H (rhash (plug oc ?w)) (raddr (plug qc (wrap f' s))) hs path t'"
      "rep (store t') None (plug qc (wrap f' s))" "distinct (addrs (plug qc (wrap f' s)))"
      "\<forall>x \<in> set (addrs (plug qc (wrap f' s))). x < cursor t' \<and> (x \<in> set (addrs (wrap f' s)) \<or> cursor t1 \<le> x)" "cpart qc oc oc"
      "Map.graph (nodeMap t') = X \<union> set (okeys (plug qc (wrap f' s)) (plug oc ?w))" "cursor t1 \<le> cursor t'"
      "\<forall>x < cursor t1. x \<notin> set (addrs (wrap f' s)) \<longrightarrow> store t' x = store t1 x" "same_info t1 t'"
    by auto
  have new: "x \<notin> set (addrs (wrap f' s))" if "x < cursor t" "x \<notin> set (addrs s)" for x
    using that t1(4) by (meson leD)
  have l': "\<forall>x \<in> set (addrs (plug qc (wrap f' s))). x < cursor t' \<and> (x \<in> set (addrs s) \<or> cursor t \<le> x)"
    using t'(4) t1(4,7) by (meson le_trans)
  show ?case
    by (rule exI [of _ t'], rule exI [of _ "f' # qc"])
      (use t' t1 new l' same_info_trans [OF t1(9) t'(9)] in \<open>cases f', auto simp: f w(3)\<close>)
qed

text \<open>The turn that reaches a node the tree has as a stub: \<open>s\<close> and a new stub become its children.\<close>

lemma build_turn_stub:
  assumes rep: "rep (store t) None s" "rep (store t) None (plug qc (Lf a oh))"
      "distinct (addrs s @ addrs (plug qc (Lf a oh)))" "\<forall>x \<in> set (addrs s) \<union> set (addrs (plug qc (Lf a oh))). x < cursor t"
    and ps: "part s so so" and w: "hash_ok H (wrap (b, oa, oh, os) so)" "distinct (hashes (wrap (b, oa, oh, os) so))"
    and g: "Map.graph (nodeMap t) = K \<union> {(oh, a)} \<union> set (okeys s so)"
    and K: "fst ` K \<inter> set (hashes (wrap (b, oa, oh, os) so)) = {}"
  defines "f' \<equiv> (b, a, oh, Lf (cursor t) (rhash os))"
  shows "\<exists>t'. buildLoop H (rhash so) (raddr s) (rhash os # hs) (side b # path) t = buildLoop H oh a hs path t' \<and>
           rep (store t') None (plug qc (wrap f' s)) \<and> distinct (addrs (plug qc (wrap f' s))) \<and>
           fresh_heap t' (plug qc (wrap f' s)) \<and>
           Map.graph (nodeMap t') = K \<union> set (okeys (wrap f' s) (wrap (b, oa, oh, os) so)) \<and> same_info t t'"
proof -
  let ?sib = "cursor t" let ?P = "plug qc (Lf a oh)"
  define t1 where "t1 = snd (createNode (rhash os) t)"
  define t2 where "t2 = linkNodes (raddr s) ?sib a (side b) t1"
  have keys: "rhash os \<notin> fst ` K" "rhash os \<notin> set (hashes so)" "oh \<noteq> rhash os"
    using K w(2) rhash_in [of os] by (auto split: if_splits simp del: rhash_in)
  then have n: "rhash os \<notin> fst ` Map.graph (nodeMap t)"
    using okeys_sub [OF ps] by (auto simp: g image_Un)
  have t1: "nodeMap t1 = (nodeMap t)(rhash os \<mapsto> ?sib)" "cursor t1 = Suc ?sib"
    "store t1 = (store t)(?sib \<mapsto> \<lparr>parent = None, leftChild = None, rightChild = None, hash = Some (rhash os)\<rparr>)"
    by (simp_all add: t1_def createNode_eq)
  have "nodeMap t (rhash os) = None" using n graph_None by blast
  moreover have "nodeMap t1 oh = Some a"
    using g keys(3) in_graphD [of oh a "nodeMap t"] by (auto simp: t1(1))
  moreover have "Hash H (rhash so) (rhash os) (side b) = oh"
    using w(1) by (auto simp: Hash_swap split: if_splits)
  ultimately have b: "buildLoop H (rhash so) (raddr s) (rhash os # hs) (side b # path) t = buildLoop H oh a hs path t2"
    by (simp add: getOrCreate_new getOrCreate_old t1_def [symmetric] t2_def del: if_split)
  have set: "set (addrs ?P) = insert a (set (caddrs qc))" by (simp add: set_addrs_plug)
  have nin: "?sib \<notin> set (addrs s)" "?sib \<notin> set (caddrs qc)" "?sib \<noteq> a" "a \<notin> set (addrs s)" "a \<notin> set (caddrs qc)"
    "set (caddrs qc) \<inter> set (addrs s) = {}" "distinct (addrs s)" "distinct (caddrs qc)"
    using rep(3,4) set distinct_plug [of qc "Lf a oh"] by (auto simp del: if_split)
  have st: "rep (store t1) None s" "crep (store t1) qc a"
    "store t1 a = Some \<lparr>parent = ctop qc, leftChild = None, rightChild = None, hash = Some oh\<rparr>"
  proof -
    show "rep (store t1) None s" using rep(1) nin(1) by (subst rep_cong [of _ _ "store t"]) (auto simp: t1(3))
    show "crep (store t1) qc a" using rep(2) nin(2) by (subst crep_cong [of _ _ "store t"]) (auto simp: t1(3) rep_plug)
    show "store t1 a = Some \<lparr>parent = ctop qc, leftChild = None, rightChild = None, hash = Some oh\<rparr>"
      using rep(2) nin(3) by (auto simp: t1(3) rep_plug)
  qed
  have sN: "raddr s \<noteq> ?sib" "a \<noteq> raddr s" using nin(1,4) raddr_in by metis+
  have w2: "rep (store t2) (ctop qc) (wrap f' s)"
    using linkNodes_rep [OF st(1), of None "Lf ?sib (rhash os)" a "ctop qc" None None oh "side b"] nin t1(3) st(3)
    by (auto simp: t2_def f'_def)
  have eq2: "t2 = t1\<lparr>store := store t2\<rparr>" "\<And>x. x \<noteq> raddr s \<Longrightarrow> x \<noteq> ?sib \<Longrightarrow> x \<noteq> a \<Longrightarrow> store t2 x = store t1 x"
    using linkNodes_eq [of "raddr s" ?sib a "side b" t1] sN nin(3) by (simp_all add: t2_def)
  have nm2: "nodeMap t2 = nodeMap t1" "cursor t2 = cursor t1" by (subst eq2(1), simp)+
  have "raddr s \<notin> set (caddrs qc)" using nin(6) raddr_in by blast
  then have "crep (store t2) qc a" using st(2) nin eq2(2) by (subst crep_cong [of _ _ "store t1"]) metis+
  then have rep2: "rep (store t2) None (plug qc (wrap f' s))" using w2 by (simp add: rep_plug f'_def)
  have d2: "distinct (addrs (plug qc (wrap f' s)))"
    using nin by (auto simp: distinct_plug f'_def)
  have fr: "fresh_heap t2 (plug qc (wrap f' s))"
    using rep(4) set nm2(2) t1(2) by (auto simp: fresh_heap_def set_addrs_plug f'_def less_Suc_eq)
  have "Map.graph (nodeMap t2) = insert (rhash os, ?sib) (Map.graph (nodeMap t))"
    using graph_fresh [OF n] by (simp add: nm2 t1(1))
  then have g2: "Map.graph (nodeMap t2) = K \<union> set (okeys (wrap f' s) (wrap (b, oa, oh, os) so))"
    by (auto simp: g f'_def)
  have "same_info t t1" by (simp add: same_info_def t1_def createNode_eq)
  then have "same_info t t2" by (subst eq2(1)) (simp add: same_info_def)
  then show ?thesis using b rep2 d2 fr g2 by (intro exI [of _ t2] conjI) (simp_all only:)
qed

text \<open>After the stub the loop stops: at the root, or at a sibling that the tree already has.\<close>

lemma buildLoop_stop:
  assumes "cpart qc oc nc" "set (ckeys qc oc) \<subseteq> Map.graph (nodeMap t)"
  shows "buildLoop H h a (map fst (cpath oc)) (map snd (cpath oc)) t = Some t"
proof (cases oc)
  case (Cons f oc')
  obtain b oa oh os where f: "f = (b, oa, oh, os)" by (cases f) auto
  obtain s where "part s os (snd (snd (snd (hd nc))))" "set (okeys s os) \<subseteq> set (ckeys qc oc)"
    using assms(1) Cons f by (cases "(qc, oc, nc)" rule: cpart.cases) auto
  then have "(rhash os, raddr s) \<in> Map.graph (nodeMap t)" using okeys_root assms(2) by blast
  then have "nodeMap t (rhash os) = Some (raddr s)" by (rule in_graphD)
  from getOrCreate_old [OF this] show ?thesis by (simp add: Cons f)
qed simp

section \<open>The invariant of delta trees\<close>

text \<open>\<open>dpart t P O N\<close>: the heap holds the partial tree \<open>P\<close>. \<open>dinv\<close> adds the tree of which nothing has
  been built yet.\<close>

definition dpart :: "MerkleTree \<Rightarrow> mtree \<Rightarrow> mtree \<Rightarrow> mtree \<Rightarrow> bool" where
  "dpart t P O1 N1 \<longleftrightarrow> rep (store t) None P \<and> distinct (addrs P) \<and> fresh_heap t P \<and> part P O1 N1 \<and>
     Map.graph (nodeMap t) = set (okeys P O1)"

definition dinv :: "MerkleTree \<Rightarrow> mtree \<Rightarrow> mtree \<Rightarrow> bool" where
  "dinv t O1 N1 \<longleftrightarrow> MerkleRoot t = Some (rhash O1) \<and> \<not> listener t \<and>
     ((nodeMap t = Map.empty \<and> N1 = O1) \<or> (\<exists>P. dpart t P O1 N1))"

lemma dpart_lookup: "dpart t P O1 N1 \<Longrightarrow> (h, a) \<in> set (okeys P O1) \<Longrightarrow> nodeMap t h = Some a"
  by (auto simp: dpart_def intro: in_graphD)

lemma part_refl_Lf: "part (Lf a (rhash Q)) Q Q"
  by simp

lemma build_empty:
  assumes "nodeMap t = Map.empty" "hash_ok H (plug oc (Lf b x))" "distinct (hashes (plug oc (Lf b x)))"
  shows "\<exists>t' qc a. buildPartialTreeForOldMerklePath H \<lparr>Hashes = x # map fst (cpath oc), ProofPath = map snd (cpath oc)\<rparr> t = Some t' \<and>
           dpart t' (plug qc (Lf a x)) (plug oc (Lf b x)) (plug oc (Lf b x)) \<and> cpart qc oc oc \<and> same_info t t'"
proof -
  define t1 where "t1 = snd (createNode x t)"
  let ?s = "Lf (cursor t) x"
  have nm: "nodeMap t1 = [x \<mapsto> cursor t]" using assms(1) by (simp add: t1_def createNode_eq)
  have t1: "rep (store t1) None ?s" "distinct (addrs ?s)" "\<forall>z \<in> set (addrs ?s). z < cursor t1" "same_info t t1"
    by (simp_all add: t1_def createNode_eq same_info_def)
  have p1: "part ?s (Lf b x) (Lf b x)" "Map.graph (nodeMap t1) = {} \<union> set (okeys ?s (Lf b x))"
    by (simp_all add: nm graph_upd)
  have "fst ` {} \<inter> set (hashes (plug oc (Lf b x))) = {}" by simp
  from buildLoop_new [OF t1(1-3) p1(1) assms(2,3) p1(2) this, of "[]" "[]"]
  obtain t' qc where t': "buildLoop H (rhash (Lf b x)) (raddr ?s) (map fst (cpath oc) @ []) (map snd (cpath oc) @ []) t1 =
        buildLoop H (rhash (plug oc (Lf b x))) (raddr (plug qc ?s)) [] [] t'"
      "rep (store t') None (plug qc ?s)" "distinct (addrs (plug qc ?s))"
      "\<forall>z \<in> set (addrs (plug qc ?s)). z < cursor t' \<and> (z \<in> set (addrs ?s) \<or> cursor t1 \<le> z)" "cpart qc oc oc"
      "Map.graph (nodeMap t') = {} \<union> set (okeys (plug qc ?s) (plug oc (Lf b x)))" "same_info t1 t'"
    by (elim exE conjE) (rule that; assumption)
  have "part (plug qc ?s) (plug oc (Lf b x)) (plug oc (Lf b x))" by (rule part_plug [OF t'(5)]) simp
  then have "dpart t' (plug qc ?s) (plug oc (Lf b x)) (plug oc (Lf b x))"
    using t' by (simp add: dpart_def fresh_heap_def)
  moreover have "buildPartialTreeForOldMerklePath H \<lparr>Hashes = x # map fst (cpath oc), ProofPath = map snd (cpath oc)\<rparr> t = Some t'"
    using t'(1) assms(1) getOrCreate_new [of t x]
    by (simp add: buildPartialTreeForOldMerklePath_def t1_def [symmetric])
  ultimately show ?thesis using t'(5) same_info_trans [OF t1(4) t'(7)] by blast
qed

lemma cpart_append: "cpart c1 o1 n1 \<Longrightarrow> cpart c2 o2 n2 \<Longrightarrow> cpart (c1 @ c2) (o1 @ o2) (n1 @ n2)"
  by (induction c1 o1 n1 rule: cpart.induct) auto

lemma build_stub:
  fixes oc1 oc2 f b x
  defines "S \<equiv> plug (oc1 @ [f]) (Lf b x)"
  assumes d: "dpart t (plug qc (Lf a (rhash S))) (plug oc2 S) (plug nc2 S)" and c: "cpart qc oc2 nc2"
    and O: "hash_ok H (plug oc2 S)" "distinct (hashes (plug oc2 S))"
  shows "\<exists>t' qc' n. buildPartialTreeForOldMerklePath H
             \<lparr>Hashes = x # map fst (cpath (oc1 @ f # oc2)), ProofPath = map snd (cpath (oc1 @ f # oc2))\<rparr> t = Some t' \<and>
           dpart t' (plug qc' (Lf n x)) (plug oc2 S) (plug nc2 S) \<and>
           cpart qc' (oc1 @ f # oc2) (oc1 @ f # nc2) \<and> same_info t t'"
proof -
  let ?P = "plug qc (Lf a (rhash S))" let ?so = "plug oc1 (Lf b x)" let ?s = "Lf (cursor t) x"
  obtain fb fa oh os where f: "f = (fb, fa, oh, os)" by (cases f) auto
  have S: "S = wrap f ?so" "rhash S = oh" by (simp_all add: S_def f)
  define K where "K = set (ckeys qc oc2)"
  have rep: "rep (store t) None ?P" "distinct (addrs ?P)" "\<forall>z \<in> set (addrs ?P). z < cursor t"
    and g: "Map.graph (nodeMap t) = K \<union> {(oh, a)}"
    using d set_okeys_plug [OF c, of "Lf a (rhash S)" S S] by (auto simp: dpart_def fresh_heap_def S(2) K_def)
  have hS: "hash_ok H S" "distinct (hashes S)" "fst ` K \<inter> set (hashes S) = {}"
  proof -
    show "hash_ok H S" using hash_ok_plugD [OF O(1)] by simp
    show "distinct (hashes S)" using distinct_hashes_plugD(1) [OF O(2)] .
    show "fst ` K \<inter> set (hashes S) = {}"
      using distinct_hashes_plugD(2) [OF O(2)] ckeys_sub [OF c] unfolding K_def by blast
  qed
  have hso: "hash_ok H ?so" "distinct (hashes ?so)" "oh \<notin> set (hashes ?so)" "set (hashes ?so) \<subseteq> set (hashes S)"
    using hS by (auto simp: S(1) f split: if_splits)
  have K: "fst ` (K \<union> {(oh, a)}) \<inter> set (hashes ?so) = {}" using hso(3,4) hS(3) by auto
  have "x \<in> set (hashes ?so)" by (simp add: set_hashes_plug)
  then have xn: "x \<notin> fst ` Map.graph (nodeMap t)" using K by (auto simp: g)
  define t1 where "t1 = snd (createNode x t)"
  have t1: "rep (store t1) None ?s" "cursor t1 = Suc (cursor t)" "same_info t t1"
      "nodeMap t1 = (nodeMap t)(x \<mapsto> cursor t)" "\<And>z. z < cursor t \<Longrightarrow> store t1 z = store t z"
    by (simp_all add: t1_def createNode_eq same_info_def)
  have g1: "Map.graph (nodeMap t1) = (K \<union> {(oh, a)}) \<union> set (okeys ?s (Lf b x))"
    using graph_fresh [OF xn, of "cursor t"] by (simp add: t1(4) g)
  have s1: "distinct (addrs ?s)" "\<forall>z \<in> set (addrs ?s). z < cursor t1" "part ?s (Lf b x) (Lf b x)" by (simp_all add: t1(2))
  from buildLoop_new [OF t1(1) s1 hso(1,2) g1 K, of "rhash os # map fst (cpath oc2)" "side fb # map snd (cpath oc2)"]
  obtain t2 qc1 where t2: "buildLoop H (rhash (Lf b x)) (raddr ?s) (map fst (cpath oc1) @ rhash os # map fst (cpath oc2))
        (map snd (cpath oc1) @ side fb # map snd (cpath oc2)) t1 =
      buildLoop H (rhash ?so) (raddr (plug qc1 ?s)) (rhash os # map fst (cpath oc2)) (side fb # map snd (cpath oc2)) t2"
      "rep (store t2) None (plug qc1 ?s)" "distinct (addrs (plug qc1 ?s))"
      "\<forall>z \<in> set (addrs (plug qc1 ?s)). z < cursor t2 \<and> (z \<in> set (addrs ?s) \<or> cursor t1 \<le> z)" "cpart qc1 oc1 oc1"
      "Map.graph (nodeMap t2) = (K \<union> {(oh, a)}) \<union> set (okeys (plug qc1 ?s) ?so)" "cursor t1 \<le> cursor t2"
      "\<forall>z < cursor t1. z \<notin> set (addrs ?s) \<longrightarrow> store t2 z = store t1 z" "same_info t1 t2"
    by (elim exE conjE) (rule that; assumption)
  have ps: "part (plug qc1 ?s) ?so ?so" by (rule part_plug [OF t2(5)]) simp
  have r2: "rep (store t2) None (plug qc (Lf a oh))"
    using rep(1,3) t1(5) t2(8) t1(2) by (subst rep_cong [of _ _ "store t"]) (auto simp: S(2))
  have "z \<noteq> z'" if "z \<in> set (addrs (plug qc1 ?s))" "z' \<in> set (addrs ?P)" for z z'
    using bspec [OF t2(4) that(1)] bspec [OF rep(3) that(2)] t1(2) by auto
  then have d2: "distinct (addrs (plug qc1 ?s) @ addrs (plug qc (Lf a oh)))"
    using t2(3) rep(2) by (auto simp: S(2))
  have l2: "\<forall>z \<in> set (addrs (plug qc1 ?s)) \<union> set (addrs (plug qc (Lf a oh))). z < cursor t2"
    using t2(4,7) rep(3) t1(2) S(2) by auto
  from build_turn_stub [OF t2(2) r2 d2 l2 ps hS(1,2) [unfolded S(1) f] t2(6) hS(3) [unfolded S(1) f],
      of "map fst (cpath oc2)" "map snd (cpath oc2)"]
  obtain t3 where t3: "buildLoop H (rhash ?so) (raddr (plug qc1 ?s)) (rhash os # map fst (cpath oc2)) (side fb # map snd (cpath oc2)) t2 =
        buildLoop H oh a (map fst (cpath oc2)) (map snd (cpath oc2)) t3"
      and w3: "rep (store t3) None (plug qc (wrap (fb, a, oh, Lf (cursor t2) (rhash os)) (plug qc1 ?s)))"
      "distinct (addrs (plug qc (wrap (fb, a, oh, Lf (cursor t2) (rhash os)) (plug qc1 ?s))))"
      "fresh_heap t3 (plug qc (wrap (fb, a, oh, Lf (cursor t2) (rhash os)) (plug qc1 ?s)))"
      and g3: "Map.graph (nodeMap t3) = K \<union> set (okeys (wrap (fb, a, oh, Lf (cursor t2) (rhash os)) (plug qc1 ?s)) (wrap (fb, fa, oh, os) ?so))"
      and i3: "same_info t2 t3"
    by (elim exE conjE) (rule that; assumption)
  let ?f' = "(fb, a, oh, Lf (cursor t2) (rhash os))"
  let ?qc = "(qc1 @ [?f']) @ qc"
  have cp: "cpart (qc1 @ [?f']) (oc1 @ [f]) (oc1 @ [f])"
    by (rule cpart_append [OF t2(5)]) (simp add: f)
  have pw: "part (plug (qc1 @ [?f']) ?s) S S" unfolding S_def by (rule part_plug [OF cp]) simp
  have "dpart t3 (plug ?qc ?s) (plug oc2 S) (plug nc2 S)"
    using w3 g3 [folded f, folded S(1)] set_okeys_plug [OF c pw] part_plug [OF c pw] by (simp add: dpart_def K_def)
  moreover have "cpart ?qc (oc1 @ f # oc2) (oc1 @ f # nc2)" using cpart_append [OF cp c] by simp
  moreover have "buildLoop H oh a (map fst (cpath oc2)) (map snd (cpath oc2)) t3 = Some t3"
    by (rule buildLoop_stop [OF c]) (simp add: g3 K_def)
  moreover have "nodeMap t x = None" using xn graph_None by blast
  ultimately show ?thesis
    using t2(1) t3 getOrCreate_new [of t x] same_info_trans [OF same_info_trans [OF t1(3) t2(9)] i3]
    by (intro exI [of _ t3] exI [of _ ?qc] exI [of _ "cursor t"])
      (simp add: buildPartialTreeForOldMerklePath_def f t1_def [symmetric])
qed

lemma build_part:
  assumes d: "dpart t P (plug oc (Lf b x)) (plug nc (Lf b' y))" and sh: "cshape oc nc"
    and O: "hash_ok H (plug oc (Lf b x))" "distinct (hashes (plug oc (Lf b x)))"
  shows "\<exists>t' qc a. buildPartialTreeForOldMerklePath H \<lparr>Hashes = x # map fst (cpath oc), ProofPath = map snd (cpath oc)\<rparr> t = Some t' \<and>
           dpart t' (plug qc (Lf a y)) (plug oc (Lf b x)) (plug nc (Lf b' y)) \<and> cpart qc oc nc \<and> same_info t t'"
proof -
  have "part P (plug oc (Lf b x)) (plug nc (Lf b' y))" using d by (simp add: dpart_def)
  from part_descend [OF this sh]
  consider (node) qc s where "P = plug qc s" "cpart qc oc nc" "part s (Lf b x) (Lf b' y)"
    | (stub) oc1 oc2 nc2 qc a h where "oc = oc1 @ oc2" "nc = oc1 @ nc2" "oc1 \<noteq> []" "Lf b' y = Lf b x"
        "P = plug qc (Lf a h)" "cpart qc oc2 nc2" "h = rhash (plug oc1 (Lf b x))"
    by blast
  then show ?thesis
  proof cases
    case node
    then obtain a where s: "s = Lf a y" by (cases s) auto
    then have "(x, a) \<in> set (okeys P (plug oc (Lf b x)))"
      using node set_okeys_plug [OF node(2,3)] by simp
    from getOrCreate_old [OF dpart_lookup [OF d this]] show ?thesis
      using d node s
      by (intro exI [of _ t] exI [of _ qc] exI [of _ a]) (auto simp: buildPartialTreeForOldMerklePath_def same_info_def)
  next
    case stub
    obtain oc1' f where oc1: "oc1 = oc1' @ [f]" using stub(3) by (metis append_butlast_last_id)
    have "dpart t (plug qc (Lf a (rhash (plug (oc1' @ [f]) (Lf b x))))) (plug oc2 (plug (oc1' @ [f]) (Lf b x)))
        (plug nc2 (plug (oc1' @ [f]) (Lf b x)))"
      using d stub oc1 by simp
    from build_stub [OF this stub(6)] show ?thesis using O stub oc1 by auto
  qed
qed

section \<open>Updating a leaf\<close>

lemma cpart_rehash: "cpart qc oc nc \<Longrightarrow> cpart (rehash H qc z) oc (rehash H nc z)"
proof (induction qc oc nc arbitrary: z rule: cpart.induct)
  case (2 b a h s c ob oa oh os oc nb na nh ns nc)
  then show ?case using part_rhash by auto
qed auto

lemma ckeys_rehash [simp]: "ckeys (rehash H qc z) oc = ckeys qc oc"
  by (induction qc oc arbitrary: z rule: ckeys.induct) auto

lemma updateNode_dpart:
  assumes d: "dpart t (plug qc (Lf a y)) (plug oc (Lf b x)) (plug nc (Lf b y))" and c: "cpart qc oc nc" and l: "\<not> listener t"
  shows "\<exists>t'. updateNode H a z t = Some t' \<and> same_info t t' \<and> nodeMap t' = nodeMap t \<and>
           dpart t' (plug (rehash H qc z) (Lf a z)) (plug oc (Lf b x)) (plug (rehash H nc z) (Lf b z))"
proof -
  let ?P = "plug qc (Lf a y)" let ?P' = "plug (rehash H qc z) (Lf a z)"
  define t' where "t' = fold step_change ((a, y, z) # changes H qc z) t"
  have rep: "rep (store t) None ?P" "distinct (addrs ?P)" "fresh_heap t ?P" using d by (auto simp: dpart_def)
  have u: "updateNode H a z t = Some t'" "rep (store t') None ?P'"
    using updateNode_rep [OF rep(1,2), where H = H and nh = z] by (simp_all add: t'_def)
  have nm: "nodeMap t' = nodeMap t" using l by (simp add: t'_def nodeMap_fold nodeMap_step_change frame)
  have "lastNodeHash (fold step_change chs u) = lastNodeHash u" if "\<not> listener u" for chs u
    using that by (induction chs arbitrary: u) (auto simp: lastNodeHash_step_change frame)
  then have si: "same_info t t'" using l by (simp add: same_info_def t'_def frame lastNodeHash_step_change)
  have ad: "distinct (addrs ?P')" "fresh_heap t' ?P'"
    using rep(2,3) by (simp_all add: distinct_plug fresh_heap_def set_addrs_plug t'_def frame)
  have p0: "part (Lf a y) (Lf b x) (Lf b y)" "part (Lf a z) (Lf b x) (Lf b z)" by simp_all
  have "set (okeys ?P' (plug oc (Lf b x))) = set (okeys ?P (plug oc (Lf b x)))"
    using set_okeys_plug [OF c p0(1)] set_okeys_plug [OF cpart_rehash [OF c, of H z] p0(2)] by simp
  then have "dpart t' ?P' (plug oc (Lf b x)) (plug (rehash H nc z) (Lf b z))"
    using u(2) ad nm d part_plug [OF cpart_rehash [OF c] p0(2)] by (simp add: dpart_def)
  then show ?thesis using u(1) si nm by blast
qed

lemma getOrCreate_dom: "getOrCreateNode h t = (a, e, t') \<Longrightarrow> dom (nodeMap t) \<subseteq> dom (nodeMap t')"
  by (cases "nodeMap t h") (auto simp: getOrCreate_old getOrCreate_new createNode_eq)

lemma linkNodes_nodeMap [simp]: "nodeMap (linkNodes c s p pos t) = nodeMap t"
  by (simp add: linkNodes_def Let_def node_set)

lemma buildLoop_dom: "buildLoop H h c hs path t = Some t' \<Longrightarrow> dom (nodeMap t) \<subseteq> dom (nodeMap t')"
proof (induction H h c hs path t rule: buildLoop.induct)
  case (3 H h cur sh hs pos path t)
  obtain a e t1 where g1: "getOrCreateNode sh t = (a, e, t1)" by (metis prod_cases3)
  obtain b e2 t2 where g2: "getOrCreateNode (Hash H h sh pos) t1 = (b, e2, t2)" by (metis prod_cases3)
  show ?case
  proof (cases e)
    case True
    then show ?thesis using "3.prems" g1 getOrCreate_dom [OF g1] by simp
  next
    case False
    then have "buildLoop H (Hash H h sh pos) b hs path (linkNodes cur a b pos t2) = Some t'"
      using "3.prems" g1 g2 by (simp add: Let_def)
    from "3.IH" [OF refl g1 [symmetric] refl False refl refl g2 [symmetric] refl refl this]
    show ?thesis using getOrCreate_dom [OF g1] getOrCreate_dom [OF g2] by simp
  qed
qed auto

lemma buildPartial_dom: "buildPartialTreeForOldMerklePath H p t = Some t' \<Longrightarrow> dom (nodeMap t) \<subseteq> dom (nodeMap t')"
  unfolding buildPartialTreeForOldMerklePath_def
  by (auto split: list.splits prod.splits if_splits dest!: getOrCreate_dom buildLoop_dom) (blast dest: subsetD)+

lemma fold_cpath: "hash_ok H (plug c s) \<Longrightarrow> fold_path H (rhash s) (map fst (cpath c)) (map snd (cpath c)) = rhash (plug c s)"
proof (induction c arbitrary: s)
  case (Cons f c)
  obtain b a h sib where f: "f = (b, a, h, sib)" by (cases f) auto
  have "Hash H (rhash s) (rhash sib) (side b) = rhash (wrap f s)"
    using frame_hash [of H b a h sib c s] Cons.prems by (simp add: f)
  then show ?case using Cons.IH [of "wrap f s"] Cons.prems by (simp add: f comp_def)
qed simp

lemma plug_inj: "cshape c c' \<Longrightarrow> plug c s = plug c' s' \<Longrightarrow> c = c' \<and> s = s'"
proof (induction c c' arbitrary: s s' rule: cshape.induct)
  case (2 b a h u c b' a' h' u' c')
  then have "c = c' \<and> wrap (b, a, h, u) s = wrap (b', a', h', u') s'" by force
  then show ?case using "2.prems"(1) by (auto split: if_splits)
qed auto

lemma build_dinv:
  assumes d: "dinv t (plug oc (Lf b x)) (plug nc (Lf b y))" and sh: "cshape oc nc"
    and O: "hash_ok H (plug oc (Lf b x))" "distinct (hashes (plug oc (Lf b x)))"
  shows "\<exists>t1 qc a. buildPartialTreeForOldMerklePath H \<lparr>Hashes = x # map fst (cpath oc), ProofPath = map snd (cpath oc)\<rparr> t = Some t1 \<and>
      dpart t1 (plug qc (Lf a y)) (plug oc (Lf b x)) (plug nc (Lf b y)) \<and> cpart qc oc nc \<and> same_info t t1"
proof (cases "nodeMap t = Map.empty \<and> plug nc (Lf b y) = plug oc (Lf b x)")
  case True
  then have eq: "nc = oc" "y = x" using plug_inj [OF sh, of "Lf b x" "Lf b y"] by auto
  from build_empty [OF conjunct1 [OF True] O] show ?thesis unfolding eq .
next
  case False
  then obtain P where "dpart t P (plug oc (Lf b x)) (plug nc (Lf b y))" using d by (auto simp: dinv_def)
  from build_part [OF this sh O] show ?thesis .
qed

lemma deltaUpdateLeaf_dinv:
  assumes d: "dinv t (plug oc (Lf b x)) (plug nc (Lf b y))" and sh: "cshape oc nc"
    and O: "hash_ok H (plug oc (Lf b x))" "distinct (hashes (plug oc (Lf b x)))"
  shows "\<exists>t'. deltaUpdateLeaf H \<lparr>Hashes = x # map fst (cpath oc), ProofPath = map snd (cpath oc)\<rparr> z t = Some (Inr t') \<and>
           dinv t' (plug oc (Lf b x)) (plug (rehash H nc z) (Lf b z)) \<and> same_info t t' \<and> dom (nodeMap t) \<subseteq> dom (nodeMap t')"
proof -
  let ?p = "\<lparr>Hashes = x # map fst (cpath oc), ProofPath = map snd (cpath oc)\<rparr>"
  let ?O = "plug oc (Lf b x)" let ?N = "plug nc (Lf b y)"
  have r: "MerkleRoot t = Some (rhash ?O)" "\<not> listener t" using d by (auto simp: dinv_def)
  have v: "path_Verify H ?p (rhash ?O) = Inr ()" using fold_cpath [OF O(1)] by (simp add: path_Verify_Inr)
  from build_dinv [OF d sh O] obtain t1 qc a where t1: "buildPartialTreeForOldMerklePath H ?p t = Some t1" "dpart t1 (plug qc (Lf a y)) ?O ?N"
      "cpart qc oc nc" "same_info t t1" by blast
  have l1: "\<not> listener t1" using t1(4) r by (simp add: same_info_def)
  have p0: "part (Lf a y) (Lf b x) (Lf b y)" by simp
  have "nodeMap t1 x = Some a"
    by (rule dpart_lookup [OF t1(2)]) (simp add: set_okeys_plug [OF t1(3) p0])
  moreover obtain t2 where t2: "updateNode H a z t1 = Some t2" "same_info t1 t2" "nodeMap t2 = nodeMap t1"
      "dpart t2 (plug (rehash H qc z) (Lf a z)) ?O (plug (rehash H nc z) (Lf b z))"
    using updateNode_dpart [OF t1(2,3) l1, of H z] by blast
  moreover have si: "same_info t t2" using same_info_trans t1(4) t2(2) by blast
  moreover have "dinv t2 ?O (plug (rehash H nc z) (Lf b z))"
    using t2(4) si r unfolding dinv_def same_info_def by auto
  ultimately show ?thesis
    using r v t1(1) buildPartial_dom [OF t1(1)] by (simp add: deltaUpdateLeaf_def GetLeaf_def)
qed

lemma GetMerkleRoot_dinv:
  assumes "dinv t O1 N1"
  shows "GetMerkleRoot t = Some (rhash N1)"
proof -
  have r: "MerkleRoot t = Some (rhash O1)" using assms by (simp add: dinv_def)
  consider "nodeMap t = Map.empty" "N1 = O1" | P where "dpart t P O1 N1" using assms by (auto simp: dinv_def)
  then show ?thesis
  proof cases
    case 1
    then show ?thesis using r by (simp add: GetMerkleRoot_def)
  next
    case 2
    then have p: "rep (store t) None P" "part P O1 N1" by (auto simp: dpart_def)
    have "nodeMap t (rhash O1) = Some (raddr P)" using dpart_lookup [OF 2] okeys_root [OF p(2)] by blast
    then show ?thesis
      using r climbRoot_rep [OF p(1), of "raddr P"] rep_hash [OF p(1)] part_rhash [OF p(2)]
      by (simp add: GetMerkleRoot_def)
  qed
qed

section \<open>Reference trees over a list\<close>

text \<open>\<open>mtree_of H xs\<close> is the reference tree with the address 0 everywhere; \<open>leafPath\<close> the proof of leaf \<open>i\<close>
  in it and \<open>merklePathOf\<close> the path a storage node hands out.\<close>

function mtree_of :: "hash_fun \<Rightarrow> MerkleHash list \<Rightarrow> mtree" where
  "mtree_of H xs =
     (if length xs \<le> 1 then Lf 0 (concat xs)
      else let k = lp2 (length xs) in Nd 0 (mth H xs) (mtree_of H (take k xs)) (mtree_of H (drop k xs)))"
  by pat_completeness auto
termination
  by (relation "measure (\<lambda>(H, xs). length xs)") (auto simp: lp2_less lp2_pos intro: diff_less)

function leafPath :: "hash_fun \<Rightarrow> MerkleHash list \<Rightarrow> nat \<Rightarrow> (MerkleHash \<times> byte) list" where
  "leafPath H xs i =
     (if length xs \<le> 1 then []
      else let k = lp2 (length xs)
           in if i < k then leafPath H (take k xs) i @ [(mth H (drop k xs), Right)]
              else leafPath H (drop k xs) (i - k) @ [(mth H (take k xs), Left)])"
  by pat_completeness auto
termination
  by (relation "measure (\<lambda>(H, xs, i). length xs)") (auto simp: lp2_less lp2_pos intro: diff_less)

declare mtree_of.simps [simp del] leafPath.simps [simp del]

definition merklePathOf :: "hash_fun \<Rightarrow> MerkleHash list \<Rightarrow> nat \<Rightarrow> MerklePath" where
  "merklePathOf H xs i = \<lparr>Hashes = xs ! i # map fst (leafPath H xs i), ProofPath = map snd (leafPath H xs i)\<rparr>"

lemma mtree_of_Lf: "mtree_of H [x] = Lf 0 x"
  by (simp add: mtree_of.simps)

lemma mtree_of_Nd:
  "\<not> length xs \<le> 1 \<Longrightarrow> mtree_of H xs =
     Nd 0 (mth H xs) (mtree_of H (take (lp2 (length xs)) xs)) (mtree_of H (drop (lp2 (length xs)) xs))"
  by (subst mtree_of.simps) (simp add: Let_def)

lemma split_list:
  assumes "\<not> length xs \<le> 1"
  shows "take (lp2 (length xs)) xs \<noteq> []" "drop (lp2 (length xs)) xs \<noteq> []"
    "length (take (lp2 (length xs)) xs) = lp2 (length xs)"
  using assms lp2_less [of "length xs"] lp2_pos [of "length xs"] by auto

lemma mtree_of_ind [consumes 1, case_names single split]:
  assumes "xs \<noteq> []" and "\<And>x. P [x]"
    and "\<And>xs. \<not> length xs \<le> 1 \<Longrightarrow> P (take (lp2 (length xs)) xs) \<Longrightarrow> P (drop (lp2 (length xs)) xs) \<Longrightarrow> P xs"
  shows "P xs"
  using assms(1)
proof (induction xs rule: length_induct)
  case (1 xs)
  show ?case
  proof (cases "length xs \<le> 1")
    case True
    then obtain x where "xs = [x]" using 1 by (cases xs) auto
    then show ?thesis using assms(2) by simp
  next
    case False
    then show ?thesis
      using 1 assms(3) [OF False] split_list [OF False] lp2_less [of "length xs"] lp2_pos [of "length xs"] by auto
  qed
qed

lemma rhash_mtree_of: "xs \<noteq> [] \<Longrightarrow> rhash (mtree_of H xs) = mth H xs"
  by (induction xs rule: mtree_of_ind) (simp_all add: mtree_of_Lf mtree_of_Nd mth.simps)

lemma leaves_mtree_of: "xs \<noteq> [] \<Longrightarrow> leaves (mtree_of H xs) = xs"
  by (induction xs rule: mtree_of_ind) (simp_all add: mtree_of_Lf mtree_of_Nd)

lemma hash_ok_mtree_of: "xs \<noteq> [] \<Longrightarrow> hash_ok H (mtree_of H xs)"
proof (induction xs rule: mtree_of_ind)
  case (split xs)
  then show ?case using split_list [OF split(1)]
    by (simp add: mtree_of_Nd rhash_mtree_of) (subst mth.simps, simp add: Let_def)
qed (simp add: mtree_of_Lf)

lemma canon_mtree_of: "xs \<noteq> [] \<Longrightarrow> canon (mtree_of H xs)"
proof (induction xs rule: mtree_of_ind)
  case (split xs)
  then show ?case using split_list [OF split(1)] by (simp add: mtree_of_Nd leaves_mtree_of)
qed (simp add: mtree_of_Lf)

lemmas mtree_of_props = rhash_mtree_of leaves_mtree_of hash_ok_mtree_of canon_mtree_of

text \<open>A consistent tree of the canonical shape is determined by its leaves.\<close>

lemma mtree_of_unique:
  "hash_ok H s \<Longrightarrow> canon s \<Longrightarrow> set (addrs s) \<subseteq> {0} \<Longrightarrow> s = mtree_of H (leaves s)"
proof (induction s)
  case (Lf a h)
  then show ?case by (simp add: mtree_of_Lf)
next
  case (Nd a h l r)
  have two: "\<not> length (leaves l @ leaves r) \<le> 1" using two_leaves [of l r] by simp
  have lp: "lp2 (length (leaves l @ leaves r)) = length (leaves l)" using Nd.prems by simp
  have "h = mth H (leaves l @ leaves r)" using canon_root [OF Nd.prems(1,2)] by simp
  moreover have "l = mtree_of H (leaves l)" "r = mtree_of H (leaves r)"
    using Nd.IH Nd.prems by simp_all
  ultimately show ?case using mtree_of_Nd [OF two, of H] Nd.prems(3) unfolding lp by simp
qed

lemma cshape_append: "cshape c c' \<Longrightarrow> cshape (c @ [(b, x)]) (c' @ [(b, y)])"
  by (induction c c' rule: cshape.induct; cases x; cases y) auto

lemma leaf_ctx2:
  assumes "length xs = length ys" "i < length xs"
  shows "\<exists>oc nc. mtree_of H xs = plug oc (Lf 0 (xs ! i)) \<and> mtree_of H ys = plug nc (Lf 0 (ys ! i)) \<and> cshape oc nc \<and>
     cpath oc = leafPath H xs i \<and> cpath nc = leafPath H ys i \<and> length (cleaves_l nc) = i"
proof -
  have "xs \<noteq> []" using assms(2) by auto
  then show ?thesis using assms
  proof (induction xs arbitrary: ys i rule: mtree_of_ind)
    case (single x)
    then obtain y where "ys = [y]" by (cases ys) auto
    then show ?case using single by (intro exI [of _ "[]"]) (simp add: mtree_of_Lf leafPath.simps)
  next
    case (split xs)
    let ?k = "lp2 (length xs)"
    have k: "?k < length xs" "?k < length ys" "\<not> length ys \<le> 1" "lp2 (length ys) = ?k"
      using lp2_less [of "length xs"] split by auto
    note nd = mtree_of_Nd [OF split(1), of H] mtree_of_Nd [OF k(3), of H, unfolded k(4)]
    have pt: "leafPath H zs i = (if i < ?k then leafPath H (take ?k zs) i @ [(mth H (drop ?k zs), Right)]
        else leafPath H (drop ?k zs) (i - ?k) @ [(mth H (take ?k zs), Left)])" if "length zs = length xs" for zs
      using that split(1) by (subst leafPath.simps) (simp add: Let_def)
    have ne: "take ?k xs \<noteq> []" "drop ?k xs \<noteq> []" "take ?k ys \<noteq> []" "drop ?k ys \<noteq> []"
      using split_list(1,2) [OF split(1)] split_list(1,2) [OF k(3)] k(4) by simp_all
    have rt: "rhash (mtree_of H (take ?k xs)) = mth H (take ?k xs)" "rhash (mtree_of H (drop ?k xs)) = mth H (drop ?k xs)"
      "rhash (mtree_of H (take ?k ys)) = mth H (take ?k ys)" "rhash (mtree_of H (drop ?k ys)) = mth H (drop ?k ys)"
      and lv: "leaves (mtree_of H (take ?k ys)) = take ?k ys"
      using rhash_mtree_of ne leaves_mtree_of by blast+
    show ?case
    proof (cases "i < ?k")
      case True
      then have len: "length (take ?k xs) = length (take ?k ys)" "i < length (take ?k xs)"
        and nth: "take ?k xs ! i = xs ! i" "take ?k ys ! i = ys ! i"
        using split.prems k(1,2) by simp_all
      from split.IH(1) [OF len, unfolded nth]
      obtain oc nc where c: "mtree_of H (take ?k xs) = plug oc (Lf 0 (xs ! i))" "mtree_of H (take ?k ys) = plug nc (Lf 0 (ys ! i))"
          "cshape oc nc" "cpath oc = leafPath H (take ?k xs) i" "cpath nc = leafPath H (take ?k ys) i" "length (cleaves_l nc) = i"
        by (elim exE conjE) (rule that; assumption)
      let ?oc = "oc @ [(True, 0, mth H xs, mtree_of H (drop ?k xs))]" let ?nc = "nc @ [(True, 0, mth H ys, mtree_of H (drop ?k ys))]"
      have "mtree_of H xs = plug ?oc (Lf 0 (xs ! i))" "mtree_of H ys = plug ?nc (Lf 0 (ys ! i))"
        using nd c(1,2) by simp_all
      moreover have "cshape ?oc ?nc" using cshape_append [OF c(3)] .
      moreover have "cpath ?oc = leafPath H xs i" "cpath ?nc = leafPath H ys i"
        using c(4,5) pt [of xs] pt [of ys] split.prems(1) True rt by simp_all
      moreover have "length (cleaves_l ?nc) = i" using c(6)  by (simp add: cleaves_l_append)
      ultimately show ?thesis by blast
    next
      case False
      then have len: "length (drop ?k xs) = length (drop ?k ys)" "i - ?k < length (drop ?k xs)"
        and nth: "drop ?k xs ! (i - ?k) = xs ! i" "drop ?k ys ! (i - ?k) = ys ! i"
        using split.prems k(1,2) by simp_all
      from split.IH(2) [OF len, unfolded nth]
      obtain oc nc where c: "mtree_of H (drop ?k xs) = plug oc (Lf 0 (xs ! i))" "mtree_of H (drop ?k ys) = plug nc (Lf 0 (ys ! i))"
          "cshape oc nc" "cpath oc = leafPath H (drop ?k xs) (i - ?k)" "cpath nc = leafPath H (drop ?k ys) (i - ?k)" "length (cleaves_l nc) = i - ?k"
        by (elim exE conjE) (rule that; assumption)
      let ?oc = "oc @ [(False, 0, mth H xs, mtree_of H (take ?k xs))]" let ?nc = "nc @ [(False, 0, mth H ys, mtree_of H (take ?k ys))]"
      have "mtree_of H xs = plug ?oc (Lf 0 (xs ! i))" "mtree_of H ys = plug ?nc (Lf 0 (ys ! i))"
        using nd c(1,2) by simp_all
      moreover have "cshape ?oc ?nc" using cshape_append [OF c(3)] .
      moreover have "cpath ?oc = leafPath H xs i" "cpath ?nc = leafPath H ys i"
        using c(4,5) pt [of xs] pt [of ys] split.prems(1) False rt by simp_all
      moreover have "length (cleaves_l ?nc) = i" using c(6) False k lv by (simp add: cleaves_l_append)
      ultimately show ?thesis by blast
    qed
  qed
qed

lemma mtree_of_update:
  assumes "mtree_of H ys = plug nc (Lf 0 (ys ! i))" "length (cleaves_l nc) = i" "i < length ys"
  shows "plug (rehash H nc z) (Lf 0 z) = mtree_of H (ys[i := z])"
proof -
  let ?N = "plug (rehash H nc z) (Lf 0 z)"
  have ne: "ys \<noteq> []" using assms(3) by auto
  have "ys = leaves (mtree_of H ys)" using leaves_mtree_of [OF ne] by simp
  then have ys: "ys = cleaves_l nc @ ys ! i # cleaves_r nc" unfolding assms(1) by (simp add: leaves_plug)
  have "leaves ?N = ys[i := z]" using assms(2) by (subst ys) (simp add: leaves_plug list_update_append)
  moreover have "hash_ok H ?N"
    using hash_ok_rehash [of H "Lf 0 z" nc] hash_ok_plugD [of H nc "Lf 0 (ys ! i)"] hash_ok_mtree_of [OF ne, of H] assms(1) by simp
  moreover have "canon ?N"
    using same_shape_canon [of "Lf 0 z" "Lf 0 (ys ! i)" H nc z] canon_mtree_of [OF ne, of H] assms(1) by simp
  moreover have "set (addrs ?N) = set (addrs (mtree_of H ys))" unfolding assms(1) by (simp add: set_addrs_plug)
  moreover have "set (addrs (mtree_of H ys)) \<subseteq> {0}"
    using ne by (induction ys rule: mtree_of_ind) (simp_all add: mtree_of_Lf mtree_of_Nd)
  ultimately show ?thesis using mtree_of_unique by metis
qed

text \<open>\<open>delta_tree H xs t ys\<close>: over the ledger with the leaves \<open>xs\<close>, the code reached the delta tree \<open>t\<close> after
  updates, each with the path of its leaf in the old ledger, that make the leaves \<open>ys\<close>; the size and
  the path of the last leaf may have been set in between.\<close>

inductive delta_tree :: "hash_fun \<Rightarrow> MerkleHash list \<Rightarrow> MerkleTree \<Rightarrow> MerkleHash list \<Rightarrow> bool" for H xs where
  created: "delta_tree H xs (NewDeltaMerkleTree (mth H xs)) xs"
| updated: "delta_tree H xs t ys \<Longrightarrow> deltaUpdateLeaf H (merklePathOf H xs i) z t = Some (Inr t') \<Longrightarrow> i < length xs \<Longrightarrow>
    delta_tree H xs t' (ys[i := z])"
| sized: "delta_tree H xs t ys \<Longrightarrow>
    SetSizeAndLastNodeMerklePath H (of_nat (length xs)) (lastMerklePath H xs) t = Some (Inr t') \<Longrightarrow> delta_tree H xs t' ys"

lemma deltaUpdateLeaf_list:
  assumes "dinv t (mtree_of H xs) (mtree_of H ys)" "distinct (subroots H xs)" "length ys = length xs" "i < length xs"
  shows "\<exists>t'. deltaUpdateLeaf H (merklePathOf H xs i) z t = Some (Inr t') \<and>
     dinv t' (mtree_of H xs) (mtree_of H (ys[i := z])) \<and> same_info t t' \<and> dom (nodeMap t) \<subseteq> dom (nodeMap t')"
proof -
  have ne: "xs \<noteq> []" using assms(4) by auto
  obtain oc nc where c: "mtree_of H xs = plug oc (Lf 0 (xs ! i))" "mtree_of H ys = plug nc (Lf 0 (ys ! i))" "cshape oc nc"
     "cpath oc = leafPath H xs i" "cpath nc = leafPath H ys i" "length (cleaves_l nc) = i"
    using leaf_ctx2 [of xs ys i H] assms by auto
  have "hashes (mtree_of H xs) = subroots H xs" using canon_hashes mtree_of_props ne by metis
  then have O: "hash_ok H (plug oc (Lf 0 (xs ! i)))" "distinct (hashes (plug oc (Lf 0 (xs ! i))))"
    using hash_ok_mtree_of [OF ne, of H] assms(2) by (simp_all flip: c(1))
  from deltaUpdateLeaf_dinv [OF assms(1) [unfolded c(1,2)] c(3) O, of z] show ?thesis
    using mtree_of_update [OF c(2,6)] assms(3,4) c(4)
    unfolding merklePathOf_def c(1) [symmetric] c(4) [symmetric] by auto
qed

section \<open>Refreshing a path\<close>

lemma tpath_plug: "distinct (addrs (plug c s)) \<Longrightarrow> tpath (plug c s) (raddr s) = cpath c"
proof (induction c rule: rev_induct)
  case Nil
  then show ?case by (cases s) auto
next
  case (snoc f c)
  obtain b a h sib where f: "f = (b, a, h, sib)" by (cases f) auto
  have "raddr s \<in> set (addrs (plug c s))" by (simp add: set_addrs_plug)
  then show ?case using snoc by (auto simp: f split: if_splits)
qed

lemma inner_not_root:
  assumes "c \<noteq> []" "distinct (hashes (plug c s))" "k \<in> set (hashes s)"
  shows "k \<noteq> rhash (plug c s)" "k \<in> set (hashes (plug c s))"
proof -
  obtain c' g where g: "c = c' @ [g]" using assms(1) by (metis append_butlast_last_id)
  obtain gb ga gh gs where gg: "g = (gb, ga, gh, gs)" by (cases g) auto
  have "k \<in> set (hashes (plug c' s))" using assms(3) by (simp add: set_hashes_plug)
  then show "k \<noteq> rhash (plug c s)" using assms(2) by (auto simp: g gg split: if_splits)
  show "k \<in> set (hashes (plug c s))" using assms(3) by (simp add: set_hashes_plug)
qed

lemma cpath_cpart: "cpart qc oc nc \<Longrightarrow> cpath qc = cpath nc"
  by (induction qc oc nc rule: cpart.induct) (auto dest: part_rhash)

lemma refreshLoop_none:
  "nodeMap t = Map.empty \<Longrightarrow> length hs = length ps \<Longrightarrow> refreshLoop H t h hs ps hl pl = (hl @ hs, pl @ ps, None)"
  by (induction H t h hs ps hl pl rule: refreshLoop.induct) auto

lemma refreshLoop_stub:
  assumes "oc1 \<noteq> []" "hash_ok H (plug oc1 so)" "distinct (hashes (plug oc1 so))"
    "nodeMap t (rhash (plug oc1 so)) = Some a" "\<And>h. h \<in> set (hashes (plug oc1 so)) \<Longrightarrow> h \<noteq> rhash (plug oc1 so) \<Longrightarrow> nodeMap t h = None"
  shows "refreshLoop H t (rhash so) (map fst (cpath (oc1 @ oc2))) (map snd (cpath (oc1 @ oc2))) hl pl =
     (hl @ map fst (cpath oc1), pl @ map snd (cpath oc1), Some a)"
  using assms
proof (induction oc1 arbitrary: so hl pl)
  case (Cons f oc1)
  obtain b x oh os where f: "f = (b, x, oh, os)" by (cases f) auto
  let ?w = "wrap f so"
  have ph: "Hash H (rhash so) (rhash os) (side b) = oh" "rhash ?w = oh"
    using frame_hash [of H b x oh os oc1 so] Cons.prems(2) by (simp_all add: f)
  show ?case
  proof (cases "oc1 = []")
    case True
    then show ?thesis using ph Cons.prems(4) by (simp add: f Let_def)
  next
    case False
    have "oh \<in> set (hashes ?w)" using ph(2) rhash_in [of ?w] by (simp del: rhash_in)
    moreover have "distinct (hashes (plug oc1 ?w))" using Cons.prems(3) by simp
    ultimately have "nodeMap t oh = None" using inner_not_root [OF False] Cons.prems(5) by simp
    moreover have "refreshLoop H t (rhash ?w) (map fst (cpath (oc1 @ oc2))) (map snd (cpath (oc1 @ oc2))) (hl @ [rhash os]) (pl @ [side b]) =
       ((hl @ [rhash os]) @ map fst (cpath oc1), (pl @ [side b]) @ map snd (cpath oc1), Some a)"
      using Cons.IH [OF False, of ?w] Cons.prems(2-5) by simp
    ultimately show ?thesis using ph by (simp add: f Let_def comp_def)
  qed
qed simp

text \<open>An unchanged leaf: the refreshed path is the path of the leaf in the new tree.\<close>

lemma Refresh_dinv:
  assumes d: "dinv t (plug oc (Lf b x)) (plug nc (Lf b x))" and sh: "cshape oc nc"
    and O: "hash_ok H (plug oc (Lf b x))" "distinct (hashes (plug oc (Lf b x)))"
  shows "RefreshMerklePath H \<lparr>Hashes = x # map fst (cpath oc), ProofPath = map snd (cpath oc)\<rparr> t =
     Some (Inr \<lparr>Hashes = x # map fst (cpath nc), ProofPath = map snd (cpath nc)\<rparr>)"
proof -
  let ?p = "\<lparr>Hashes = x # map fst (cpath oc), ProofPath = map snd (cpath oc)\<rparr>"
  let ?O = "plug oc (Lf b x)" let ?N = "plug nc (Lf b x)"
  have r: "MerkleRoot t = Some (rhash ?O)" using d by (simp add: dinv_def)
  have v: "path_Verify H ?p (rhash ?O) = Inr ()" using fold_cpath [OF O(1)] by (simp add: path_Verify_Inr)
  note unf = RefreshMerklePath_def GetLeaf_def r v
  consider (empty) "nodeMap t = Map.empty" "?N = ?O" | (part) P where "dpart t P ?O ?N" using d by (auto simp: dinv_def)
  then show ?thesis
  proof cases
    case empty
    then have "nc = oc" using plug_inj [OF sh, of "Lf b x" "Lf b x"] by auto
    then show ?thesis using empty(1) refreshLoop_none [OF empty(1)] by (simp add: unf del: map_map)
  next
    case part
    then have P: "rep (store t) None P" "distinct (addrs P)" "part P ?O ?N" by (auto simp: dpart_def)
    from part_descend [OF P(3) sh]
    consider (node) qc s where "P = plug qc s" "cpart qc oc nc" "part s (Lf b x) (Lf b x)"
      | (stub) oc1 oc2 nc2 qc a h where "oc = oc1 @ oc2" "nc = oc1 @ nc2" "oc1 \<noteq> []"
          "P = plug qc (Lf a h)" "cpart qc oc2 nc2" "h = rhash (plug oc1 (Lf b x))"
      by blast
    then show ?thesis
    proof cases
      case node
      then obtain a where s: "s = Lf a x" by (cases s) auto
      have "nodeMap t x = Some a"
        by (rule dpart_lookup [OF part]) (use set_okeys_plug [OF node(2,3)] in \<open>simp add: node(1) s\<close>)
      moreover have "createMerkleProof t a = Some (map fst (cpath nc), map snd (cpath nc))"
        using createMerkleProof_rep [OF P(1,2), of a] tpath_plug [of qc s] P(2) cpath_cpart [OF node(2)]
        by (simp add: node(1) s set_addrs_plug)
      ultimately show ?thesis by (simp add: unf del: map_map)
    next
      case stub
      let ?S = "plug oc1 (Lf b x)"
      have S: "hash_ok H ?S" "distinct (hashes ?S)" "fst ` set (centries oc2) \<inter> set (hashes ?S) = {}"
        using hash_ok_plugD [of H oc2 ?S] distinct_hashes_plugD [of oc2 ?S] O by (simp_all add: stub(1))
      have "part (Lf a h) ?S ?S" by (simp add: stub(6))
      from set_okeys_plug [OF stub(5) this]
      have g: "Map.graph (nodeMap t) = set (ckeys qc oc2) \<union> {(rhash ?S, a)}"
        using part by (simp add: dpart_def stub(1,4))
      have at: "nodeMap t (rhash ?S) = Some a" by (rule in_graphD) (simp add: g)
      have no: "nodeMap t k = None" if "k \<in> set (hashes ?S)" "k \<noteq> rhash ?S" for k
      proof -
        have "k \<notin> fst ` set (ckeys qc oc2)" using that(1) S(3) ckeys_sub [OF stub(5)] by blast
        then show ?thesis using that(2) unfolding graph_None g by simp
      qed
      have "x \<in> set (hashes ?S)" "x \<noteq> rhash ?S" using inner_not_root [OF stub(3) S(2), of x] by simp_all
      then have "nodeMap t x = None" using no by blast
      moreover have "createMerkleProof t a = Some (map fst (cpath nc2), map snd (cpath nc2))"
        using createMerkleProof_rep [OF P(1,2), of a] tpath_plug [of qc "Lf a h"] P(2) cpath_cpart [OF stub(5)]
        by (simp add: stub(4) set_addrs_plug)
      moreover note refreshLoop_stub [OF stub(3) S(1,2) at no, of oc2 "[x]" "[]"]
      ultimately show ?thesis using v by (simp add: unf stub(1,2) del: map_map)
    qed
  qed
qed

section \<open>Appending to a delta tree\<close>

text \<open>\<open>agr P N\<close>: the partial tree \<open>P\<close> carries the hashes of \<open>N\<close>. For \<^verbatim>\<open>append\<close> its right spine has to be
  complete, which the path of the last leaf makes it.\<close>

fun agr :: "mtree \<Rightarrow> mtree \<Rightarrow> bool" where
  "agr (Lf a h) N1 = (h = rhash N1)"
| "agr (Nd a h l r) (Nd b nh nl nr) = (h = nh \<and> agr l nl \<and> agr r nr)"
| "agr _ _ = False"

fun cagr :: "frame list \<Rightarrow> frame list \<Rightarrow> bool" where
  "cagr [] [] = True"
| "cagr ((b, a, h, s) # c) ((nb, na, nh, ns) # nc) = (b = nb \<and> h = nh \<and> agr s ns \<and> cagr c nc)"
| "cagr _ _ = False"

lemma agr_rhash: "agr P N1 \<Longrightarrow> rhash P = rhash N1"
  by (cases "(P, N1)" rule: agr.cases) auto

lemma part_agr: "part P O1 N1 \<Longrightarrow> agr P N1"
  by (induction P O1 N1 rule: part.induct) auto

lemma agr_plug: "cagr qc nc \<Longrightarrow> agr s sn \<Longrightarrow> agr (plug qc s) (plug nc sn)"
  by (induction qc nc arbitrary: s sn rule: cagr.induct) auto

lemma cagr_rehash: "cagr qc nc \<Longrightarrow> cagr (rehash H qc z) (rehash H nc z)"
proof (induction qc nc arbitrary: z rule: cagr.induct)
  case (2 b a h s c nb na nh ns nc)
  then show ?case using agr_rhash by auto
qed auto

lemma rdepth_plug_right: "\<forall>f \<in> set c. \<not> fst f \<Longrightarrow> rdepth (plug c s) = length c + rdepth s"
  by (induction c arbitrary: s) auto

lemma agr_spine:
  assumes "agr P (plug c u)" "rdepth P = rdepth (plug c u)" "\<forall>f \<in> set c. \<not> fst f"
  shows "\<exists>qc v. P = plug qc v \<and> cagr qc c \<and> agr v u \<and> rdepth v = rdepth u \<and> (\<forall>f \<in> set qc. \<not> fst f)"
  using assms
proof (induction c arbitrary: u)
  case Nil
  then show ?case by (intro exI [of _ "[]"] exI [of _ P]) simp
next
  case (Cons f c)
  obtain a h s where f: "f = (False, a, h, s)" using Cons.prems(3) by (cases f) auto
  obtain qc v where v: "P = plug qc v" "cagr qc c" "agr v (wrap f u)" "rdepth v = rdepth (wrap f u)" "\<forall>f \<in> set qc. \<not> fst f"
    using Cons.IH [of "wrap f u"] Cons.prems by (auto simp del: wrap.simps)
  obtain a' h' l r where "v = Nd a' h' l r" using v(4) by (cases v) (auto simp: f)
  then show ?case using v by (intro exI [of _ "(False, a', h', l) # qc"] exI [of _ r]) (auto simp: f)
qed

definition astate :: "MerkleTree \<Rightarrow> mtree \<Rightarrow> MerkleHash \<Rightarrow> hash_fun \<Rightarrow> MerkleHash list \<Rightarrow> bool" where
  "astate t P oldRoot H zs \<longleftrightarrow> rep (store t) None P \<and> distinct (addrs P) \<and> fresh_heap t P \<and> \<not> listener t \<and>
     agr P (mtree_of H zs) \<and> rdepth P = rdepth (mtree_of H zs) \<and> MerkleRoot t = Some oldRoot \<and>
     (\<exists>a \<in> set (addrs P). nodeMap t oldRoot = Some a)"

lemma addrs_mtree_of: "zs \<noteq> [] \<Longrightarrow> set (addrs (mtree_of H zs)) \<subseteq> {0}"
  by (induction zs rule: mtree_of_ind) (simp_all add: mtree_of_Lf mtree_of_Nd)

lemma appendOne_astate:
  assumes st: "astate t P oldRoot H zs" and zs: "zs \<noteq> []" "length zs < 2 ^ 63"
    and fresh: "oldRoot \<notin> set (chain H (zs @ [y]) (length zs))"
  shows "\<exists>t' P'. appendOne H (of_nat (length zs)) (Some (last_addr P)) y t = Some (last_addr P', t') \<and>
     astate t' P' oldRoot H (zs @ [y])"
proof -
  let ?N = "mtree_of H zs" let ?n = "cursor t" let ?j = "Suc ?n"
  note N = leaves_mtree_of [OF zs(1), of H] hash_ok_mtree_of [OF zs(1), of H] canon_mtree_of [OF zs(1), of H]
  obtain c u where u: "?N = plug c u" "canon u" "length (leaves u) = 2 ^ tz (length zs)" "\<forall>f \<in> set c. \<not> fst f"
    and ins: "\<forall>u'. canon u' \<longrightarrow> length (leaves u') = Suc (length (leaves u)) \<longrightarrow> canon (plug c u')"
    using append_ctx [OF N(3)] N(1) by auto
  have P: "rep (store t) None P" "distinct (addrs P)" "fresh_heap t P" "\<not> listener t" "agr P (plug c u)"
    "rdepth P = rdepth (plug c u)" "MerkleRoot t = Some oldRoot" "\<exists>a \<in> set (addrs P). nodeMap t oldRoot = Some a"
    using st by (auto simp: astate_def u(1))
  obtain qc v where v: "P = plug qc v" "cagr qc c" "agr v u" "rdepth v = rdepth u" "\<forall>f \<in> set qc. \<not> fst f"
    using agr_spine [OF P(5,6) u(4)] by blast
  define hj where "hj = Hash H y (rhash v) Left"
  define t1 where "t1 = splice y hj (raddr v) (ctop qc) t"
  define t' where "t' = fold step_change ((?j, hj, hj) # changes H qc hj) t1"
  let ?v = "Nd ?j hj v (Lf ?n y)" let ?P = "plug (rehash H qc hj) ?v"
  let ?N' = "plug (rehash H c hj) (Nd 0 hj u (Lf 0 y))"
  have hu: "Hash H y (rhash u) Left = hj" using agr_rhash [OF v(3)] by (simp add: hj_def)
  note tree = append_tree [OF N(2,3,1) [unfolded u(1)] u(2,3,4) ins, where y = y, unfolded hu]
  have N': "?N' = mtree_of H (zs @ [y])"
  proof -
    have "set (addrs ?N') \<subseteq> {0}" using addrs_mtree_of [OF zs(1), of H] by (auto simp: set_addrs_plug u(1))
    then show ?thesis using mtree_of_unique [OF tree(1,2)] tree(3) by metis
  qed
  have rep1: "rep (store t1) None (plug qc ?v)"
    unfolding t1_def by (rule rep_splice) (use P v in simp_all)
  have lt: "\<forall>a \<in> set (caddrs qc) \<union> set (addrs v). a < ?n" using P(3) v(1) by (simp add: fresh_heap_def set_addrs_plug)
  have "a \<noteq> ?n \<and> a \<noteq> ?j" if "a \<in> set (caddrs qc) \<union> set (addrs v)" for a using bspec [OF lt that] by simp
  then have fr1: "?n \<notin> set (caddrs qc) \<union> set (addrs v)" "?j \<notin> set (caddrs qc) \<union> set (addrs v)" by blast+
  then have d1: "distinct (addrs (plug qc ?v))" using P(2) unfolding v(1) distinct_plug by auto
  note upd = updateNode_rep [OF rep1 d1, where H = H and nh = hj, simplified, folded fold_simps t'_def]
  have sz: "0 < length zs" using zs(1) by simp
  have "rdepth v = tz (length zs)" using v(4) rdepth_canon [OF u(2)] u(3) pc_mask [of "tz (length zs)"] by simp
  moreover have "rep (store t) (ctop qc) v" using P(1) v(1) by (simp add: rep_plug)
  ultimately have "climb t (tz (length zs)) (last_addr v) = Some (raddr v)" using climb_right by metis
  then have cl: "climb t (countOne (leastSignificantBit (of_nat (length zs)) - 1)) (last_addr P) = Some (raddr v)"
    using climb_depth [OF sz zs(2)] v(1) last_addr_plug [OF v(5)] by simp
  have "last_addr P \<in> set (addrs P)" using leaf_addrs_sub [of P] last_in_set leaf_addrs_nonempty by blast
  then have app: "appendOne H (of_nat (length zs)) (Some (last_addr P)) y t = Some (?n, t')"
    using appendOne_splice [of t qc v "of_nat (length zs)" "last_addr P" H y] P v cl upd sz zs(2) int64_of_nat_0
    by (simp add: Let_def t1_def t'_def flip: hj_def)
  have rt: "\<forall>f \<in> set (rehash H qc hj). \<not> fst f" "\<forall>f \<in> set (rehash H c hj). \<not> fst f"
  proof -
    have "\<forall>f \<in> set (rehash H c x). \<not> fst f" if "\<forall>f \<in> set c. \<not> fst f" for c x
      using that by (induction H c x rule: rehash.induct) auto
    then show "\<forall>f \<in> set (rehash H qc hj). \<not> fst f" "\<forall>f \<in> set (rehash H c hj). \<not> fst f" using v(5) u(4) by blast+
  qed
  have la: "last_addr ?P = ?n" using last_addr_plug [OF rt(1), of ?v] by simp
  have ag: "agr ?P ?N'" by (rule agr_plug [OF cagr_rehash [OF v(2)]]) (use v(3) in simp)
  have "length (rehash H c x) = length c" for c x by (induction H c x rule: rehash.induct) auto
  moreover have "length qc = length c" using v(2) by (induction qc c rule: cagr.induct) auto
  ultimately have rd: "rdepth ?P = rdepth ?N'" using rdepth_plug_right [OF rt(1)] rdepth_plug_right [OF rt(2)] by simp
  have lis: "\<not> listener t1" "cursor t1 = Suc ?j" "nodeMap t1 = (nodeMap t)(y \<mapsto> ?n, hj \<mapsto> ?j)" "MerkleRoot t1 = MerkleRoot t"
    using P(4) by (simp_all add: t1_def splice_def Let_def)
  have nm: "nodeMap t' = (nodeMap t)(y \<mapsto> ?n, hj \<mapsto> ?j)"
    using lis by (simp add: t'_def nodeMap_fold nodeMap_step_change frame)
  have ne: "oldRoot \<noteq> y" "oldRoot \<noteq> hj" using fresh unfolding tree(5) by auto
  have sa: "set (addrs ?P) = insert ?n (insert ?j (set (addrs P)))" by (auto simp: set_addrs_plug v(1))
  have "distinct (addrs ?P)" using d1 by (simp add: distinct_plug)
  moreover have "fresh_heap t' ?P"
    using P(3) sa lis(2) by (auto simp: fresh_heap_def t'_def frame intro: less_SucI)
  moreover have "\<exists>a \<in> set (addrs ?P). nodeMap t' oldRoot = Some a" using P(8) ne by (auto simp: sa nm)
  ultimately have "astate t' ?P oldRoot H (zs @ [y])"
    using upd ag rd lis P(7) N' by (simp add: astate_def t'_def frame)
  then show ?thesis using app la by metis
qed

fun fresh_root :: "hash_fun \<Rightarrow> MerkleHash \<Rightarrow> MerkleHash list \<Rightarrow> MerkleHash list \<Rightarrow> bool" where
  "fresh_root H r zs [] = True"
| "fresh_root H r zs (y # ys) = (r \<notin> set (chain H (zs @ [y]) (length zs)) \<and> fresh_root H r (zs @ [y]) ys)"

lemma appendLoop_astate:
  assumes "astate t P r H zs" "zs \<noteq> []" "length zs + length ys < 2 ^ 63" "fresh_root H r zs ys"
  shows "\<exists>t' P'. appendLoop H (of_nat (length zs)) (Some (last_addr P)) ys t =
     Some (of_nat (length (zs @ ys)), Some (last_addr P'), t') \<and> astate t' P' r H (zs @ ys)"
  using assms
proof (induction ys arbitrary: t P zs)
  case Nil
  then show ?case by auto
next
  case (Cons y ys)
  obtain t1 P1 where s1: "appendOne H (of_nat (length zs)) (Some (last_addr P)) y t = Some (last_addr P1, t1)"
      "astate t1 P1 r H (zs @ [y])"
    using appendOne_astate [OF Cons.prems(1,2), of y] Cons.prems(3,4) by fastforce
  show ?case using Cons.IH [OF s1(2)] s1(1) Cons.prems by (simp add: add.commute)
qed

lemma GetMerkleRoot_astate:
  assumes "astate t P r H zs" "zs \<noteq> []"
  shows "GetMerkleRoot t = Some (mth H zs)"
proof -
  obtain a where a: "a \<in> set (addrs P)" "nodeMap t r = Some a" and P: "rep (store t) None P" "MerkleRoot t = Some r" "agr P (mtree_of H zs)"
    using assms(1) by (auto simp: astate_def)
  show ?thesis using a climbRoot_rep [OF P(1) a(1)] rep_hash [OF P(1)] agr_rhash [OF P(3)] P(2) rhash_mtree_of [OF assms(2)]
    by (simp add: GetMerkleRoot_def)
qed

lemma leafPath_last: "xs \<noteq> [] \<Longrightarrow> leafPath H xs (length xs - 1) = zip (last_path H xs) (replicate (length (last_path H xs)) Left)"
proof (induction xs rule: mtree_of_ind)
  case (single x)
  then show ?case by (simp add: leafPath.simps last_path.simps)
next
  case (split xs)
  let ?k = "lp2 (length xs)" let ?l = "last_path H (drop ?k xs)"
  have k: "?k < length xs" using lp2_less [of "length xs"] split(1) by simp
  have lp: "last_path H xs = ?l @ [mth H (take ?k xs)]" using split(1) by (subst last_path.simps) (simp add: Let_def)
  have "replicate (length (?l @ [mth H (take ?k xs)])) Left = replicate (length ?l) Left @ [Left]"
    by (simp add: replicate_append_same)
  then have "zip (last_path H xs) (replicate (length (last_path H xs)) Left) = zip ?l (replicate (length ?l) Left) @ [(mth H (take ?k xs), Left)]"
    unfolding lp by (simp del: replicate_Suc)
  moreover have "leafPath H xs (length xs - 1) = leafPath H (drop ?k xs) (length (drop ?k xs) - 1) @ [(mth H (take ?k xs), Left)]"
  proof -
    have "\<not> length xs - 1 < ?k" "length xs - 1 - ?k = length (drop ?k xs) - 1" using k by auto
    then show ?thesis using split(1) by (subst leafPath.simps) (simp only: Let_def if_False)
  qed
  ultimately show ?case using split.IH(2) by simp
qed

lemma lastMerklePath_merklePathOf: "xs \<noteq> [] \<Longrightarrow> lastMerklePath H xs = merklePathOf H xs (length xs - 1)"
  using leafPath_last [of xs H] by (simp add: lastMerklePath_def merklePathOf_def last_conv_nth map_fst_zip map_snd_zip)

section \<open>Reachable delta trees\<close>

lemma ctx_list:
  assumes "length ys = length xs" "i < length xs" "distinct (subroots H xs)"
  obtains oc nc where "mtree_of H xs = plug oc (Lf 0 (xs ! i))" "mtree_of H ys = plug nc (Lf 0 (ys ! i))" "cshape oc nc"
     "cpath oc = leafPath H xs i" "cpath nc = leafPath H ys i" "length (cleaves_l nc) = i"
     "hash_ok H (plug oc (Lf 0 (xs ! i)))" "distinct (hashes (plug oc (Lf 0 (xs ! i))))"
proof -
  have ne: "xs \<noteq> []" using assms(2) by auto
  have "hashes (mtree_of H xs) = subroots H xs" using canon_hashes mtree_of_props ne by metis
  then have h: "hash_ok H (mtree_of H xs)" "distinct (hashes (mtree_of H xs))"
    using hash_ok_mtree_of [OF ne, of H] assms(3) by simp_all
  from leaf_ctx2 [OF assms(1) [symmetric] assms(2), of H]
  obtain oc nc where c: "mtree_of H xs = plug oc (Lf 0 (xs ! i))" "mtree_of H ys = plug nc (Lf 0 (ys ! i))" "cshape oc nc"
     "cpath oc = leafPath H xs i" "cpath nc = leafPath H ys i" "length (cleaves_l nc) = i"
    by (elim exE conjE) (rule that; assumption)
  show ?thesis by (rule that [OF c h [unfolded c(1)]])
qed

definition delta_inv :: "hash_fun \<Rightarrow> MerkleHash list \<Rightarrow> MerkleTree \<Rightarrow> MerkleHash list \<Rightarrow> bool" where
  "delta_inv H xs t ys \<longleftrightarrow> dinv t (mtree_of H xs) (mtree_of H ys) \<and> length ys = length xs \<and>
     (Size t \<noteq> UnknownSize \<longrightarrow>
        Size t = of_nat (length xs) \<and> lastNodeHash t = Some (last xs) \<and> nodeMap t (last xs) \<noteq> None)"

lemma SetSize_list:
  assumes d: "dinv t (mtree_of H xs) (mtree_of H ys)" and xs: "distinct (subroots H xs)" "length ys = length xs" "xs \<noteq> []" "length xs < 2 ^ 63"
    and sz: "Size t = UnknownSize"
  shows "\<exists>t'. SetSizeAndLastNodeMerklePath H (of_nat (length xs)) (lastMerklePath H xs) t = Some (Inr t') \<and>
     delta_inv H xs t' ys \<and> Size t' = of_nat (length xs)"
proof -
  let ?i = "length xs - 1"
  have i: "?i < length xs" "xs ! ?i = last xs" using xs(3) by (simp_all add: last_conv_nth)
  obtain oc nc where c: "mtree_of H xs = plug oc (Lf 0 (xs ! ?i))" "mtree_of H ys = plug nc (Lf 0 (ys ! ?i))" "cshape oc nc"
     "cpath oc = leafPath H xs ?i" "hash_ok H (plug oc (Lf 0 (xs ! ?i)))" "distinct (hashes (plug oc (Lf 0 (xs ! ?i))))"
    using ctx_list [OF xs(2) i(1) xs(1)] by blast
  have p: "lastMerklePath H xs = \<lparr>Hashes = xs ! ?i # map fst (cpath oc), ProofPath = map snd (cpath oc)\<rparr>"
    unfolding lastMerklePath_merklePathOf [OF xs(3)] merklePathOf_def c(4) ..
  have r: "MerkleRoot t = Some (mth H xs)" "\<not> listener t" using d rhash_mtree_of [OF xs(3), of H] by (auto simp: dinv_def)
  obtain t1 qc a where t1: "buildPartialTreeForOldMerklePath H (lastMerklePath H xs) t = Some t1"
      "dpart t1 (plug qc (Lf a (ys ! ?i))) (mtree_of H xs) (mtree_of H ys)" "cpart qc oc nc" "same_info t t1"
    using build_dinv [OF d [unfolded c(1,2)] c(3,5,6)] unfolding p c(1,2) by blast
  let ?t = "t1\<lparr>lastNodeHash := Some (last xs), Size := of_nat (length xs)\<rparr>"
  have dp: "dpart ?t (plug qc (Lf a (ys ! ?i))) (mtree_of H xs) (mtree_of H ys)"
    using t1(2) by (simp add: dpart_def fresh_heap_def)
  have p0: "part (Lf a (ys ! ?i)) (Lf 0 (xs ! ?i)) (Lf 0 (ys ! ?i))" by simp
  have "nodeMap t1 (last xs) = Some a"
    using dpart_lookup [OF t1(2), of "xs ! ?i" a] set_okeys_plug [OF t1(3) p0] i(2) by (simp add: c(1))
  moreover have "SetSizeAndLastNodeMerklePath H (of_nat (length xs)) (lastMerklePath H xs) t = Some (Inr ?t)"
    using sz r t1(1) VerifyLast_complete [OF xs(3,4)]
    by (simp add: SetSizeAndLastNodeMerklePath_def GetLeaf_def) (simp add: lastMerklePath_def)
  moreover have "dinv ?t (mtree_of H xs) (mtree_of H ys)"
    using dp t1(4) r rhash_mtree_of [OF xs(3), of H] by (auto simp: dinv_def same_info_def)
  ultimately show ?thesis using xs(2) by (auto simp: delta_inv_def)
qed

lemma delta_tree_inv:
  assumes "delta_tree H xs t ys" "xs \<noteq> []" "distinct (subroots H xs)" "length xs < 2 ^ 63"
  shows "delta_inv H xs t ys"
  using assms(1)
proof (induction rule: delta_tree.induct)
  case created
  then show ?case
    using rhash_mtree_of [OF assms(2), of H]
    by (simp add: delta_inv_def dinv_def NewDeltaMerkleTree_def newEmptyRAMMerkleTree_def)
next
  case (updated t ys i z t')
  have d: "dinv t (mtree_of H xs) (mtree_of H ys)" "length ys = length xs" using updated.IH by (simp_all add: delta_inv_def)
  have n: "dinv t' (mtree_of H xs) (mtree_of H (ys[i := z]))" "same_info t t'" "dom (nodeMap t) \<subseteq> dom (nodeMap t')"
    using deltaUpdateLeaf_list [OF d(1) assms(3) d(2) updated.hyps(3), of z] updated.hyps(2) by simp_all
  have "nodeMap t (last xs) \<noteq> None \<Longrightarrow> nodeMap t' (last xs) \<noteq> None" using n(3) by blast
  then show ?case using n(1,2) d(2) updated.IH by (simp add: delta_inv_def same_info_def)
next
  case (sized t ys t')
  have sz: "Size t = UnknownSize" using sized.hyps(2) by (simp add: SetSizeAndLastNodeMerklePath_def split: if_splits)
  have d: "dinv t (mtree_of H xs) (mtree_of H ys)" "length ys = length xs" using sized.IH by (simp_all add: delta_inv_def)
  show ?case using SetSize_list [OF d(1) assms(3) d(2) assms(2,4) sz] sized.hyps(2) by simp
qed

lemma Size_of_nat: "Size t = of_nat n \<Longrightarrow> n < 2 ^ 63 \<Longrightarrow> Size t \<noteq> UnknownSize"
  using UnknownSize_of_nat by simp

lemma cpath_sides: "map snd (cpath c) = map (\<lambda>f. side (fst f)) c"
  by (induction c) auto

lemma delta_inv_astate:
  assumes inv: "delta_inv H xs t ys" and xs: "xs \<noteq> []" "distinct (subroots H xs)" and sz: "Size t \<noteq> UnknownSize"
  shows "\<exists>P. astate t P (mth H xs) H ys \<and> nodeMap t (last xs) = Some (last_addr P)"
proof -
  let ?i = "length xs - 1" let ?O = "mtree_of H xs" let ?N = "mtree_of H ys"
  have i: "?i < length xs" "xs ! ?i = last xs" using xs(1) by (simp_all add: last_conv_nth)
  have d: "dinv t ?O ?N" "length ys = length xs" "nodeMap t (last xs) \<noteq> None" using inv sz by (auto simp: delta_inv_def)
  then obtain P where dp: "dpart t P ?O ?N" by (auto simp: dinv_def)
  then have P: "rep (store t) None P" "distinct (addrs P)" "fresh_heap t P" "part P ?O ?N" by (auto simp: dpart_def)
  obtain oc nc where c: "?O = plug oc (Lf 0 (xs ! ?i))" "?N = plug nc (Lf 0 (ys ! ?i))" "cshape oc nc"
     "hash_ok H (plug oc (Lf 0 (xs ! ?i)))" "distinct (hashes (plug oc (Lf 0 (xs ! ?i))))" "cpath nc = leafPath H ys ?i"
    using ctx_list [OF d(2) i(1) xs(2)] by blast
  obtain t1 qc a where t1: "buildPartialTreeForOldMerklePath H \<lparr>Hashes = xs ! ?i # map fst (cpath oc), ProofPath = map snd (cpath oc)\<rparr> t = Some t1"
      "dpart t1 (plug qc (Lf a (ys ! ?i))) ?O ?N" "cpart qc oc nc"
    using build_dinv [OF d(1) [unfolded c(1,2)] c(3-5)] unfolding c(1,2) by blast
  have ney: "ys \<noteq> []" using d(2) xs(1) by auto
  have tt: "t1 = t" using t1(1) d(3) i(2) by (auto simp: buildPartialTreeForOldMerklePath_def getOrCreateNode_def)
  have "map snd (leafPath H ys (length ys - 1)) = replicate (length (last_path H ys)) Left"
    using leafPath_last [of ys H] ney by (simp add: map_snd_zip)
  then have sd: "map snd (cpath nc) = replicate (length (last_path H ys)) Left" using c(6) d(2) by simp
  have rn: "\<forall>f \<in> set nc. \<not> fst f"
  proof
    fix f assume "f \<in> set nc"
    then have "side (fst f) \<in> set (map snd (cpath nc))"
      unfolding cpath_sides by (metis (mono_tags, lifting) image_eqI list.set_map)
    then show "\<not> fst f" unfolding sd by (auto split: if_splits)
  qed
  have "map fst qc = map fst nc" using t1(3) by (induction qc oc nc rule: cpart.induct) auto
  then have rq: "\<forall>f \<in> set qc. \<not> fst f" and lq: "length qc = length nc"
    using rn by (metis (no_types) in_set_conv_nth length_map nth_map nth_mem, metis length_map)
  let ?P = "plug qc (Lf a (ys ! ?i))"
  have dp1: "rep (store t) None ?P" "distinct (addrs ?P)" "fresh_heap t ?P" "part ?P ?O ?N" using t1(2) tt by (auto simp: dpart_def)
  have la: "last_addr ?P = a" using last_addr_plug [OF rq] by simp
  have rd: "rdepth ?P = rdepth ?N" using rdepth_plug_right [OF rq] rdepth_plug_right [OF rn] lq by (simp add: c(2))
  have p0: "part (Lf a (ys ! ?i)) (Lf 0 (xs ! ?i)) (Lf 0 (ys ! ?i))" by simp
  have "nodeMap t (last xs) = Some a"
    using dpart_lookup [OF t1(2), of "xs ! ?i" a] set_okeys_plug [OF t1(3) p0] i(2) tt by (simp add: c(1))
  moreover have "nodeMap t (mth H xs) = Some (raddr ?P)"
    using dpart_lookup [OF t1(2) okeys_root [OF dp1(4)]] tt rhash_mtree_of [OF xs(1), of H] by simp
  moreover have "MerkleRoot t = Some (mth H xs)" "\<not> listener t" using d(1) rhash_mtree_of [OF xs(1), of H] by (auto simp: dinv_def)
  ultimately have "astate t ?P (mth H xs) H ys"
    using dp1 rd part_agr [OF dp1(4)] unfolding astate_def by auto
  then show ?thesis using la \<open>nodeMap t (last xs) = Some a\<close> by metis
qed

section \<open>Properties\<close>

text \<open>C1. The root of a delta tree. Whatever leaves of the old ledger were updated, in any order and any
  number of times, each with the leaf's path in the old ledger, \<^verbatim>\<open>GetMerkleRoot\<close> is the reference root
  of the ledger with these updates applied, although the miner never sees the other leaves.\<close>

theorem delta_tree_root:
  assumes "delta_tree H xs t ys" "xs \<noteq> []" "distinct (subroots H xs)" "length xs < 2 ^ 63"
  shows "GetMerkleRoot t = Some (mth H ys)"
proof -
  have "delta_inv H xs t ys" by (rule delta_tree_inv [OF assms])
  then have d: "dinv t (mtree_of H xs) (mtree_of H ys)" "ys \<noteq> []" using assms(2) by (auto simp: delta_inv_def)
  then show ?thesis using GetMerkleRoot_dinv [OF d(1)] rhash_mtree_of [OF d(2)] by simp
qed

text \<open>C4. \<^verbatim>\<open>UpdateLeaf\<close> of a delta tree never panics and never refuses a path of the old ledger: it
  returns a tree that is again reachable, with that leaf replaced.\<close>

theorem deltaUpdateLeaf_total:
  assumes "delta_tree H xs t ys" "distinct (subroots H xs)" "length xs < 2 ^ 63" "i < length xs"
  shows "\<exists>t'. deltaUpdateLeaf H (merklePathOf H xs i) z t = Some (Inr t') \<and> delta_tree H xs t' (ys[i := z])"
proof -
  have "xs \<noteq> []" using assms(4) by auto
  then have "delta_inv H xs t ys" by (rule delta_tree_inv [OF assms(1) _ assms(2,3)])
  then obtain t' where "deltaUpdateLeaf H (merklePathOf H xs i) z t = Some (Inr t')"
    using deltaUpdateLeaf_list [of t H xs ys i z] assms(2,4) by (auto simp: delta_inv_def)
  then show ?thesis using delta_tree.updated [OF assms(1)] assms(4) by blast
qed

text \<open>C3. \<^verbatim>\<open>RefreshMerklePath\<close> turns the path of an unchanged leaf in the old ledger into its path in the
  ledger after the updates, which verifies against the root of the delta tree.\<close>

theorem RefreshMerklePath_correct:
  assumes "delta_tree H xs t ys" "distinct (subroots H xs)" "length xs < 2 ^ 63" "i < length xs" "ys ! i = xs ! i"
  shows "RefreshMerklePath H (merklePathOf H xs i) t = Some (Inr (merklePathOf H ys i)) \<and>
     (\<exists>r. GetMerkleRoot t = Some r \<and> path_Verify H (merklePathOf H ys i) r = Inr ())"
proof -
  have ne: "xs \<noteq> []" using assms(4) by auto
  then have "delta_inv H xs t ys" by (rule delta_tree_inv [OF assms(1) _ assms(2,3)])
  then have d: "dinv t (mtree_of H xs) (mtree_of H ys)" "length ys = length xs" by (auto simp: delta_inv_def)
  then have ney: "ys \<noteq> []" using ne by auto
  obtain oc nc where c: "mtree_of H xs = plug oc (Lf 0 (xs ! i))" "mtree_of H ys = plug nc (Lf 0 (ys ! i))" "cshape oc nc"
     "cpath oc = leafPath H xs i" "cpath nc = leafPath H ys i"
     "hash_ok H (plug oc (Lf 0 (xs ! i)))" "distinct (hashes (plug oc (Lf 0 (xs ! i))))"
    using ctx_list [OF d(2) assms(4,2)] by blast
  have "RefreshMerklePath H (merklePathOf H xs i) t = Some (Inr (merklePathOf H ys i))"
    using Refresh_dinv [OF d(1) [unfolded c(1,2) assms(5)] c(3,6,7)]
    unfolding merklePathOf_def c(4,5) assms(5) .
  moreover have "path_Verify H (merklePathOf H ys i) (mth H ys) = Inr ()"
    using fold_cpath [of H nc "Lf 0 (ys ! i)"] hash_ok_mtree_of [OF ney, of H] rhash_mtree_of [OF ney, of H]
    unfolding c(2) [symmetric] by (simp add: path_Verify_Inr merklePathOf_def flip: c(5))
  ultimately show ?thesis using GetMerkleRoot_dinv [OF d(1)] rhash_mtree_of [OF ney] by simp
qed

text \<open>C2. \<^verbatim>\<open>Append\<close> of a delta tree whose size and last path are set: it returns and \<^verbatim>\<open>GetMerkleRoot\<close> becomes
  the reference root of the updated leaves followed by the appended ones, as if the whole ledger had
  been there. The hypothesis on hashes is that the old root does not reappear among the new hashes.\<close>

theorem deltaAppend_correct:
  assumes "delta_tree H xs t ys" "xs \<noteq> []" "distinct (subroots H xs)" "Size t \<noteq> UnknownSize"
    and "zs \<noteq> []" "length xs + length zs < 2 ^ 63" "fresh_root H (mth H xs) ys zs"
  shows "\<exists>t'. deltaAppend H zs t = Some (Inr t') \<and> Size t' = of_nat (length xs + length zs) \<and>
     GetMerkleRoot t' = Some (mth H (ys @ zs))"
proof -
  have lx: "length xs < 2 ^ 63" using assms(6) by simp
  have inv: "delta_inv H xs t ys" by (rule delta_tree_inv [OF assms(1-3) lx])
  then obtain P where P: "astate t P (mth H xs) H ys" "nodeMap t (last xs) = Some (last_addr P)"
    using delta_inv_astate [OF _ assms(2,3,4)] by blast
  have sz: "Size t = of_nat (length ys)" "lastNodeHash t = Some (last xs)" "length ys = length xs" "ys \<noteq> []"
    using inv assms(2,4) by (auto simp: delta_inv_def)
  have ly: "length ys + length zs < 2 ^ 63" using assms(6) sz(3) by simp
  obtain t1 P1 where l: "appendLoop H (of_nat (length ys)) (Some (last_addr P)) zs t =
      Some (of_nat (length (ys @ zs)), Some (last_addr P1), t1)" "astate t1 P1 (mth H xs) H (ys @ zs)"
    using appendLoop_astate [OF P(1) sz(4) ly assms(7)] by blast
  have pos: "0 <s Size t" using sless_of_nat [of "length ys"] sz lx assms(2) by simp
  have "rep (store t1) None P1" using l(2) by (simp add: astate_def)
  then obtain h where h: "getHash t1 (last_addr P1) = Some h" using rep_entry [OF _ last_entry] by blast
  let ?t = "t1\<lparr>Size := of_nat (length (ys @ zs)), lastNodeHash := Some h\<rparr>"
  have "merkleAppend H zs t = Some (Inr ?t)"
    using pos assms(4) P(2) sz(1,2) l(1) h by (simp add: merkleAppend_def)
  moreover have "astate ?t P1 (mth H xs) H (ys @ zs)" using l(2) by (simp add: astate_def fresh_heap_def)
  ultimately show ?thesis
    using GetMerkleRoot_astate [of ?t P1 "mth H xs" H "ys @ zs"] sz(3,4) by (simp add: deltaAppend_def)
qed

text \<open>C5. A miner and a storage node agree. Where a delta tree over the leaves \<open>xs\<close> took them to \<open>ys\<close> and a
  full tree holds \<open>ys\<close>, the two roots are equal, whatever the two histories of updates were.\<close>

theorem delta_tree_full_tree:
  assumes "delta_tree H xs t ys" "full_tree H ft ys" "xs \<noteq> []" "distinct (subroots H xs)" "length xs < 2 ^ 63"
  shows "GetMerkleRoot t = MerkleRoot ft"
proof -
  have "delta_inv H xs t ys" by (rule delta_tree_inv [OF assms(1,3-5)])
  then have d: "dinv t (mtree_of H xs) (mtree_of H ys)" "ys \<noteq> []" using assms(3) by (auto simp: delta_inv_def)
  then show ?thesis
    using GetMerkleRoot_dinv [OF d(1)] rhash_mtree_of [OF d(2)] full_inv_root [OF full_tree_inv [OF assms(2)]] d(2) by simp
qed

section \<open>Witnesses\<close>

text \<open>A delta tree over three one-byte leaves, with the identity as hash: the second leaf is replaced and
  the size is set.\<close>

lemma id_subroots: "distinct (subroots (\<lambda>m. m) [[1], [2], [3]])"
  by code_simp

lemma id_delta:
  "\<exists>t. delta_tree (\<lambda>m. m) [[1], [2], [3]] t [[1], [9], [3]] \<and> Size t = 3"
proof -
  let ?xs = "[[1], [2], [3]] :: MerkleHash list" and ?H = "\<lambda>m. m"
  let ?t = "NewDeltaMerkleTree (mth ?H ?xs)"
  have inv: "delta_inv ?H ?xs t ys" if "delta_tree ?H ?xs t ys" for t ys
    using delta_tree_inv [OF that _ id_subroots] by simp
  have c: "delta_tree ?H ?xs ?t ?xs" by (rule delta_tree.created)
  then obtain t1 where t1: "SetSizeAndLastNodeMerklePath ?H (of_nat (length ?xs)) (lastMerklePath ?H ?xs) ?t = Some (Inr t1)"
      "delta_inv ?H ?xs t1 ?xs" "Size t1 = of_nat (length ?xs)"
    using SetSize_list [of ?t ?H ?xs ?xs] inv [OF c] id_subroots by (auto simp: delta_inv_def NewDeltaMerkleTree_def)
  then have s: "delta_tree ?H ?xs t1 ?xs" using delta_tree.sized [OF c] by blast
  obtain t2 where t2: "deltaUpdateLeaf ?H (merklePathOf ?H ?xs 1) [9] t1 = Some (Inr t2)" "same_info t1 t2"
    using deltaUpdateLeaf_list [of t1 ?H ?xs ?xs 1 "[9]"] t1(2) id_subroots by (auto simp: delta_inv_def)
  have "delta_tree ?H ?xs t2 (?xs[1 := [9]])" by (rule delta_tree.updated [OF s t2(1)]) simp
  then show ?thesis using t2(2) t1(3) by (auto simp: same_info_def)
qed

theorem delta_tree_root_witness:
  "\<exists>t. delta_tree (\<lambda>m. m) [[1], [2], [3]] t [[1], [9], [3]] \<and> GetMerkleRoot t = Some (mth (\<lambda>m. m) [[1], [9], [3]])"
  using id_delta delta_tree_root [OF _ _ id_subroots] by fastforce

theorem deltaUpdateLeaf_total_witness:
  "\<exists>t t'. deltaUpdateLeaf (\<lambda>m. m) (merklePathOf (\<lambda>m. m) [[1], [2], [3]] 0) [7] t = Some (Inr t') \<and>
     delta_tree (\<lambda>m. m) [[1], [2], [3]] t' [[7], [9], [3]]"
  using id_delta deltaUpdateLeaf_total [OF _ id_subroots, of _ _ 0 "[7]"] by fastforce

theorem RefreshMerklePath_correct_witness:
  "\<exists>t. RefreshMerklePath (\<lambda>m. m) (merklePathOf (\<lambda>m. m) [[1], [2], [3]] 0) t = Some (Inr (merklePathOf (\<lambda>m. m) [[1], [9], [3]] 0))"
  using id_delta RefreshMerklePath_correct [OF _ id_subroots, of _ _ 0] by fastforce

theorem deltaAppend_correct_witness:
  "\<exists>t t'. deltaAppend (\<lambda>m. m) [[4], [5]] t = Some (Inr t') \<and>
     GetMerkleRoot t' = Some (mth (\<lambda>m. m) [[1], [9], [3], [4], [5]])"
proof -
  obtain t where t: "delta_tree (\<lambda>m. m) [[1], [2], [3]] t [[1], [9], [3]]" "Size t = 3" using id_delta by blast
  have f: "fresh_root (\<lambda>m. m) (mth (\<lambda>m. m) [[1], [2], [3]]) [[1], [9], [3]] [[4], [5]]" by code_simp
  have "Size t \<noteq> UnknownSize" using t(2) by (simp add: UnknownSize_def)
  from deltaAppend_correct [OF t(1) _ id_subroots this _ _ f] show ?thesis by auto
qed

theorem delta_tree_full_tree_witness:
  "\<exists>t ft. delta_tree (\<lambda>m. m) [[1], [2], [3]] t [[1], [9], [3]] \<and> full_tree (\<lambda>m. m) ft [[1], [9], [3]] \<and>
     GetMerkleRoot t = MerkleRoot ft"
proof -
  have "distinct (subroots (\<lambda>m. m) [[1], [9], [3]])" by code_simp
  then obtain ft where "full_tree (\<lambda>m. m) ft [[1], [9], [3]]"
    using NewFullMerkleTree_inv [of "[[1], [9], [3]]" "\<lambda>m. m"] full_tree.created by fastforce
  then show ?thesis using id_delta delta_tree_full_tree [OF _ _ _ id_subroots] by fastforce
qed

end
