(* ===== verification/RlpEncode.thy ===== *)
theory RlpEncode
  imports Prelude
begin

text \<open>
  \<^verbatim>\<open>base/rlp/encode.go\<close> and \<^verbatim>\<open>typecache.go\<close>: the RLP writer. The Go code is driven by reflection; here
  a Go type is a value of \<open>ty\<close>, a Go value is a \<open>val\<close>, and the writer that \<^verbatim>\<open>makeWriter\<close> returns for a type is
  \<open>writer\<close> applied to it. The encode buffer keeps list headers apart from the string data, as the code does,
  and the last section shows that what it assembles is the recursive encoding \<open>enc\<close>.
\<close>

unbundle bit_operations_syntax

section \<open>Definitions\<close>

datatype rlp_error =
    ErrEndOfLine | ErrExpectedString | ErrExpectedList | ErrCanonInt | ErrCanonSize | ErrElemTooLarge
  | ErrValueTooLarge | ErrMoreThanOneValue | errNotInList | errNotAtEOL | errUintOverflow
  | EOF | ErrUnexpectedEOF
  | NotSerializable | BadTag string | NegativeBigInt | InvalidBool "64 word"
  | DecodeError string
  | IndexOutOfRange | ReflectPanic

text \<open>The struct tags, and the types that the reflection of the code tells apart. A struct is the list of
  its exported fields; \<open>OtherT\<close> stands for the kinds without an encoding (floats, maps, channels, functions).\<close>

record tags =
  nilOK :: bool
  tail :: bool
  ignored :: bool

definition no_tags :: tags where
  "no_tags = \<lparr>nilOK = False, tail = False, ignored = False\<rparr>"

datatype ty =
    RawT | BigIntPtrT | BigIntT | UintT nat | IntT nat | BoolT | StringT | BytesT | ByteArrayT nat
  | SliceT ty | ArrayT nat ty | StructT "(tags \<times> ty) list" | PtrT ty | OtherT

datatype val =
    BytesV bytes | BigV int | UintV "64 word" | IntV "64 word" | BoolV bool
  | ListV "val list" | PtrV "val option"

text \<open>\<^verbatim>\<open>putint\<close> writes the least number of bytes; the result is the bytes written.\<close>

definition putint :: "64 word \<Rightarrow> bytes" where
  "putint i =
    (if i < push_bit 8 1 then [ucast i]
     else if i < push_bit 16 1 then [ucast (drop_bit 8 i), ucast i]
     else if i < push_bit 24 1 then [ucast (drop_bit 16 i), ucast (drop_bit 8 i), ucast i]
     else if i < push_bit 32 1 then
       [ucast (drop_bit 24 i), ucast (drop_bit 16 i), ucast (drop_bit 8 i), ucast i]
     else if i < push_bit 40 1 then
       [ucast (drop_bit 32 i), ucast (drop_bit 24 i), ucast (drop_bit 16 i), ucast (drop_bit 8 i), ucast i]
     else if i < push_bit 48 1 then
       [ucast (drop_bit 40 i), ucast (drop_bit 32 i), ucast (drop_bit 24 i), ucast (drop_bit 16 i),
        ucast (drop_bit 8 i), ucast i]
     else if i < push_bit 56 1 then
       [ucast (drop_bit 48 i), ucast (drop_bit 40 i), ucast (drop_bit 32 i), ucast (drop_bit 24 i),
        ucast (drop_bit 16 i), ucast (drop_bit 8 i), ucast i]
     else
       [ucast (drop_bit 56 i), ucast (drop_bit 48 i), ucast (drop_bit 40 i), ucast (drop_bit 32 i),
        ucast (drop_bit 24 i), ucast (drop_bit 16 i), ucast (drop_bit 8 i), ucast i])"

function intsize_from :: "nat \<Rightarrow> 64 word \<Rightarrow> nat" where
  "intsize_from sz i = (let i = drop_bit 8 i in if i = 0 then sz else intsize_from (sz + 1) i)"
  by pat_completeness auto
termination
proof (relation "measure (\<lambda>(_, i). unat i)", goal_cases)
  case (2 sz i x)
  then have "unat (drop_bit 8 i) \<noteq> 0" by (simp add: unat_eq_zero)
  then have "0 < unat i div 256" by (simp add: drop_bit_eq_div unat_div)
  then have "unat i div 256 < unat i" by (cases "unat i = 0") auto
  then show ?case using 2 by (simp add: drop_bit_eq_div unat_div)
qed simp

declare intsize_from.simps [simp del]

definition intsize :: "64 word \<Rightarrow> nat" where
  "intsize i = intsize_from 1 i"

definition headsize :: "64 word \<Rightarrow> nat" where
  "headsize sz = (if sz < 56 then 1 else 1 + intsize sz)"

definition puthead :: "byte \<Rightarrow> byte \<Rightarrow> 64 word \<Rightarrow> bytes" where
  "puthead smalltag largetag sz =
     (if sz < 56 then [smalltag + ucast sz]
      else let b = putint sz in (largetag + of_nat (length b)) # b)"

text \<open>The encode buffer. \<^verbatim>\<open>sizebuf\<close>, the scratch buffer of nine bytes, is only visible through its length.\<close>

record listhead =
  offset :: nat
  lhd_size :: nat

record encbuf =
  str :: bytes
  lheads :: "listhead list"
  lhsize :: nat

definition sizebuf_len :: nat where
  "sizebuf_len = 9"

definition encbuf_reset :: encbuf where
  "encbuf_reset = \<lparr>str = [], lheads = [], lhsize = 0\<rparr>"

definition head_encode :: "listhead \<Rightarrow> bytes" where
  "head_encode head = puthead 0xC0 0xF7 (of_nat (lhd_size head))"

definition encbuf_size :: "encbuf \<Rightarrow> nat" where
  "encbuf_size w = length (str w) + lhsize w"

definition put :: "bytes \<Rightarrow> encbuf \<Rightarrow> encbuf" where
  "put b w = w\<lparr>str := str w @ b\<rparr>"

definition encodeStringHeader :: "nat \<Rightarrow> encbuf \<Rightarrow> encbuf" where
  "encodeStringHeader sz w =
     (if sz < 56 then put [0x80 + of_nat sz] w
      else let b = putint (of_nat sz) in put ((0xB7 + of_nat (length b)) # b) w)"

definition encodeString :: "bytes \<Rightarrow> encbuf \<Rightarrow> encbuf" where
  "encodeString b w =
     (if length b = 1 \<and> hd b \<le> 0x7F then put [hd b] w else put b (encodeStringHeader (length b) w))"

text \<open>\<^verbatim>\<open>list\<close> returns a pointer to the new header, here its index in \<^verbatim>\<open>lheads\<close>; \<^verbatim>\<open>listEnd\<close> fixes its size.\<close>

definition encbuf_list :: "encbuf \<Rightarrow> nat \<times> encbuf" where
  "encbuf_list w =
     (length (lheads w), w\<lparr>lheads := lheads w @ [\<lparr>offset = length (str w), lhd_size = lhsize w\<rparr>]\<rparr>)"

definition listEnd :: "nat \<Rightarrow> encbuf \<Rightarrow> encbuf" where
  "listEnd lh w =
     (let head = lheads w ! lh;
          sz = encbuf_size w - offset head - lhd_size head;
          w = w\<lparr>lheads := (lheads w)[lh := head\<lparr>lhd_size := sz\<rparr>]\<rparr>
      in if sz < 56 then w\<lparr>lhsize := lhsize w + 1\<rparr>
         else w\<lparr>lhsize := lhsize w + (1 + intsize (of_nat sz))\<rparr>)"

definition writeUint :: "64 word \<Rightarrow> encbuf \<Rightarrow> encbuf" where
  "writeUint i w =
     (if i = 0 then put [0x80] w
      else if i < 128 then put [ucast i] w
      else let b = putint i in put ((0x80 + of_nat (length b)) # b) w)"

text \<open>\<^verbatim>\<open>writeInt\<close> lets \<^verbatim>\<open>putint\<close> write behind the first two bytes of \<^verbatim>\<open>sizebuf\<close>: eight bytes do not fit there.\<close>

definition writeInt :: "64 word \<Rightarrow> encbuf \<Rightarrow> rlp_error + encbuf" where
  "writeInt i w =
     (if i = 0 then Inr (put [0x80] w)
      else
        (let sign = 0 <s i;
             abs = (if sign then i else - i);
             b = putint abs
         in if length b > sizebuf_len - 2 then Inl IndexOutOfRange
            else Inr (put ((0x80 + 1 + of_nat (length b)) # (if sign then 0x01 else 0x80) # b) w)))"

definition writeBool :: "bool \<Rightarrow> encbuf \<Rightarrow> encbuf" where
  "writeBool v w = put [if v then 0x01 else 0x80] w"

text \<open>\<^verbatim>\<open>big.Int.Bytes\<close>: the absolute value in big-endian order without leading zeros.\<close>

function big_Bytes :: "nat \<Rightarrow> bytes" where
  "big_Bytes n = (if n = 0 then [] else big_Bytes (n div 256) @ [of_nat n])"
  by pat_completeness auto
termination by (relation "measure id") auto

declare big_Bytes.simps [simp del]

definition writeBigInt :: "int \<Rightarrow> encbuf \<Rightarrow> rlp_error + encbuf" where
  "writeBigInt i w =
     (if i < 0 then Inl NegativeBigInt
      else if i = 0 then Inr (put [0x80] w)
      else Inr (encodeString (big_Bytes (nat i)) w))"

definition writeBigIntPtr :: "int option \<Rightarrow> encbuf \<Rightarrow> rlp_error + encbuf" where
  "writeBigIntPtr ptr w = (case ptr of None \<Rightarrow> Inr (put [0x80] w) | Some i \<Rightarrow> writeBigInt i w)"

definition writeBigIntNoPtr :: "int \<Rightarrow> encbuf \<Rightarrow> rlp_error + encbuf" where
  "writeBigIntNoPtr i w = writeBigInt i w"

definition writeRawValue :: "bytes \<Rightarrow> encbuf \<Rightarrow> encbuf" where
  "writeRawValue b w = put b w"

definition writeBytes :: "bytes \<Rightarrow> encbuf \<Rightarrow> encbuf" where
  "writeBytes b w = encodeString b w"

definition writeByteArray :: "bytes \<Rightarrow> encbuf \<Rightarrow> encbuf" where
  "writeByteArray b w = encodeString b w"

definition writeString :: "bytes \<Rightarrow> encbuf \<Rightarrow> encbuf" where
  "writeString s w =
     (if length s = 1 \<and> hd s \<le> 0x7F then put [hd s] w else put s (encodeStringHeader (length s) w))"

text \<open>The nil handler of \<^verbatim>\<open>makePtrWriter\<close>; its last case writes the zero value of the element type.\<close>

definition nilfunc :: "ty \<Rightarrow> (encbuf \<Rightarrow> rlp_error + encbuf) \<Rightarrow> encbuf \<Rightarrow> rlp_error + encbuf" where
  "nilfunc t write_zero w =
     (case t of
        ByteArrayT _ \<Rightarrow> Inr (put [0x80] w)
      | StructT _ \<Rightarrow> Inr (let (lh, w) = encbuf_list w in listEnd lh w)
      | ArrayT _ _ \<Rightarrow> Inr (let (lh, w) = encbuf_list w in listEnd lh w)
      | _ \<Rightarrow> write_zero w)"

text \<open>\<^verbatim>\<open>reflect.Zero\<close>.\<close>

fun zero_val :: "ty \<Rightarrow> val" where
  "zero_val (UintT _) = UintV 0"
| "zero_val (IntT _) = IntV 0"
| "zero_val BoolT = BoolV False"
| "zero_val BigIntT = BigV 0"
| "zero_val (ByteArrayT n) = BytesV (replicate n 0)"
| "zero_val (SliceT _) = ListV []"
| "zero_val (ArrayT n t) = ListV (replicate n (zero_val t))"
| "zero_val (StructT fs) = ListV (map (\<lambda>(_, t). zero_val t) fs)"
| "zero_val (PtrT _) = PtrV None"
| "zero_val BigIntPtrT = PtrV None"
| "zero_val _ = BytesV []"

text \<open>The writers, in the order of the cases of \<^verbatim>\<open>makeWriter\<close>. A value that does not fit the type cannot
  occur in Go; the last equation of each function stands for the panic of the reflection.\<close>

fun writer :: "ty \<Rightarrow> tags \<Rightarrow> val \<Rightarrow> encbuf \<Rightarrow> rlp_error + encbuf"
  and writerElems :: "ty \<Rightarrow> val list \<Rightarrow> encbuf \<Rightarrow> rlp_error + encbuf"
  and writerFields :: "(tags \<times> ty) list \<Rightarrow> val list \<Rightarrow> encbuf \<Rightarrow> rlp_error + encbuf" where
  "writer RawT ts v w = (case v of BytesV b \<Rightarrow> Inr (writeRawValue b w) | _ \<Rightarrow> Inl ReflectPanic)"
| "writer BigIntPtrT ts v w =
     (case v of PtrV None \<Rightarrow> writeBigIntPtr None w | PtrV (Some (BigV i)) \<Rightarrow> writeBigIntPtr (Some i) w | _ \<Rightarrow> Inl ReflectPanic)"
| "writer BigIntT ts v w = (case v of BigV i \<Rightarrow> writeBigIntNoPtr i w | _ \<Rightarrow> Inl ReflectPanic)"
| "writer (UintT n) ts v w = (case v of UintV i \<Rightarrow> Inr (writeUint i w) | _ \<Rightarrow> Inl ReflectPanic)"
| "writer (IntT n) ts v w = (case v of IntV i \<Rightarrow> writeInt i w | _ \<Rightarrow> Inl ReflectPanic)"
| "writer BoolT ts v w = (case v of BoolV b \<Rightarrow> Inr (writeBool b w) | _ \<Rightarrow> Inl ReflectPanic)"
| "writer StringT ts v w = (case v of BytesV s \<Rightarrow> Inr (writeString s w) | _ \<Rightarrow> Inl ReflectPanic)"
| "writer BytesT ts v w = (case v of BytesV b \<Rightarrow> Inr (writeBytes b w) | _ \<Rightarrow> Inl ReflectPanic)"
| "writer (ByteArrayT n) ts v w = (case v of BytesV b \<Rightarrow> Inr (writeByteArray b w) | _ \<Rightarrow> Inl ReflectPanic)"
| "writer (SliceT t) ts v w =
     (case v of
        ListV vs \<Rightarrow>
          if tail ts then writerElems t vs w
          else let (lh, w) = encbuf_list w in map_sum id (listEnd lh) (writerElems t vs w)
      | _ \<Rightarrow> Inl ReflectPanic)"
| "writer (ArrayT n t) ts v w =
     (case v of
        ListV vs \<Rightarrow>
          if tail ts then writerElems t vs w
          else let (lh, w) = encbuf_list w in map_sum id (listEnd lh) (writerElems t vs w)
      | _ \<Rightarrow> Inl ReflectPanic)"
| "writer (StructT fs) ts v w =
     (case v of
        ListV vs \<Rightarrow> let (lh, w) = encbuf_list w in map_sum id (listEnd lh) (writerFields fs vs w)
      | _ \<Rightarrow> Inl ReflectPanic)"
| "writer (PtrT t) ts v w =
     (case v of
        PtrV None \<Rightarrow> nilfunc t (writer t no_tags (zero_val t)) w
      | PtrV (Some v) \<Rightarrow> writer t no_tags v w
      | _ \<Rightarrow> Inl ReflectPanic)"
| "writer OtherT ts v w = Inl NotSerializable"
| "writerElems t [] w = Inr w"
| "writerElems t (v # vs) w = (case writer t no_tags v w of Inl err \<Rightarrow> Inl err | Inr w \<Rightarrow> writerElems t vs w)"
| "writerFields [] vs w = Inr w"
| "writerFields ((ts, t) # fs) vs w =
     (case vs of [] \<Rightarrow> Inl ReflectPanic
      | v # vs \<Rightarrow>
          if ignored ts then writerFields fs vs w
          else case writer t ts v w of Inl err \<Rightarrow> Inl err | Inr w \<Rightarrow> writerFields fs vs w)"

text \<open>\<^verbatim>\<open>genTypeInfo\<close> fails on a type without encoding and on a misplaced \<^verbatim>\<open>tail\<close> tag; \<open>typeinfo\<close> is that error.\<close>

fun typeinfo :: "ty \<Rightarrow> rlp_error option" and structFields :: "(tags \<times> ty) list \<Rightarrow> rlp_error option" where
  "typeinfo OtherT = Some NotSerializable"
| "typeinfo (SliceT t) = typeinfo t"
| "typeinfo (ArrayT n t) = typeinfo t"
| "typeinfo (PtrT t) = typeinfo t"
| "typeinfo (StructT fs) = structFields fs"
| "typeinfo _ = None"
| "structFields [] = None"
| "structFields ((ts, t) # fs) =
     (if tail ts \<and> fs \<noteq> [] then Some (BadTag ''must be on last field'')
      else if tail ts \<and> (case t of SliceT _ \<Rightarrow> False | BytesT \<Rightarrow> False | RawT \<Rightarrow> False | _ \<Rightarrow> True)
      then Some (BadTag ''field type is not slice'')
      else if ignored ts then structFields fs
      else case typeinfo t of Some err \<Rightarrow> Some err | None \<Rightarrow> structFields fs)"

definition encbuf_encode :: "ty \<Rightarrow> val \<Rightarrow> encbuf \<Rightarrow> rlp_error + encbuf" where
  "encbuf_encode t v w = (case typeinfo t of Some err \<Rightarrow> Inl err | None \<Rightarrow> writer t no_tags v w)"

text \<open>The loops of \<^verbatim>\<open>toBytes\<close> and \<^verbatim>\<open>toWriter\<close> over the headers: the string data before a header, the header,
  and at the end the rest of the string data. The first writes into a slice of the computed size, the second
  calls \<^verbatim>\<open>Write\<close>, which returns the number of bytes it took and an error.\<close>

fun toBytes_loop :: "bytes \<Rightarrow> listhead list \<Rightarrow> nat \<Rightarrow> bytes \<Rightarrow> bytes" where
  "toBytes_loop s [] strpos out = out @ drop strpos s"
| "toBytes_loop s (head # heads) strpos out =
     toBytes_loop s heads (strpos + (offset head - strpos))
       (out @ take (offset head - strpos) (drop strpos s) @ head_encode head)"

definition toBytes :: "encbuf \<Rightarrow> bytes" where
  "toBytes w =
     (let out = toBytes_loop (str w) (lheads w) 0 []
      in take (encbuf_size w) (out @ replicate (encbuf_size w - length out) 0))"

fun toWriter_loop ::
    "(bytes \<Rightarrow> 'w \<Rightarrow> nat \<times> 'e option \<times> 'w) \<Rightarrow> bytes \<Rightarrow> listhead list \<Rightarrow> nat \<Rightarrow> 'w \<Rightarrow> 'e option \<times> 'w" where
  "toWriter_loop Write s [] strpos out =
     (if strpos < length s then let (_, err, out) = Write (drop strpos s) out in (err, out) else (None, out))"
| "toWriter_loop Write s (head # heads) strpos out =
     (let (n, err, out) =
        (if offset head > strpos then Write (take (offset head - strpos) (drop strpos s)) out else (0, None, out))
      in if err \<noteq> None then (err, out)
         else
           let (_, err, out) = Write (head_encode head) out
           in if err \<noteq> None then (err, out) else toWriter_loop Write s heads (strpos + n) out)"

definition toWriter :: "(bytes \<Rightarrow> 'w \<Rightarrow> nat \<times> 'e option \<times> 'w) \<Rightarrow> encbuf \<Rightarrow> 'w \<Rightarrow> 'e option \<times> 'w" where
  "toWriter Write w out = toWriter_loop Write (str w) (lheads w) 0 out"

definition EncodeToBytes :: "ty \<Rightarrow> val \<Rightarrow> rlp_error + bytes" where
  "EncodeToBytes t v = map_sum id toBytes (encbuf_encode t v encbuf_reset)"

definition Encode ::
    "(bytes \<Rightarrow> 'w \<Rightarrow> nat \<times> 'e option \<times> 'w) \<Rightarrow> ty \<Rightarrow> val \<Rightarrow> 'w \<Rightarrow> rlp_error + ('e option \<times> 'w)" where
  "Encode Write t v out = map_sum id (\<lambda>eb. toWriter Write eb out) (encbuf_encode t v encbuf_reset)"

section \<open>Specification\<close>

text \<open>The encoding as a recursive function: the header of a string or list of \<open>n\<close> bytes, and the
  encoding of a value, without the buffer and without machine integers.\<close>

definition rlp_head :: "byte \<Rightarrow> byte \<Rightarrow> nat \<Rightarrow> bytes" where
  "rlp_head smalltag largetag n =
     (if n < 56 then [smalltag + of_nat n] else (largetag + of_nat (length (big_Bytes n))) # big_Bytes n)"

definition enc_string :: "bytes \<Rightarrow> bytes" where
  "enc_string b = (if length b = 1 \<and> hd b \<le> 0x7F then b else rlp_head 0x80 0xB7 (length b) @ b)"

definition enc_list :: "bytes \<Rightarrow> bytes" where
  "enc_list b = rlp_head 0xC0 0xF7 (length b) @ b"

definition enc_int :: "int \<Rightarrow> bytes" where
  "enc_int i =
     (if i = 0 then [0x80] else enc_string ((if 0 < i then 0x01 else 0x80) # big_Bytes (nat \<bar>i\<bar>)))"

fun enc :: "ty \<Rightarrow> tags \<Rightarrow> val \<Rightarrow> bytes"
  and encFields :: "(tags \<times> ty) list \<Rightarrow> val list \<Rightarrow> bytes" where
  "enc RawT ts v = (case v of BytesV b \<Rightarrow> b | _ \<Rightarrow> [])"
| "enc BigIntPtrT ts v = (case v of PtrV (Some (BigV i)) \<Rightarrow> enc_string (big_Bytes (nat i)) | _ \<Rightarrow> [0x80])"
| "enc BigIntT ts v = (case v of BigV i \<Rightarrow> enc_string (big_Bytes (nat i)) | _ \<Rightarrow> [])"
| "enc (UintT n) ts v = (case v of UintV i \<Rightarrow> enc_string (big_Bytes (unat i)) | _ \<Rightarrow> [])"
| "enc (IntT n) ts v = (case v of IntV i \<Rightarrow> enc_int (sint i) | _ \<Rightarrow> [])"
| "enc BoolT ts v = (case v of BoolV b \<Rightarrow> if b then [0x01] else [0x80] | _ \<Rightarrow> [])"
| "enc StringT ts v = (case v of BytesV s \<Rightarrow> enc_string s | _ \<Rightarrow> [])"
| "enc BytesT ts v = (case v of BytesV s \<Rightarrow> enc_string s | _ \<Rightarrow> [])"
| "enc (ByteArrayT n) ts v = (case v of BytesV s \<Rightarrow> enc_string s | _ \<Rightarrow> [])"
| "enc (SliceT t) ts v =
     (case v of ListV vs \<Rightarrow> (let b = concat (map (enc t no_tags) vs) in if tail ts then b else enc_list b) | _ \<Rightarrow> [])"
| "enc (ArrayT n t) ts v =
     (case v of ListV vs \<Rightarrow> (let b = concat (map (enc t no_tags) vs) in if tail ts then b else enc_list b) | _ \<Rightarrow> [])"
| "enc (StructT fs) ts v = (case v of ListV vs \<Rightarrow> enc_list (encFields fs vs) | _ \<Rightarrow> [])"
| "enc (PtrT t) ts v =
     (case v of
        PtrV None \<Rightarrow>
          (case t of ByteArrayT _ \<Rightarrow> [0x80] | StructT _ \<Rightarrow> [0xC0] | ArrayT _ _ \<Rightarrow> [0xC0] | _ \<Rightarrow> enc t no_tags (zero_val t))
      | PtrV (Some v) \<Rightarrow> enc t no_tags v
      | _ \<Rightarrow> [])"
| "enc OtherT ts v = []"
| "encFields [] vs = []"
| "encFields ((ts, t) # fs) vs =
     (case vs of [] \<Rightarrow> [] | v # vs \<Rightarrow> if ignored ts then encFields fs vs else enc t ts v @ encFields fs vs)"

section \<open>Integers and headers\<close>

lemma big_Bytes_0 [simp]: "big_Bytes 0 = []"
  by (simp add: big_Bytes.simps)

lemma big_Bytes_eq_Nil [simp]: "big_Bytes n = [] \<longleftrightarrow> n = 0"
  by (subst big_Bytes.simps) simp

lemma big_Bytes_be: "256 ^ k \<le> n \<Longrightarrow> n < 256 ^ Suc k \<Longrightarrow> big_Bytes n = be_bytes (Suc k) n"
proof (induction k arbitrary: n)
  case 0
  then show ?case by (simp add: big_Bytes.simps)
next
  case (Suc k)
  have "256 ^ k \<le> n div 256" "n div 256 < 256 ^ Suc k"
    using Suc.prems by (simp_all add: less_eq_div_iff_mult_less_eq div_less_iff_less_mult)
  then show ?case using Suc by (subst big_Bytes.simps) auto
qed

lemma length_big_Bytes_le: "n < 256 ^ k \<Longrightarrow> length (big_Bytes n) \<le> k"
proof (induction k arbitrary: n)
  case 0
  then show ?case by simp
next
  case (Suc k)
  have "n div 256 < 256 ^ k" using Suc.prems by (simp add: div_less_iff_less_mult)
  then show ?case using Suc.IH by (subst big_Bytes.simps) auto
qed

lemma be_val_big_Bytes [simp]: "be_val (big_Bytes n) = n"
proof (induction n rule: big_Bytes.induct)
  case (1 n)
  then show ?case by (cases "n = 0") (simp_all add: big_Bytes.simps [of n] unat_of_nat)
qed

lemma hd_big_Bytes: "0 < n \<Longrightarrow> hd (big_Bytes n) \<noteq> 0"
proof (induction n rule: big_Bytes.induct)
  case (1 n)
  show ?case
  proof (cases "n div 256 = 0")
    case True
    then have "n < 256" by (simp add: div_eq_0_iff)
    then have "unat (of_nat n :: byte) = n" by (simp add: unat_of_nat)
    then show ?thesis using 1 True by (subst big_Bytes.simps) (auto simp: unat_eq_zero [symmetric])
  next
    case False
    then show ?thesis using 1 by (subst big_Bytes.simps) (auto simp: hd_append)
  qed
qed

lemma big_Bytes_be_val: "bs \<noteq> [] \<Longrightarrow> hd bs \<noteq> 0 \<Longrightarrow> big_Bytes (be_val bs) = bs"
proof (induction bs rule: rev_induct)
  case Nil
  then show ?case by simp
next
  case (snoc b bs)
  have d: "(256 * be_val bs + unat b) div 256 = be_val bs" by simp
  have w: "(of_nat (256 * be_val bs + unat b) :: byte) = b"
  proof -
    have "(of_nat 256 :: byte) = 0" by simp
    then show ?thesis by (simp only: of_nat_add of_nat_mult) simp
  qed
  show ?case
  proof (cases "bs = []")
    case True
    with snoc.prems have "unat b \<noteq> 0" by (simp add: unat_eq_zero)
    then show ?thesis using True by (simp add: big_Bytes.simps be_val_def)
  next
    case False
    then have "hd bs \<noteq> 0" using snoc.prems by simp
    then have IH: "big_Bytes (be_val bs) = bs" using snoc.IH False by blast
    then have "be_val bs \<noteq> 0" using False big_Bytes_eq_Nil by metis
    then show ?thesis using IH d w by (subst big_Bytes.simps) simp
  qed
qed

lemma ucast_drop_bit: "(ucast (drop_bit k (i :: 64 word)) :: byte) = of_nat (unat i div 2 ^ k)"
proof -
  have "unat (drop_bit k i) = unat i div 2 ^ k" by (rule unat_drop_bit_eq [THEN trans]) (rule drop_bit_eq_div)
  then show ?thesis by (metis of_nat_unat)
qed

lemma putint_0 [simp]: "putint 0 = [0]"
  by (simp add: putint_def)

lemma be_bytes_list: "be_bytes k n = map (\<lambda>j. of_nat (n div 2 ^ (8 * j))) (rev [0..<k])"
proof (induction k arbitrary: n)
  case 0
  then show ?case by simp
next
  case (Suc k)
  have "n div 256 div 2 ^ (8 * j) = n div 2 ^ (8 * Suc j)" for j by (simp add: div_mult2_eq power_add)
  moreover have "rev [0..<Suc k] = map Suc (rev [0..<k]) @ [0]"
    by (metis map_Suc_upt rev_map rev.simps(2) upt_conv_Cons zero_less_Suc)
  ultimately show ?case using Suc by (simp del: upt_Suc)
qed

lemma putint_big: "i \<noteq> 0 \<Longrightarrow> putint i = big_Bytes (unat i)"
proof -
  assume "i \<noteq> 0"
  then have p: "256 ^ 0 \<le> unat i" by (simp add: Suc_le_eq unat_gt_0)
  have u: "unat i < 256 ^ 8" using unsigned_less [of i, where ?'a = nat] by simp
  have b: "big_Bytes (unat i) = map (\<lambda>j. of_nat (unat i div 2 ^ (8 * j))) (rev [0..<Suc k])"
    if "256 ^ k \<le> unat i" "unat i < 256 ^ Suc k" for k
    using that big_Bytes_be be_bytes_list by simp
  consider "unat i < 256 ^ 1" | "256 ^ 1 \<le> unat i" "unat i < 256 ^ 2" | "256 ^ 2 \<le> unat i" "unat i < 256 ^ 3"
    | "256 ^ 3 \<le> unat i" "unat i < 256 ^ 4" | "256 ^ 4 \<le> unat i" "unat i < 256 ^ 5" | "256 ^ 5 \<le> unat i" "unat i < 256 ^ 6"
    | "256 ^ 6 \<le> unat i" "unat i < 256 ^ 7" | "256 ^ 7 \<le> unat i" by linarith
  then show ?thesis
  proof cases
    case 1
    then show ?thesis using p b [of 0] by (simp add: putint_def word_less_nat_alt)
  next
    case 2
    then show ?thesis using b [of 1] by (simp add: putint_def word_less_nat_alt ucast_drop_bit)
  next
    case 3
    then show ?thesis using b [of 2] by (simp add: putint_def word_less_nat_alt ucast_drop_bit upt_rec)
  next
    case 4
    then show ?thesis using b [of 3] by (simp add: putint_def word_less_nat_alt ucast_drop_bit upt_rec)
  next
    case 5
    then show ?thesis using b [of 4] by (simp add: putint_def word_less_nat_alt ucast_drop_bit upt_rec)
  next
    case 6
    then show ?thesis using b [of 5] by (simp add: putint_def word_less_nat_alt ucast_drop_bit upt_rec)
  next
    case 7
    then show ?thesis using b [of 6] by (simp add: putint_def word_less_nat_alt ucast_drop_bit upt_rec)
  next
    case 8
    then show ?thesis using u b [of 7] by (simp add: putint_def word_less_nat_alt ucast_drop_bit upt_rec)
  qed
qed

lemma unat64_less: "unat (i :: 64 word) < 256 ^ 8"
  using unsigned_less [of i, where ?'a = nat] by simp

lemma intsize_from: "intsize_from s i = s + length (big_Bytes (unat i div 256))"
proof (induction s i rule: intsize_from.induct)
  case (1 s i)
  have d: "unat (drop_bit 8 i) = unat i div 256" by (simp add: unat_drop_bit_eq drop_bit_eq_div unat_div)
  show ?case
  proof (cases "drop_bit 8 i = 0")
    case True
    then have "unat i div 256 = 0" using d by simp
    then show ?thesis using True by (simp add: intsize_from.simps [of s i])
  next
    case False
    then have n: "unat i div 256 \<noteq> 0" using d by (metis unat_eq_zero)
    have "intsize_from s i = intsize_from (s + 1) (drop_bit 8 i)" using False by (subst intsize_from.simps) simp
    also have "\<dots> = s + 1 + length (big_Bytes (unat i div 256 div 256))"
      using "1.IH" [OF refl False] d by simp
    also have "\<dots> = s + length (big_Bytes (unat i div 256))"
      using n by (subst (2) big_Bytes.simps) simp
    finally show ?thesis .
  qed
qed

lemma intsize_eq: "i \<noteq> 0 \<Longrightarrow> intsize i = length (big_Bytes (unat i))"
  by (subst big_Bytes.simps) (simp add: intsize_def intsize_from unat_eq_zero)

lemma word_less_56: "(of_nat n :: 64 word) < 56 \<longleftrightarrow> n < 56" if "n < 2 ^ 64"
  using that by (simp add: word_less_nat_alt unat_of_nat)

lemma ucast_of_nat_64: "(ucast (of_nat n :: 64 word) :: byte) = of_nat n"
  by (simp add: word_unat_eq_iff unsigned_ucast_eq unsigned_of_nat)

lemma puthead_eq: "n < 2 ^ 64 \<Longrightarrow> puthead a b (of_nat n) = rlp_head a b n"
  using word_less_56 [of n] unat_of_nat [where ?'a = 64, of n]
  by (auto simp: puthead_def rlp_head_def putint_big Let_def unat_eq_zero [symmetric] ucast_of_nat_64)

lemma length_rlp_head: "n < 2 ^ 64 \<Longrightarrow> length (rlp_head a b n) = (if n < 56 then 1 else 1 + intsize (of_nat n))"
  using unat_of_nat [where ?'a = 64, of n] by (auto simp: rlp_head_def intsize_eq word_unat_eq_iff)

lemma headsize_eq: "n < 2 ^ 64 \<Longrightarrow> headsize (of_nat n) = length (rlp_head a b n)"
  by (simp add: headsize_def length_rlp_head word_less_56)

lemma encodeStringHeader_eq: "n < 2 ^ 64 \<Longrightarrow> encodeStringHeader n w = put (rlp_head 0x80 0xB7 n) w"
  using unat_of_nat [where ?'a = 64, of n]
  by (auto simp: encodeStringHeader_def rlp_head_def putint_big Let_def word_unat_eq_iff)

lemma put_put: "put b (put a w) = put (a @ b) w"
  by (simp add: put_def)

lemma encodeString_eq: "length b < 2 ^ 64 \<Longrightarrow> encodeString b w = put (enc_string b) w"
  by (cases b) (auto simp: encodeString_def enc_string_def encodeStringHeader_eq put_put)

lemma writeString_eq: "writeString s w = encodeString s w"
  by (simp add: writeString_def encodeString_def)

lemmas writer_helpers = writeRawValue_def writeBigIntPtr_def writeBigIntNoPtr_def writeBytes_def writeByteArray_def
  writeString_eq

lemma big_Bytes_byte: "0 < n \<Longrightarrow> n < 256 \<Longrightarrow> big_Bytes n = [of_nat n]"
  by (simp add: big_Bytes.simps)

lemma enc_string_1: "enc_string [b] = (if b \<le> 0x7F then [b] else [0x81, b])"
  by (simp add: enc_string_def rlp_head_def)

lemma enc_string_short: "length b < 56 \<Longrightarrow> length b \<noteq> 1 \<Longrightarrow> enc_string b = (0x80 + of_nat (length b)) # b"
  by (auto simp: enc_string_def rlp_head_def)

lemma of_nat_byte_le: "n < 256 \<Longrightarrow> (of_nat n :: byte) \<le> 0x7F \<longleftrightarrow> n < 128"
  by (auto simp: word_le_nat_alt unat_of_nat)

lemma writeUint_eq: "writeUint i w = put (enc_string (big_Bytes (unat i))) w"
proof -
  consider "i = 0" | "i \<noteq> 0" "unat i < 256" | "256 \<le> unat i" by linarith
  then show ?thesis
  proof cases
    case 1
    then show ?thesis by (simp add: writeUint_def enc_string_short)
  next
    case 2
    then have "big_Bytes (unat i) = [of_nat (unat i)]" using big_Bytes_byte by (simp add: unat_gt_0)
    then show ?thesis using 2 of_nat_byte_le [of "unat i"]
      by (simp add: writeUint_def putint_big enc_string_1 word_less_nat_alt)
  next
    case 3
    then have i: "i \<noteq> 0" "\<not> i < 128" by (auto simp: word_less_nat_alt)
    have "big_Bytes (unat i) = big_Bytes (unat i div 256) @ [of_nat (unat i)]"
      using i(1) by (subst big_Bytes.simps) (simp add: unat_eq_zero)
    moreover have "big_Bytes (unat i div 256) \<noteq> []" using 3 by (simp add: div_eq_0_iff)
    ultimately have "length (big_Bytes (unat i)) \<noteq> 1" by simp
    moreover have "length (big_Bytes (unat i)) < 56" using length_big_Bytes_le [OF unat64_less [of i]] by simp
    ultimately show ?thesis using i by (simp add: writeUint_def putint_big enc_string_short Let_def)
  qed
qed

lemma length_big_Bytes_gt: "256 ^ k \<le> n \<Longrightarrow> k < length (big_Bytes n)"
proof (induction k arbitrary: n)
  case 0
  then show ?case by simp
next
  case (Suc k)
  then have "256 ^ k \<le> n div 256" by (simp add: less_eq_div_iff_mult_less_eq)
  moreover from this have "0 < n" by (cases "n = 0") auto
  ultimately show ?case using Suc.IH by (subst big_Bytes.simps) auto
qed

lemma unat_abs_sint: "unat (if 0 <s i then i else - i) = nat \<bar>sint i\<bar>" for i :: "64 word"
proof -
  have b: "sint i < 2 ^ 63" "- (2 ^ 63) \<le> sint i" using sint_lt [of i] sint_ge [of i] by simp_all
  have s: "0 <s i \<longleftrightarrow> 0 < sint i" by (simp add: word_sless_alt)
  have u: "uint (of_int k :: 64 word) = k" if "0 \<le> k" "k < 2 ^ 64" for k using that by (simp add: uint_word_of_int)
  have "uint (if 0 <s i then i else - i) = \<bar>sint i\<bar>"
  proof (cases "0 < sint i")
    case True
    then show ?thesis using u [of "sint i"] b s by simp
  next
    case False
    then show ?thesis using u [of "- sint i"] b s by simp
  qed
  then show ?thesis by (metis unat_eq_nat_uint)
qed

lemma writeInt_eq:
  "writeInt i w = (if \<bar>sint i\<bar> < 2 ^ 56 then Inr (put (enc_int (sint i)) w) else Inl IndexOutOfRange)"
proof (cases "i = 0")
  case True
  then show ?thesis by (simp add: writeInt_def enc_int_def)
next
  case False
  let ?a = "if 0 <s i then i else - i" let ?n = "nat \<bar>sint i\<bar>"
  have b: "putint ?a = big_Bytes ?n" using False putint_big [of ?a] unat_abs_sint [of i] by (simp split: if_splits)
  have s: "sint i \<noteq> 0" "0 <s i \<longleftrightarrow> 0 < sint i" using False by (auto simp: word_sless_alt signed_eq_0_iff)
  show ?thesis
  proof (cases "\<bar>sint i\<bar> < 2 ^ 56")
    case True
    then have "length (big_Bytes ?n) \<le> 7" using length_big_Bytes_le [of ?n 7] by simp
    then show ?thesis using True b s False
      by (auto simp: writeInt_def enc_int_def enc_string_short sizebuf_len_def Let_def)
  next
    case neg: False
    then have "256 ^ 7 \<le> ?n" by simp
    then have "7 < length (big_Bytes ?n)" by (rule length_big_Bytes_gt)
    then show ?thesis using neg b False by (simp add: writeInt_def sizebuf_len_def Let_def)
  qed
qed

lemma writeBigInt_eq: "length (big_Bytes (nat i)) < 2 ^ 64 \<Longrightarrow> 0 \<le> i \<Longrightarrow> writeBigInt i w = Inr (put (enc_string (big_Bytes (nat i))) w)"
  by (auto simp: writeBigInt_def encodeString_eq enc_string_def rlp_head_def)

section \<open>The encode buffer implements the encoding\<close>

text \<open>What a writer adds to the buffer: string data and finished headers. \<open>weave\<close> puts the headers at
  their offsets, counted from \<open>off\<close>.\<close>

abbreviation head_bytes :: "listhead \<Rightarrow> bytes" where
  "head_bytes h \<equiv> rlp_head 0xC0 0xF7 (lhd_size h)"

fun weave :: "nat \<Rightarrow> bytes \<Rightarrow> listhead list \<Rightarrow> bytes" where
  "weave off s [] = s"
| "weave off s (h # hs) = take (offset h - off) s @ head_bytes h @ weave (offset h) (drop (offset h - off) s) hs"

fun heads_ok :: "nat \<Rightarrow> nat \<Rightarrow> listhead list \<Rightarrow> bool" where
  "heads_ok off n [] \<longleftrightarrow> off \<le> n"
| "heads_ok off n (h # hs) \<longleftrightarrow> off \<le> offset h \<and> lhd_size h < 2 ^ 64 \<and> heads_ok (offset h) n hs"

definition heads_len :: "listhead list \<Rightarrow> nat" where
  "heads_len hs = sum_list (map (\<lambda>h. length (head_bytes h)) hs)"

definition writes :: "encbuf \<Rightarrow> encbuf \<Rightarrow> bytes \<Rightarrow> bool" where
  "writes w w' b \<longleftrightarrow>
     (\<exists>s hs. str w' = str w @ s \<and> lheads w' = lheads w @ hs \<and> lhsize w' = lhsize w + heads_len hs \<and>
        heads_ok (length (str w)) (length (str w) + length s) hs \<and> weave (length (str w)) s hs = b)"

lemma heads_len_simps [simp]:
  "heads_len [] = 0" "heads_len (h # hs) = length (head_bytes h) + heads_len hs" "heads_len (hs @ hs') = heads_len hs + heads_len hs'"
  by (simp_all add: heads_len_def)

lemma heads_ok_le: "heads_ok off n hs \<Longrightarrow> off \<le> n"
  by (induction off n hs rule: heads_ok.induct) auto

lemma heads_ok_append: "heads_ok off n hs \<Longrightarrow> heads_ok n m hs' \<Longrightarrow> heads_ok off m (hs @ hs')"
proof (induction off n hs rule: heads_ok.induct)
  case (1 off n)
  then show ?case by (cases hs') auto
qed auto

lemma weave_skip: "heads_ok (off + length s) n hs \<Longrightarrow> weave off (s @ s') hs = s @ weave (off + length s) s' hs"
  by (cases hs) auto

lemma weave_append:
  "heads_ok off (off + length s) hs \<Longrightarrow> heads_ok (off + length s) n hs' \<Longrightarrow>
   weave off (s @ s') (hs @ hs') = weave off s hs @ weave (off + length s) s' hs'"
proof (induction hs arbitrary: off s)
  case Nil
  then show ?case using weave_skip by simp
next
  case (Cons h hs)
  let ?k = "offset h - off"
  have le: "?k \<le> length s" "off + ?k = offset h" using Cons.prems(1) heads_ok_le [of "offset h" "off + length s" hs] by auto
  have l: "offset h + length (drop ?k s) = off + length s" using le by simp
  show ?case using Cons.IH [of "offset h" "drop ?k s"] Cons.prems le unfolding l by simp
qed

lemma length_weave: "heads_ok off (off + length s) hs \<Longrightarrow> length (weave off s hs) = length s + heads_len hs"
proof (induction hs arbitrary: off s)
  case (Cons h hs)
  let ?k = "offset h - off"
  have le: "?k \<le> length s" "off + ?k = offset h" using Cons.prems(1) heads_ok_le [of "offset h" "off + length s" hs] by auto
  have l: "offset h + length (drop ?k s) = off + length s" using le by simp
  show ?case using Cons.IH [of "offset h" "drop ?k s"] Cons.prems le unfolding l by simp
qed simp

lemma writes_refl [simp]: "writes w w []"
  unfolding writes_def by (intro exI [of _ "[]"]) simp

lemma writes_put [simp]: "writes w (put b w) b"
  unfolding writes_def by (intro exI [of _ b] exI [of _ "[]"]) (simp add: put_def)

lemma writes_trans: "writes w w1 a \<Longrightarrow> writes w1 w2 b \<Longrightarrow> writes w w2 (a @ b)"
proof -
  assume "writes w w1 a" "writes w1 w2 b"
  then obtain s hs s' hs' where 1: "str w1 = str w @ s" "lheads w1 = lheads w @ hs" "lhsize w1 = lhsize w + heads_len hs"
      "heads_ok (length (str w)) (length (str w) + length s) hs" "weave (length (str w)) s hs = a"
    and 2: "str w2 = str w1 @ s'" "lheads w2 = lheads w1 @ hs'" "lhsize w2 = lhsize w1 + heads_len hs'"
      "heads_ok (length (str w1)) (length (str w1) + length s') hs'" "weave (length (str w1)) s' hs' = b"
    unfolding writes_def by blast
  show ?thesis unfolding writes_def
    using 1 2 heads_ok_append [OF 1(4), of "length (str w1) + length s'" hs'] weave_append [OF 1(4), of _ hs' s']
    by (intro exI [of _ "s @ s'"] exI [of _ "hs @ hs'"]) (auto simp: add.assoc)
qed

lemma writes_list:
  assumes "encbuf_list w = (lh, w1)" "writes w1 w2 b" "length b < 2 ^ 64"
  shows "writes w (listEnd lh w2) (enc_list b)"
proof -
  let ?h0 = "\<lparr>offset = length (str w), lhd_size = lhsize w\<rparr>"
  have w1: "lh = length (lheads w)" "str w1 = str w" "lheads w1 = lheads w @ [?h0]" "lhsize w1 = lhsize w"
    using assms(1) by (auto simp: encbuf_list_def)
  obtain s hs where 2: "str w2 = str w @ s" "lheads w2 = lheads w @ ?h0 # hs" "lhsize w2 = lhsize w + heads_len hs"
      "heads_ok (length (str w)) (length (str w) + length s) hs" "weave (length (str w)) s hs = b"
    using assms(2) w1 unfolding writes_def by auto
  let ?h = "\<lparr>offset = length (str w), lhd_size = length b\<rparr>"
  have sz: "encbuf_size w2 - length (str w) - lhsize w = length b"
    using 2 length_weave [OF 2(4)] by (simp add: encbuf_size_def)
  have "str (listEnd lh w2) = str w2" "lheads (listEnd lh w2) = lheads w @ ?h # hs"
    using 2(2) w1(1) sz by (auto simp: listEnd_def Let_def)
  moreover have "lhsize (listEnd lh w2) = lhsize w2 + length (rlp_head 0xC0 0xF7 (length b))"
    using 2(2) w1(1) sz length_rlp_head [OF assms(3)] by (auto simp: listEnd_def Let_def)
  ultimately show ?thesis unfolding writes_def
    using 2 assms(3) by (intro exI [of _ s] exI [of _ "?h # hs"]) (simp add: enc_list_def)
qed

lemma length_enc_string: "length b \<le> length (enc_string b)"
  by (simp add: enc_string_def)

lemma length_enc_list: "length b \<le> length (enc_list b)"
  by (simp add: enc_list_def)


lemma writes_encodeString: "length (enc_string b) < 2 ^ 64 \<Longrightarrow> writes w (encodeString b w) (enc_string b)"
  using encodeString_eq [of b w] length_enc_string [of b] by simp

lemma writes_writeBigInt: "writeBigInt i w = Inr w' \<Longrightarrow> length (enc_string (big_Bytes (nat i))) < 2 ^ 64 \<Longrightarrow> writes w w' (enc_string (big_Bytes (nat i)))"
  using writeBigInt_eq [of i w] length_enc_string [of "big_Bytes (nat i)"] by (auto simp: writeBigInt_def split: if_splits)

lemma writes_list_of:
  assumes "(let (lh, w) = encbuf_list w in map_sum id (listEnd lh) (f w)) = Inr w'"
    and "\<And>w1 w2. encbuf_list w = (length (lheads w), w1) \<Longrightarrow> f w1 = Inr w2 \<Longrightarrow> length b < 2 ^ 64 \<Longrightarrow> writes w1 w2 b"
    and "length (enc_list b) < 2 ^ 64"
  shows "writes w w' (enc_list b)"
proof -
  obtain w1 where w1: "encbuf_list w = (length (lheads w), w1)" by (simp add: encbuf_list_def)
  then obtain w2 where w2: "f w1 = Inr w2" "w' = listEnd (length (lheads w)) w2" using assms(1) by (cases "f w1") auto
  have "length b < 2 ^ 64" using assms(3) length_enc_list [of b] by simp
  then show ?thesis using writes_list [OF w1] assms(2) [OF w1 w2(1)] w2(2) by simp
qed

lemma writes_nil_list: "encbuf_list w = (lh, w1) \<Longrightarrow> writes w (listEnd lh w1) [0xC0]"
  using writes_list [of w lh w1 w1 "[]"] by (simp add: enc_list_def rlp_head_def)

lemma writes_writer:
  "writer t ts v w = Inr w' \<Longrightarrow> length (enc t ts v) < 2 ^ 64 \<Longrightarrow> writes w w' (enc t ts v)"
  "writerElems t vs w = Inr w' \<Longrightarrow> length (concat (map (enc t no_tags) vs)) < 2 ^ 64 \<Longrightarrow>
     writes w w' (concat (map (enc t no_tags) vs))"
  "writerFields fs vs w = Inr w' \<Longrightarrow> length (encFields fs vs) < 2 ^ 64 \<Longrightarrow> writes w w' (encFields fs vs)"
proof (induction t ts v w and t vs w and fs vs w arbitrary: w' and w' and w' rule: writer_writerElems_writerFields.induct)
  case (1 ts v w)
  then show ?case by (cases v) (auto simp: writer_helpers)
next
  case (2 ts v w)
  then show ?case by (auto split: val.splits option.splits simp: writer_helpers intro: writes_writeBigInt)
next
  case (3 ts v w)
  then show ?case by (cases v) (auto simp: writer_helpers intro: writes_writeBigInt)
next
  case (4 n ts v w)
  then show ?case by (cases v) (auto simp: writeUint_eq)
next
  case (5 n ts v w)
  then show ?case by (cases v) (auto simp: writeInt_eq split: if_splits)
next
  case (6 ts v w)
  then show ?case by (cases v) (auto simp: writeBool_def)
next
  case (7 ts v w)
  then show ?case by (cases v) (auto simp: writer_helpers intro: writes_encodeString)
next
  case (8 ts v w)
  then show ?case by (cases v) (auto simp: writer_helpers intro: writes_encodeString)
next
  case (9 n ts v w)
  then show ?case by (cases v) (auto simp: writer_helpers intro: writes_encodeString)
next
  case (10 t ts v w)
  then obtain vs where v: "v = ListV vs" by (cases v) auto
  show ?case
  proof (cases "tail ts")
    case True
    then show ?thesis using "10.IH"(1) [OF v True] "10.prems" v by simp
  next
    case False
    show ?thesis unfolding v using False "10.prems" v
      by (simp, intro writes_list_of [of w "writerElems t vs"]) (use False v in \<open>auto intro: "10.IH"(2)\<close>)
  qed
next
  case (11 n t ts v w)
  then obtain vs where v: "v = ListV vs" by (cases v) auto
  show ?case
  proof (cases "tail ts")
    case True
    then show ?thesis using "11.IH"(1) [OF v True] "11.prems" v by simp
  next
    case False
    show ?thesis unfolding v using False "11.prems" v
      by (simp, intro writes_list_of [of w "writerElems t vs"]) (use False v in \<open>auto intro: "11.IH"(2)\<close>)
  qed
next
  case (12 fs ts v w)
  then obtain vs where v: "v = ListV vs" by (cases v) auto
  show ?case unfolding v using "12.prems" v
    by (simp, intro writes_list_of [of w "writerFields fs vs"]) (use v in \<open>auto intro: "12.IH"\<close>)
next
  case (13 t ts v w)
  then obtain p where v: "v = PtrV p" by (cases v) auto
  show ?case
  proof (cases p)
    case None
    have l: "writes w (case encbuf_list w of (lh, w) \<Rightarrow> listEnd lh w) [0xC0]"
      by (cases "encbuf_list w") (simp add: writes_nil_list)
    have IH: "writer t no_tags (zero_val t) w = Inr w' \<Longrightarrow> length (enc t no_tags (zero_val t)) < 2 ^ 64 \<Longrightarrow>
        writes w w' (enc t no_tags (zero_val t))" using "13.IH"(1) v None by blast
    have n: "nilfunc t (writer t no_tags (zero_val t)) w = Inr w'" using "13.prems"(1) v None by simp
    show ?thesis using IH n "13.prems"(2) l v None
      by (cases t) (simp_all add: nilfunc_def del: writer.simps zero_val.simps, auto)
  next
    case (Some u)
    then show ?thesis using "13.IH" "13.prems" v by simp
  qed
next
  case (14 ts v w)
  then show ?case by simp
next
  case (15 t w)
  then show ?case by simp
next
  case (16 t v vs w)
  then obtain w1 where w1: "writer t no_tags v w = Inr w1" "writerElems t vs w1 = Inr w'"
    by (auto split: sum.splits)
  have "writes w w1 (enc t no_tags v)" using "16.IH"(1) [OF w1(1)] "16.prems"(2) by simp
  moreover have "writes w1 w' (concat (map (enc t no_tags) vs))" using "16.IH"(2) [OF w1] "16.prems"(2) by simp
  ultimately show ?case using writes_trans by simp
next
  case (17 vs w)
  then show ?case by simp
next
  case (18 ts t fs vs w)
  then obtain v vs' where vs: "vs = v # vs'" by (cases vs) auto
  show ?case
  proof (cases "ignored ts")
    case True
    then show ?thesis using "18.IH"(1) [OF vs True] "18.prems" vs by simp
  next
    case False
    then obtain w1 where w1: "writer t ts v w = Inr w1" "writerFields fs vs' w1 = Inr w'"
      using "18.prems"(1) vs by (auto split: sum.splits)
    have "writes w w1 (enc t ts v)" using "18.IH"(2) [OF vs False w1(1)] "18.prems"(2) False vs by simp
    moreover have "writes w1 w' (encFields fs vs')" using "18.IH"(3) [OF vs False w1] "18.prems"(2) False vs by simp
    ultimately show ?thesis using writes_trans False vs by simp
  qed
qed

lemma toBytes_loop_weave:
  "heads_ok strpos (length s) hs \<Longrightarrow> toBytes_loop s hs strpos out = out @ weave strpos (drop strpos s) hs"
proof (induction s hs strpos out rule: toBytes_loop.induct)
  case (2 s head heads strpos out)
  then have "strpos \<le> offset head" "offset head \<le> length s" "lhd_size head < 2 ^ 64" using heads_ok_le by auto
  then show ?case using 2 by (simp add: head_encode_def puthead_eq)
qed simp

lemma toBytes_eq: "writes encbuf_reset w b \<Longrightarrow> toBytes w = b"
proof -
  assume "writes encbuf_reset w b"
  then have w: "lhsize w = heads_len (lheads w)" "heads_ok 0 (length (str w)) (lheads w)" "weave 0 (str w) (lheads w) = b"
    by (auto simp: writes_def encbuf_reset_def)
  have "encbuf_size w = length b" using length_weave [of 0 "str w" "lheads w"] w by (simp add: encbuf_size_def)
  then show ?thesis using toBytes_loop_weave [OF w(2), of "[]"] w(3) by (simp add: toBytes_def)
qed

text \<open>A writer that takes everything, such as a \<^verbatim>\<open>bytes.Buffer\<close>.\<close>

definition buffer_Write :: "bytes \<Rightarrow> bytes \<Rightarrow> nat \<times> unit option \<times> bytes" where
  "buffer_Write b out = (length b, None, out @ b)"

lemma toWriter_loop_weave:
  "heads_ok strpos (length s) hs \<Longrightarrow> toWriter_loop buffer_Write s hs strpos out = (None, out @ weave strpos (drop strpos s) hs)"
proof (induction hs arbitrary: strpos out)
  case Nil
  then show ?case by (simp add: buffer_Write_def)
next
  case (Cons head heads)
  then have h: "strpos \<le> offset head" "offset head \<le> length s" "lhd_size head < 2 ^ 64" using heads_ok_le by auto
  then have n: "strpos + min (offset head - strpos) (length s - strpos) = offset head" by simp
  show ?case
  proof (cases "strpos < offset head")
    case True
    then show ?thesis using Cons h n by (simp add: buffer_Write_def head_encode_def puthead_eq)
  next
    case False
    then have "offset head = strpos" using h by simp
    then show ?thesis using Cons h by (simp add: buffer_Write_def head_encode_def puthead_eq)
  qed
qed

lemma toWriter_eq: "writes encbuf_reset w b \<Longrightarrow> toWriter buffer_Write w out = (None, out @ b)"
  using toWriter_loop_weave [of 0 "str w" "lheads w" out]
  by (auto simp: writes_def encbuf_reset_def toWriter_def)

lemma encbuf_encode_writes:
  "encbuf_encode t v encbuf_reset = Inr w \<Longrightarrow> length (enc t no_tags v) < 2 ^ 64 \<Longrightarrow> writes encbuf_reset w (enc t no_tags v)"
  using writes_writer(1) by (auto simp: encbuf_encode_def split: option.splits)

lemma EncodeToBytes_enc:
  "EncodeToBytes t v = Inr b \<Longrightarrow> length (enc t no_tags v) < 2 ^ 64 \<Longrightarrow> b = enc t no_tags v"
  using encbuf_encode_writes [of t v] toBytes_eq by (cases "encbuf_encode t v encbuf_reset") (auto simp: EncodeToBytes_def)

section \<open>Properties\<close>

text \<open>C26. The encode buffer implements the recursive definition of RLP: whatever value \<^verbatim>\<open>EncodeToBytes\<close>
  accepts, the bytes it returns are the reference encoding, and \<^verbatim>\<open>Encode\<close> writes the same bytes.\<close>

theorem EncodeToBytes_refines:
  assumes "EncodeToBytes t v = Inr b" "length (enc t no_tags v) < 2 ^ 64"
  shows "b = enc t no_tags v \<and> Encode buffer_Write t v out = Inr (None, out @ enc t no_tags v)"
proof -
  obtain w where w: "encbuf_encode t v encbuf_reset = Inr w"
    using assms(1) by (cases "encbuf_encode t v encbuf_reset") (auto simp: EncodeToBytes_def)
  have "writes encbuf_reset w (enc t no_tags v)" using encbuf_encode_writes [OF w assms(2)] .
  then show ?thesis using EncodeToBytes_enc [OF assms] toWriter_eq w by (simp add: Encode_def)
qed

text \<open>A struct of a round and a step, the second of them negative, and a byte string of 60 bytes.\<close>

definition sample_ty :: ty where
  "sample_ty = StructT [(no_tags, IntT 32), (no_tags, IntT 32), (no_tags, BytesT)]"

definition sample_val :: val where
  "sample_val = ListV [IntV 300, IntV (- 4), BytesV (replicate 60 7)]"

theorem EncodeToBytes_refines_witness:
  "Encode buffer_Write sample_ty sample_val [] = Inr (None, enc sample_ty no_tags sample_val) \<and>
   take 5 (enc sample_ty no_tags sample_val) = [0xF8, 0x45, 0x83, 0x01, 0x01]"
proof -
  let ?b = "enc sample_ty no_tags sample_val"
  have e: "EncodeToBytes sample_ty sample_val = Inr ?b" "length ?b = 71" "take 5 ?b = [0xF8, 0x45, 0x83, 0x01, 0x01]"
    by code_simp+
  have "length ?b < 2 ^ 64" using e(2) by simp
  then show ?thesis using EncodeToBytes_refines [OF e(1)] e(1,3) by simp
qed

text \<open>C27. The signed integers that MultiVAC added to RLP: \<^verbatim>\<open>writeInt\<close> leaves seven of the nine bytes of its
  scratch buffer to the absolute value, so that encoding an \<^verbatim>\<open>int64\<close> panics with an index out of range exactly from
  \<open>2 ^ 56\<close> on, in both directions; below that it returns the sign-and-magnitude encoding.\<close>

theorem EncodeToBytes_int64:
  "EncodeToBytes (IntT 64) (IntV i) =
     (if \<bar>sint i\<bar> < 2 ^ 56 then Inr (enc_int (sint i)) else Inl IndexOutOfRange)"
proof -
  have "writes encbuf_reset (put (enc_int (sint i)) encbuf_reset) (enc_int (sint i))" by simp
  then show ?thesis using toBytes_eq by (simp add: EncodeToBytes_def encbuf_encode_def writeInt_eq)
qed

end
