(* ===== verification/RlpDecode.thy ===== *)
theory RlpDecode
  imports RlpEncode
begin

text \<open>
  \<^verbatim>\<open>base/rlp/decode.go\<close>: the RLP decoder. A \<open>Stream\<close> reads from the bytes that are left of its input and keeps
  the cached header of the value ahead and the stack of lists it is in. Every operation returns its result or
  error together with the stream as it leaves it. Decoding starts from zero values, as after \<^verbatim>\<open>new\<close>.
\<close>

section \<open>Definitions\<close>

datatype Kind = Byte | String | List

record listpos =
  pos :: "64 word"
  lp_size :: "64 word"

text \<open>\<open>inp\<close> is what the reader still has; \<open>knd\<close> is \<^const>\<open>None\<close> where the code stores the kind \<open>-1\<close>.\<close>

record Stream =
  inp :: bytes
  remaining :: "64 word"
  limited :: bool
  knd :: "Kind option"
  vsize :: "64 word"
  byteval :: byte
  kinderr :: "rlp_error option"
  stack :: "listpos list"

type_synonym 'a decoder = "Stream \<Rightarrow> (rlp_error + 'a) \<times> Stream"

text \<open>Sequencing: an error ends the operation.\<close>

definition andThen :: "'a decoder \<Rightarrow> ('a \<Rightarrow> 'b decoder) \<Rightarrow> 'b decoder" where
  "andThen m f s = (case m s of (Inl err, s) \<Rightarrow> (Inl err, s) | (Inr a, s) \<Rightarrow> f a s)"

definition ok :: "'a \<Rightarrow> 'a decoder" where
  "ok a s = (Inr a, s)"

definition fail :: "rlp_error \<Rightarrow> 'a decoder" where
  "fail err s = (Inl err, s)"

definition rearm :: "Stream \<Rightarrow> Stream" where
  "rearm s = s\<lparr>knd := None\<rparr>"

text \<open>The stack grows at its end; \<open>tos\<close> is the last entry.\<close>

definition tos :: "Stream \<Rightarrow> listpos option" where
  "tos s = (if stack s = [] then None else Some (last (stack s)))"

definition advance :: "64 word \<Rightarrow> listpos list \<Rightarrow> listpos list" where
  "advance n st = butlast st @ [(last st)\<lparr>pos := pos (last st) + n\<rparr>]"

definition willRead :: "64 word \<Rightarrow> unit decoder" where
  "willRead n s =
     (let s = rearm s in
      case (case tos s of
              Some t \<Rightarrow> if n > lp_size t - pos t then Inl ErrElemTooLarge else Inr (s\<lparr>stack := advance n (stack s)\<rparr>)
            | None \<Rightarrow> Inr s) of
        Inl err \<Rightarrow> (Inl err, s)
      | Inr s \<Rightarrow>
          if limited s then
            if n > remaining s then (Inl ErrValueTooLarge, s) else (Inr (), s\<lparr>remaining := remaining s - n\<rparr>)
          else (Inr (), s))"

definition readByte :: "byte decoder" where
  "readByte = andThen (willRead 1) (\<lambda>_ s.
     case inp s of [] \<Rightarrow> (Inl ErrUnexpectedEOF, s) | b # bs \<Rightarrow> (Inr b, s\<lparr>inp := bs\<rparr>))"

text \<open>\<^verbatim>\<open>readFull\<close> fills a buffer of \<open>n\<close> bytes; a reader that ends early has been read up to its end.\<close>

definition readFull :: "nat \<Rightarrow> bytes decoder" where
  "readFull n = andThen (willRead (of_nat n)) (\<lambda>_ s.
     if length (inp s) < n then (Inl ErrUnexpectedEOF, s\<lparr>inp := []\<rparr>)
     else (Inr (take n (inp s)), s\<lparr>inp := drop n (inp s)\<rparr>))"

definition readUint :: "byte \<Rightarrow> 64 word decoder" where
  "readUint sz =
     (if sz = 0 then (\<lambda>s. (Inr 0, rearm s))
      else if sz = 1 then andThen readByte (\<lambda>b. ok (ucast b))
      else andThen (readFull (unat sz)) (\<lambda>b. if hd b = 0 then fail ErrCanonSize else ok (of_nat (be_val b))))"

text \<open>\<^verbatim>\<open>readInt\<close>: a sign byte, then the absolute value. The result of the conversion \<^verbatim>\<open>int64(...)\<close> is the same word.\<close>

definition readInt :: "byte \<Rightarrow> 64 word decoder" where
  "readInt sz =
     (if sz = 0 then (\<lambda>s. (Inr 0, rearm s))
      else if sz = 1 then (\<lambda>s. (Inl ErrCanonSize, rearm s))
      else andThen readByte (\<lambda>sign. andThen (readFull (unat sz - 1)) (\<lambda>b.
        if hd b = 0 then fail ErrCanonInt
        else let abs = of_nat (be_val b) in
             if sign = 0x01 then ok abs else if sign = 0x80 then ok (- abs) else ok 0)))"

definition readKind :: "(Kind \<times> 64 word) decoder" where
  "readKind s =
     (case readByte s of
        (Inl err, s) \<Rightarrow>
          (Inl (if stack s = [] \<and> (err = ErrUnexpectedEOF \<or> err = ErrValueTooLarge) then EOF else err), s)
      | (Inr b, s) \<Rightarrow>
          let s = s\<lparr>byteval := 0\<rparr> in
          if b < 0x80 then (Inr (Byte, 0), s\<lparr>byteval := b\<rparr>)
          else if b < 0xB8 then (Inr (String, ucast (b - 0x80)), s)
          else if b < 0xC0 then
            andThen (readUint (b - 0xB7)) (\<lambda>sz. if sz < 56 then fail ErrCanonSize else ok (String, sz)) s
          else if b < 0xF8 then (Inr (List, ucast (b - 0xC0)), s)
          else andThen (readUint (b - 0xF7)) (\<lambda>sz. if sz < 56 then fail ErrCanonSize else ok (List, sz)) s)"

text \<open>\<^verbatim>\<open>Kind\<close> reads the header of the next value unless it is cached. An error of \<^verbatim>\<open>readKind\<close> is kept in
  \<^verbatim>\<open>kinderr\<close> while the kind, which \<^verbatim>\<open>readKind\<close> returns together with the error, is stored too.\<close>

definition stream_Kind :: "(Kind \<times> 64 word) decoder" where
  "stream_Kind s =
     (case knd s of
        Some k \<Rightarrow> (case kinderr s of None \<Rightarrow> (Inr (k, vsize s), s) | Some err \<Rightarrow> (Inl err, s))
      | None \<Rightarrow>
          let s = s\<lparr>kinderr := None\<rparr>; t = tos s in
          if (case t of Some l \<Rightarrow> pos l = lp_size l | None \<Rightarrow> False) then (Inl ErrEndOfLine, s)
          else
            case readKind s of
              (Inl err, s) \<Rightarrow> (Inl err, s\<lparr>knd := Some Byte, kinderr := Some err\<rparr>)
            | (Inr (k, sz), s) \<Rightarrow>
                let s = s\<lparr>knd := Some k, vsize := sz\<rparr>;
                    err = (case tos s of
                             None \<Rightarrow> if limited s \<and> sz > remaining s then Some ErrValueTooLarge else None
                           | Some l \<Rightarrow> if sz > lp_size l - pos l then Some ErrElemTooLarge else None)
                in case err of
                     None \<Rightarrow> (Inr (k, sz), s)
                   | Some err \<Rightarrow> (Inl err, s\<lparr>kinderr := Some err\<rparr>))"

definition stream_Bytes :: "bytes decoder" where
  "stream_Bytes = andThen stream_Kind (\<lambda>(kind, sz) s.
     case kind of
       Byte \<Rightarrow> (Inr [byteval s], rearm s)
     | String \<Rightarrow> andThen (readFull (unat sz)) (\<lambda>b. if sz = 1 \<and> hd b < 128 then fail ErrCanonSize else ok b) s
     | List \<Rightarrow> (Inl ErrExpectedString, s))"

definition stream_Raw :: "bytes decoder" where
  "stream_Raw = andThen stream_Kind (\<lambda>(kind, sz) s.
     case kind of
       Byte \<Rightarrow> (Inr [byteval s], rearm s)
     | String \<Rightarrow> andThen (readFull (unat sz)) (\<lambda>b. ok (puthead 0x80 0xB7 sz @ b)) s
     | List \<Rightarrow> andThen (readFull (unat sz)) (\<lambda>b. ok (puthead 0xC0 0xF7 sz @ b)) s)"

definition stream_uint :: "nat \<Rightarrow> 64 word decoder" where
  "stream_uint maxbits = andThen stream_Kind (\<lambda>(kind, sz) s.
     case kind of
       Byte \<Rightarrow> if byteval s = 0 then (Inl ErrCanonInt, s) else (Inr (ucast (byteval s)), rearm s)
     | String \<Rightarrow>
         if sz > of_nat (maxbits div 8) then (Inl errUintOverflow, s)
         else
           (case readUint (ucast sz) s of
              (Inl err, s) \<Rightarrow> (Inl (if err = ErrCanonSize then ErrCanonInt else err), s)
            | (Inr v, s) \<Rightarrow> if sz > 0 \<and> v < 128 then (Inl ErrCanonSize, s) else (Inr v, s))
     | List \<Rightarrow> (Inl ErrExpectedString, s))"

definition stream_int :: "nat \<Rightarrow> 64 word decoder" where
  "stream_int maxbits = andThen stream_Kind (\<lambda>(kind, sz) s.
     case kind of
       Byte \<Rightarrow> if byteval s = 0 then (Inl ErrCanonInt, s) else (Inr (ucast (byteval s)), rearm s)
     | String \<Rightarrow>
         if sz > of_nat (maxbits div 8) then (Inl errUintOverflow, s)
         else andThen (readInt (ucast sz)) (\<lambda>v. if sz > 0 \<and> v = 0 then fail ErrCanonSize else ok v) s
     | List \<Rightarrow> (Inl ErrExpectedString, s))"

definition stream_Bool :: "bool decoder" where
  "stream_Bool = andThen (stream_uint 8) (\<lambda>num.
     if num = 0 then ok False else if num = 1 then ok True else fail (InvalidBool num))"

definition stream_List :: "64 word decoder" where
  "stream_List = andThen stream_Kind (\<lambda>(kind, sz) s.
     if kind \<noteq> List then (Inl ErrExpectedList, s)
     else (Inr sz, s\<lparr>stack := stack s @ [\<lparr>pos = 0, lp_size = sz\<rparr>], knd := None, vsize := 0\<rparr>))"

definition stream_ListEnd :: "unit decoder" where
  "stream_ListEnd s =
     (case tos s of
        None \<Rightarrow> (Inl errNotInList, s)
      | Some t \<Rightarrow>
          if pos t \<noteq> lp_size t then (Inl errNotAtEOL, s)
          else
            let st = butlast (stack s);
                st = (if st \<noteq> [] then advance (lp_size t) st else st)
            in (Inr (), s\<lparr>stack := st, knd := None, vsize := 0\<rparr>))"

text \<open>\<^verbatim>\<open>wrapStreamError\<close>; the type and the context that a \<^verbatim>\<open>decodeError\<close> carries for its message are left out.\<close>

definition wrapStreamError :: "rlp_error \<Rightarrow> rlp_error" where
  "wrapStreamError err =
     (case err of
        ErrCanonInt \<Rightarrow> DecodeError ''non-canonical integer (leading zero bytes)''
      | ErrCanonSize \<Rightarrow> DecodeError ''non-canonical size information''
      | ErrExpectedList \<Rightarrow> DecodeError ''expected input list''
      | ErrExpectedString \<Rightarrow> DecodeError ''expected input string or byte''
      | errUintOverflow \<Rightarrow> DecodeError ''input string too long''
      | errNotAtEOL \<Rightarrow> DecodeError ''input list has too many elements''
      | _ \<Rightarrow> err)"

definition wrapped :: "'a decoder \<Rightarrow> 'a decoder" where
  "wrapped m s = (let (r, s) = m s in (map_sum wrapStreamError id r, s))"

definition decodeRawValue :: "val decoder" where
  "decodeRawValue = andThen stream_Raw (\<lambda>r. ok (BytesV r))"

definition decodeUint :: "nat \<Rightarrow> val decoder" where
  "decodeUint bits = andThen (wrapped (stream_uint bits)) (\<lambda>num. ok (UintV num))"

definition decodeInt :: "nat \<Rightarrow> val decoder" where
  "decodeInt bits = andThen (wrapped (stream_int bits)) (\<lambda>num. ok (IntV num))"

definition decodeBool :: "val decoder" where
  "decodeBool = andThen (wrapped stream_Bool) (\<lambda>b. ok (BoolV b))"

definition decodeString :: "val decoder" where
  "decodeString = andThen (wrapped stream_Bytes) (\<lambda>b. ok (BytesV b))"

definition decodeByteSlice :: "val decoder" where
  "decodeByteSlice = andThen (wrapped stream_Bytes) (\<lambda>b. ok (BytesV b))"

definition decodeBigIntNoPtr :: "val decoder" where
  "decodeBigIntNoPtr = andThen (wrapped stream_Bytes) (\<lambda>b.
     if b \<noteq> [] \<and> hd b = 0 then fail (wrapStreamError ErrCanonInt) else ok (BigV (int (be_val b))))"

definition decodeBigInt :: "val decoder" where
  "decodeBigInt = andThen decodeBigIntNoPtr (\<lambda>i. ok (PtrV (Some i)))"

definition decodeByteArray :: "nat \<Rightarrow> val decoder" where
  "decodeByteArray vlen = andThen stream_Kind (\<lambda>(kind, sz) s.
     case kind of
       Byte \<Rightarrow>
         if vlen = 0 then (Inl (DecodeError ''input string too long''), s)
         else if vlen > 1 then (Inl (DecodeError ''input string too short''), s)
         else (let (bv, s) = stream_uint 64 s in
               (Inr (BytesV [case bv of Inr b \<Rightarrow> ucast b | Inl _ \<Rightarrow> 0]), s))
     | String \<Rightarrow>
         if of_nat vlen < sz then (Inl (DecodeError ''input string too long''), s)
         else if of_nat vlen > sz then (Inl (DecodeError ''input string too short''), s)
         else andThen (readFull vlen) (\<lambda>b.
                if sz = 1 \<and> hd b < 128 then fail (wrapStreamError ErrCanonSize) else ok (BytesV b)) s
     | List \<Rightarrow> (Inl (wrapStreamError ErrExpectedString), s))"

text \<open>The loop of \<^verbatim>\<open>decodeSliceElems\<close>. Each element that decodes has read at least one byte, so that the
  number of bytes left bounds the number of turns; a loop that would not end runs into \<open>EOF\<close> of the fuel.\<close>

fun sliceElems :: "nat \<Rightarrow> val decoder \<Rightarrow> val list decoder" where
  "sliceElems 0 elemdec s = (Inl ReflectPanic, s)"
| "sliceElems (Suc fuel) elemdec s =
     (case elemdec s of
        (Inl err, s) \<Rightarrow> if err = ErrEndOfLine then (Inr [], s) else (Inl err, s)
      | (Inr v, s) \<Rightarrow> andThen (sliceElems fuel elemdec) (\<lambda>vs. ok (v # vs)) s)"

definition decodeSliceElems :: "val decoder \<Rightarrow> val decoder" where
  "decodeSliceElems elemdec s = andThen (sliceElems (Suc (length (inp s))) elemdec) (\<lambda>vs. ok (ListV vs)) s"

definition decodeListSlice :: "val decoder \<Rightarrow> val decoder" where
  "decodeListSlice elemdec = andThen (wrapped stream_List) (\<lambda>sz.
     if sz = 0 then andThen stream_ListEnd (\<lambda>_. ok (ListV []))
     else andThen (decodeSliceElems elemdec) (\<lambda>v. andThen stream_ListEnd (\<lambda>_. ok v)))"

fun arrayElems :: "nat \<Rightarrow> val decoder \<Rightarrow> val list decoder" where
  "arrayElems 0 elemdec s = (Inr [], s)"
| "arrayElems (Suc n) elemdec s =
     (case elemdec s of
        (Inl err, s) \<Rightarrow>
          (Inl (if err = ErrEndOfLine then DecodeError ''input list has too few elements'' else err), s)
      | (Inr v, s) \<Rightarrow> andThen (arrayElems n elemdec) (\<lambda>vs. ok (v # vs)) s)"

definition decodeListArray :: "nat \<Rightarrow> val decoder \<Rightarrow> val decoder" where
  "decodeListArray vlen elemdec = andThen (wrapped stream_List) (\<lambda>_.
     andThen (arrayElems vlen elemdec) (\<lambda>vs. andThen (wrapped stream_ListEnd) (\<lambda>_. ok (ListV vs))))"

definition optionalPtr :: "val decoder \<Rightarrow> val decoder" where
  "optionalPtr elemdec s =
     (case stream_Kind s of
        (Inl err, s) \<Rightarrow> (Inl err, rearm s)
      | (Inr (kind, sz), s) \<Rightarrow>
          if sz = 0 \<and> kind \<noteq> Byte then (Inr (PtrV None), rearm s)
          else andThen elemdec (\<lambda>v. ok (PtrV (Some v))) s)"

text \<open>\<^verbatim>\<open>makeDecoder\<close>, in the order of its cases, and the loop of \<^verbatim>\<open>makeStructDecoder\<close> over the fields.\<close>

fun decode :: "ty \<Rightarrow> tags \<Rightarrow> val decoder" and decodeFields :: "(tags \<times> ty) list \<Rightarrow> val list decoder" where
  "decode RawT ts = decodeRawValue"
| "decode BigIntPtrT ts = decodeBigInt"
| "decode BigIntT ts = decodeBigIntNoPtr"
| "decode (UintT n) ts = decodeUint n"
| "decode (IntT n) ts = decodeInt n"
| "decode BoolT ts = decodeBool"
| "decode StringT ts = decodeString"
| "decode BytesT ts = decodeByteSlice"
| "decode (ByteArrayT n) ts = decodeByteArray n"
| "decode (SliceT t) ts =
     (if tail ts then decodeSliceElems (decode t no_tags) else decodeListSlice (decode t no_tags))"
| "decode (ArrayT n t) ts = decodeListArray n (decode t no_tags)"
| "decode (StructT fs) ts = andThen (wrapped stream_List) (\<lambda>_.
     andThen (decodeFields fs) (\<lambda>vs. andThen (wrapped stream_ListEnd) (\<lambda>_. ok (ListV vs))))"
| "decode (PtrT t) ts =
     (if nilOK ts then optionalPtr (decode t no_tags)
      else andThen (decode t no_tags) (\<lambda>v. ok (PtrV (Some v))))"
| "decode OtherT ts = fail NotSerializable"
| "decodeFields [] = ok []"
| "decodeFields ((ts, t) # fs) =
     (if ignored ts then andThen (decodeFields fs) (\<lambda>vs. ok (zero_val t # vs))
      else (\<lambda>s. case decode t ts s of
                  (Inl err, s) \<Rightarrow> (Inl (if err = ErrEndOfLine then DecodeError ''too few elements'' else err), s)
                | (Inr v, s) \<Rightarrow> andThen (decodeFields fs) (\<lambda>vs. ok (v # vs)) s))"

text \<open>\<^verbatim>\<open>NewStream\<close> and \<^verbatim>\<open>Reset\<close>: without an explicit limit, the input is limited to its length only where the
  reader is a \<^verbatim>\<open>bytes.Reader\<close> or \<^verbatim>\<open>strings.Reader\<close>.\<close>

definition stream_Reset :: "bytes \<Rightarrow> bool \<Rightarrow> 64 word \<Rightarrow> Stream" where
  "stream_Reset r isBytesReader inputLimit =
     \<lparr>inp = r,
      remaining = (if inputLimit > 0 then inputLimit else if isBytesReader then of_nat (length r) else 0),
      limited = (inputLimit > 0 \<or> isBytesReader),
      knd = None, vsize = 0, byteval = 0, kinderr = None, stack = []\<rparr>"

definition NewStream :: "bytes \<Rightarrow> bool \<Rightarrow> 64 word \<Rightarrow> Stream" where
  "NewStream r isBytesReader inputLimit = stream_Reset r isBytesReader inputLimit"

definition NewListStream :: "bytes \<Rightarrow> bool \<Rightarrow> 64 word \<Rightarrow> Stream" where
  "NewListStream r isBytesReader len = (stream_Reset r isBytesReader len)\<lparr>knd := Some List, vsize := len\<rparr>"

definition stream_Decode :: "ty \<Rightarrow> val decoder" where
  "stream_Decode t = (case typeinfo t of Some err \<Rightarrow> fail err | None \<Rightarrow> decode t no_tags)"

definition DecodeBytes :: "ty \<Rightarrow> bytes \<Rightarrow> rlp_error + val" where
  "DecodeBytes t b =
     (case stream_Decode t (NewStream b True (of_nat (length b))) of
        (Inl err, _) \<Rightarrow> Inl err
      | (Inr v, s) \<Rightarrow> if inp s \<noteq> [] then Inl ErrMoreThanOneValue else Inr v)"

definition Decode :: "ty \<Rightarrow> bool \<Rightarrow> bytes \<Rightarrow> (rlp_error + val) \<times> bytes" where
  "Decode t isBytesReader r = (let (v, s) = stream_Decode t (NewStream r isBytesReader 0) in (v, inp s))"

end
