(* ===== verification/RlpRoundTrip.thy ===== *)
theory RlpRoundTrip
  imports RlpDecode
begin

text \<open>
  Decoding undoes encoding: the stream operations of \<^verbatim>\<open>decode.go\<close> on an encoding of \<^verbatim>\<open>encode.go\<close>, up to the
  round trip of whole values, and the values for which it fails.
\<close>

section \<open>Reading headers and bytes\<close>

text \<open>\<open>room s n\<close>: the limits of the stream let \<open>n\<close> more bytes be read and the input has them; \<open>aft s s' n\<close>: \<open>s'\<close> is
  the stream after \<open>n\<close> bytes.\<close>

definition room :: "Stream \<Rightarrow> nat \<Rightarrow> bool" where
  "room s n \<longleftrightarrow> n \<le> length (inp s) \<and> n < 2 ^ 64 \<and>
     (stack s \<noteq> [] \<longrightarrow> n \<le> unat (lp_size (last (stack s)) - pos (last (stack s)))) \<and>
     (limited s \<longrightarrow> n \<le> unat (remaining s))"

definition aft :: "Stream \<Rightarrow> Stream \<Rightarrow> nat \<Rightarrow> bool" where
  "aft s s' n \<longleftrightarrow> inp s' = drop n (inp s) \<and> limited s' = limited s \<and>
     stack s' = (if stack s = [] then [] else advance (of_nat n) (stack s)) \<and>
     remaining s' = (if limited s then remaining s - of_nat n else remaining s)"

lemma unat_of_nat_64: "n < 2 ^ 64 \<Longrightarrow> unat (of_nat n :: 64 word) = n"
  by (simp add: unat_of_nat)

lemma of_nat_eq_64: "m < 2 ^ 64 \<Longrightarrow> n < 2 ^ 64 \<Longrightarrow> (of_nat m :: 64 word) = of_nat n \<longleftrightarrow> m = n"
  by (metis unat_of_nat_64)

lemma of_nat_less_64: "n < 2 ^ 64 \<Longrightarrow> (of_nat n :: 64 word) \<le> w \<longleftrightarrow> n \<le> unat w"
  by (simp add: word_le_nat_alt unat_of_nat_64)

lemma unat_sub_of_nat: "n < 2 ^ 64 \<Longrightarrow> n \<le> unat w \<Longrightarrow> unat (w - of_nat n) = unat w - n" for w :: "64 word"
  by (simp add: unat_sub_if' unat_of_nat_64)

lemma advance_simps [simp]: "last (advance n st) = (last st)\<lparr>pos := pos (last st) + n\<rparr>" "advance n st \<noteq> []"
  "butlast (advance n st) = butlast st"
  by (simp_all add: advance_def)

lemma advance_advance: "advance m (advance n st) = advance (n + m) st"
  by (simp add: advance_def add.assoc)

lemma aft_refl [simp]: "aft s s 0 \<longleftrightarrow> True"
  by (auto simp: aft_def advance_def)

lemma aft_trans: "aft s s1 m \<Longrightarrow> aft s1 s2 n \<Longrightarrow> aft s s2 (m + n)"
  by (auto simp: aft_def advance_advance add.commute)

lemma room_aft: "room s (m + n) \<Longrightarrow> aft s s1 m \<Longrightarrow> room s1 n"
proof -
  assume r: "room s (m + n)" and a: "aft s s1 m"
  have "n \<le> unat (lp_size (last (stack s)) - pos (last (stack s)) - of_nat m)" if "stack s \<noteq> []"
    using r that unat_sub_of_nat [of m "lp_size (last (stack s)) - pos (last (stack s))"] by (auto simp: room_def)
  moreover have "n \<le> unat (remaining s - of_nat m)" if "limited s"
    using r that unat_sub_of_nat [of m "remaining s"] by (auto simp: room_def)
  ultimately show ?thesis using r a by (auto simp: room_def aft_def diff_diff_add split: if_splits)
qed

lemma room_le: "room s n \<Longrightarrow> m \<le> n \<Longrightarrow> room s m"
  by (auto simp: room_def)

text \<open>Only the header fields of a stream differ.\<close>

definition sim :: "Stream \<Rightarrow> Stream \<Rightarrow> bool" where
  "sim s s' \<longleftrightarrow> inp s' = inp s \<and> limited s' = limited s \<and> stack s' = stack s \<and> remaining s' = remaining s"

lemma aft_0: "aft s s' 0 \<longleftrightarrow> sim s s'"
  by (auto simp: aft_def sim_def advance_def)

lemma willRead_room:
  "room s n \<Longrightarrow> \<exists>s'. willRead (of_nat n) s = (Inr (), s') \<and> inp s' = inp s \<and> knd s' = None \<and> limited s' = limited s \<and> byteval s' = byteval s \<and> kinderr s' = kinderr s \<and>
     stack s' = (if stack s = [] then [] else advance (of_nat n) (stack s)) \<and>
     remaining s' = (if limited s then remaining s - of_nat n else remaining s)"
  by (auto simp: willRead_def room_def tos_def rearm_def Let_def not_less of_nat_less_64 leD)

lemma readByte_ok:
  assumes "room s 1" "inp s = b # bs"
  shows "\<exists>s'. readByte s = (Inr b, s') \<and> aft s s' 1 \<and> knd s' = None \<and> kinderr s' = kinderr s"
  using willRead_room [OF assms(1)] assms(2) by (auto simp: readByte_def andThen_def aft_def)

lemma readFull_ok:
  assumes "room s n"
  shows "\<exists>s'. readFull n s = (Inr (take n (inp s)), s') \<and> aft s s' n \<and> knd s' = None"
proof -
  have "n \<le> length (inp s)" using assms by (simp add: room_def)
  then show ?thesis using willRead_room [OF assms] by (auto simp: readFull_def andThen_def aft_def)
qed

lemma readUint_ok:
  assumes "room s (length b)" "inp s = b @ rest" "b \<noteq> []" "length b \<le> 8" "length b = 1 \<or> hd b \<noteq> 0"
  shows "\<exists>s'. readUint (of_nat (length b)) s = (Inr (of_nat (be_val b)), s') \<and> aft s s' (length b) \<and> knd s' = None"
proof -
  have u: "unat (of_nat (length b) :: byte) = length b" using assms(4) by (simp add: unat_of_nat)
  then have z: "(of_nat (length b) :: byte) \<noteq> 0" "(of_nat (length b) :: byte) = 1 \<longleftrightarrow> length b = 1"
    using assms(3) by (auto simp: word_unat_eq_iff)
  show ?thesis
  proof (cases "length b = 1")
    case True
    then obtain x where x: "b = [x]" by (cases b) auto
    have "(ucast x :: 64 word) = of_nat (be_val [x])" by (simp add: be_val_def)
    then show ?thesis using readByte_ok [of s x rest] assms z x by (auto simp: readUint_def andThen_def ok_def)
  next
    case False
    then have "hd b \<noteq> 0" using assms(5) by simp
    then show ?thesis using readFull_ok [OF assms(1)] assms(2) z u False
      by (auto simp: readUint_def andThen_def ok_def fail_def)
  qed
qed


lemma aft_byteval [simp]: "aft s (s'\<lparr>byteval := b\<rparr>) n = aft s s' n" "aft (s\<lparr>byteval := b\<rparr>) s' n = aft s s' n"
  "room (s\<lparr>byteval := b\<rparr>) n = room s n"
  by (simp_all add: aft_def room_def)

lemma aft_knd [simp]: "aft s (s'\<lparr>knd := k\<rparr>) n = aft s s' n" "aft s (s'\<lparr>vsize := z\<rparr>) n = aft s s' n" "aft s (s'\<lparr>kinderr := e\<rparr>) n = aft s s' n"
  "aft (s\<lparr>kinderr := e\<rparr>) s' n = aft s s' n" "room (s\<lparr>kinderr := e\<rparr>) n = room s n" "aft s (rearm s') n = aft s s' n"
  by (simp_all add: aft_def room_def rearm_def)

lemma of_nat_8_64: "n \<le> 8 \<Longrightarrow> unat (of_nat n :: byte) = n"
  by (simp add: unat_of_nat)

text \<open>The tag of a long header: \<open>t\<close> is \<open>0xB7\<close> or \<open>0xF7\<close>.\<close>

lemma tag_range: "1 \<le> n \<Longrightarrow> n \<le> 8 \<Longrightarrow> unat (0xB7 + of_nat n :: byte) = 0xB7 + n \<and> unat (0xF7 + of_nat n :: byte) = 0xF7 + n"
  by (simp add: unat_word_ariths unat_of_nat)

lemma short_range: "n < 56 \<Longrightarrow> unat (0x80 + of_nat n :: byte) = 0x80 + n \<and> unat (0xC0 + of_nat n :: byte) = 0xC0 + n"
  by (simp add: unat_word_ariths unat_of_nat)

lemma ucast_byte_64: "n < 256 \<Longrightarrow> (ucast (of_nat n :: byte) :: 64 word) = of_nat n"
  by (simp add: word_unat_eq_iff unsigned_ucast_eq unat_of_nat take_bit_nat_eq_self)

lemma readKind_string:
  assumes "n < 2 ^ 64" "room s (length (rlp_head 0x80 0xB7 n))" "inp s = rlp_head 0x80 0xB7 n @ rest"
  shows "\<exists>s'. readKind s = (Inr (String, of_nat n), s') \<and> aft s s' (length (rlp_head 0x80 0xB7 n)) \<and> knd s' = None"
proof (cases "n < 56")
  case True
  let ?b = "0x80 + of_nat n :: byte"
  have h: "inp s = ?b # rest" "room s 1" using assms True by (simp_all add: rlp_head_def)
  have c: "\<not> ?b < 0x80" "?b < 0xB8" using short_range [OF True] True by (simp_all add: word_less_nat_alt)
  have "(ucast (?b - 0x80) :: 64 word) = of_nat n" using True ucast_byte_64 [of n] by simp
  then show ?thesis using readByte_ok [OF h(2,1)] c True by (auto simp: readKind_def rlp_head_def)
next
  case False
  let ?v = "big_Bytes n" let ?b = "0xB7 + of_nat (length ?v) :: byte"
  have v: "?v \<noteq> []" "length ?v \<le> 8" "hd ?v \<noteq> 0" "be_val ?v = n"
    using False assms(1) length_big_Bytes_le [of n 8] hd_big_Bytes [of n] by simp_all
  have l: "1 \<le> length ?v" using v(1) by (simp add: Suc_le_eq)
  have h: "inp s = ?b # ?v @ rest" "room s 1" "room s (1 + length ?v)"
    using assms False room_le [OF assms(2), of 1] by (simp_all add: rlp_head_def)
  obtain s1 where s1: "readByte s = (Inr ?b, s1)" "aft s s1 1" using readByte_ok [OF h(2,1)] by blast
  have r1: "room s1 (length ?v)" "inp s1 = ?v @ rest" using room_aft [OF h(3) s1(2)] s1(2) h(1) by (auto simp: aft_def)
  obtain s2 where s2: "readUint (of_nat (length ?v)) (s1\<lparr>byteval := 0\<rparr>) = (Inr (of_nat n), s2)" "aft s1 s2 (length ?v)" "knd s2 = None"
    using readUint_ok [of "s1\<lparr>byteval := 0\<rparr>" ?v rest] r1 v by auto
  have c: "\<not> ?b < 0x80" "\<not> ?b < 0xB8" "?b < 0xC0"
    using tag_range [OF l v(2)] l v(2) False by (simp_all add: word_less_nat_alt)
  have "\<not> (of_nat n :: 64 word) < 56" using word_less_56 [OF assms(1)] False by simp
  then show ?thesis using s1 s2 c aft_trans [OF s1(2) s2(2)] False
    by (auto simp: readKind_def andThen_def ok_def rlp_head_def)
qed

lemma readKind_list:
  assumes "n < 2 ^ 64" "room s (length (rlp_head 0xC0 0xF7 n))" "inp s = rlp_head 0xC0 0xF7 n @ rest"
  shows "\<exists>s'. readKind s = (Inr (List, of_nat n), s') \<and> aft s s' (length (rlp_head 0xC0 0xF7 n)) \<and> knd s' = None"
proof (cases "n < 56")
  case True
  let ?b = "0xC0 + of_nat n :: byte"
  have h: "inp s = ?b # rest" "room s 1" using assms True by (simp_all add: rlp_head_def)
  have c: "\<not> ?b < 0x80" "\<not> ?b < 0xB8" "\<not> ?b < 0xC0" "?b < 0xF8" using short_range [OF True] True by (simp_all add: word_less_nat_alt)
  have "(ucast (?b - 0xC0) :: 64 word) = of_nat n" using True ucast_byte_64 [of n] by simp
  then show ?thesis using readByte_ok [OF h(2,1)] c True by (auto simp: readKind_def rlp_head_def)
next
  case False
  let ?v = "big_Bytes n" let ?b = "0xF7 + of_nat (length ?v) :: byte"
  have v: "?v \<noteq> []" "length ?v \<le> 8" "hd ?v \<noteq> 0" "be_val ?v = n"
    using False assms(1) length_big_Bytes_le [of n 8] hd_big_Bytes [of n] by simp_all
  have l: "1 \<le> length ?v" using v(1) by (simp add: Suc_le_eq)
  have h: "inp s = ?b # ?v @ rest" "room s 1" "room s (1 + length ?v)"
    using assms False room_le [OF assms(2), of 1] by (simp_all add: rlp_head_def)
  obtain s1 where s1: "readByte s = (Inr ?b, s1)" "aft s s1 1" using readByte_ok [OF h(2,1)] by blast
  have r1: "room s1 (length ?v)" "inp s1 = ?v @ rest" using room_aft [OF h(3) s1(2)] s1(2) h(1) by (auto simp: aft_def)
  obtain s2 where s2: "readUint (of_nat (length ?v)) (s1\<lparr>byteval := 0\<rparr>) = (Inr (of_nat n), s2)" "aft s1 s2 (length ?v)" "knd s2 = None"
    using readUint_ok [of "s1\<lparr>byteval := 0\<rparr>" ?v rest] r1 v by auto
  have c: "\<not> ?b < 0x80" "\<not> ?b < 0xB8" "\<not> ?b < 0xC0" "\<not> ?b < 0xF8"
    using tag_range [OF l v(2)] l v(2) False by (simp_all add: word_less_nat_alt)
  have "\<not> (of_nat n :: 64 word) < 56" using word_less_56 [OF assms(1)] False by simp
  then show ?thesis using s1 s2 c aft_trans [OF s1(2) s2(2)] False
    by (auto simp: readKind_def andThen_def ok_def rlp_head_def)
qed

lemma readKind_byte:
  assumes "room s 1" "inp s = b # rest" "b < 0x80"
  shows "\<exists>s'. readKind s = (Inr (Byte, 0), s') \<and> aft s s' 1 \<and> knd s' = None \<and> byteval s' = b \<and> kinderr s' = kinderr s"
  using readByte_ok [OF assms(1,2)] assms(3) by (auto simp: readKind_def)

text \<open>\<^verbatim>\<open>Kind\<close> on a value whose content fits too.\<close>

lemma stream_Kind_ok:
  assumes "knd s = None" "room s (h + m)" "0 < h" "m < 2 ^ 64"
    and "readKind (s\<lparr>kinderr := None\<rparr>) = (Inr (k, of_nat m), s1)" "aft s s1 h"
  shows "\<exists>s'. stream_Kind s = (Inr (k, of_nat m), s') \<and> aft s s' h \<and> byteval s' = byteval s1 \<and> knd s' = Some k \<and>
     kinderr s' = kinderr s1 \<and> vsize s' = of_nat m \<and> room s' m"
proof -
  have ne: "pos l \<noteq> lp_size l" if "tos s = Some l" for l
    using assms(2,3) that by (auto simp: room_def tos_def split: if_splits)
  have r: "room s1 m" using room_aft [OF assms(2,6)] .
  have "\<not> of_nat m > lp_size l - pos l" if "tos s1 = Some l" for l
    using r that assms(4) by (auto simp: room_def tos_def not_less of_nat_less_64 split: if_splits)
  moreover have "\<not> of_nat m > remaining s1" if "limited s1"
    using r that assms(4) by (auto simp: room_def not_less of_nat_less_64)
  ultimately show ?thesis using assms ne r
    by (auto simp: stream_Kind_def Let_def tos_def room_def split: option.splits if_splits)
qed

section \<open>Reading values\<close>

text \<open>\<open>reads m a n s\<close>: the operation returns \<open>a\<close>, has consumed \<open>n\<close> bytes and left no cached header.\<close>

definition reads :: "'a decoder \<Rightarrow> 'a \<Rightarrow> nat \<Rightarrow> Stream \<Rightarrow> bool" where
  "reads m a n s \<longleftrightarrow> (\<exists>s'. m s = (Inr a, s') \<and> aft s s' n \<and> knd s' = None)"

lemma reads_andThen_ok: "reads m a n s \<Longrightarrow> reads (andThen m (\<lambda>x. ok (f x))) (f a) n s"
  by (auto simp: reads_def andThen_def ok_def)

lemma reads_wrapped: "reads m a n s \<Longrightarrow> reads (wrapped m) a n s"
  by (auto simp: reads_def wrapped_def)

lemma stream_Kind_byte:
  assumes "knd s = None" "inp s = b # rest" "b < 0x80" "room s 1"
  shows "\<exists>s'. stream_Kind s = (Inr (Byte, 0), s') \<and> aft s s' 1 \<and> byteval s' = b \<and> knd s' = Some Byte \<and> kinderr s' = None"
proof -
  obtain s1 where s1: "readKind (s\<lparr>kinderr := None\<rparr>) = (Inr (Byte, 0), s1)" "aft s s1 1" "byteval s1 = b" "kinderr s1 = None"
    using readKind_byte [of "s\<lparr>kinderr := None\<rparr>" b rest] assms by auto
  then show ?thesis using stream_Kind_ok [of s 1 0 Byte s1] assms by auto
qed

lemma stream_Kind_string:
  assumes "knd s = None" "inp s = rlp_head 0x80 0xB7 n @ rest" "n < 2 ^ 64" "room s (length (rlp_head 0x80 0xB7 n) + n)"
  shows "\<exists>s'. stream_Kind s = (Inr (String, of_nat n), s') \<and> aft s s' (length (rlp_head 0x80 0xB7 n)) \<and> inp s' = rest \<and> room s' n"
proof -
  let ?h = "rlp_head 0x80 0xB7 n"
  have h: "0 < length ?h" by (simp add: rlp_head_def)
  obtain s1 where s1: "readKind (s\<lparr>kinderr := None\<rparr>) = (Inr (String, of_nat n), s1)" "aft s s1 (length ?h)"
    using readKind_string [of n "s\<lparr>kinderr := None\<rparr>" rest] assms room_le [OF assms(4), of "length ?h"] by auto
  then show ?thesis using stream_Kind_ok [OF assms(1,4) h assms(3) s1] assms(2) by (auto simp: aft_def)
qed

lemma stream_Kind_list:
  assumes "knd s = None" "inp s = rlp_head 0xC0 0xF7 n @ rest" "n < 2 ^ 64" "room s (length (rlp_head 0xC0 0xF7 n) + n)"
  shows "\<exists>s'. stream_Kind s = (Inr (List, of_nat n), s') \<and> aft s s' (length (rlp_head 0xC0 0xF7 n)) \<and> inp s' = rest \<and> room s' n"
proof -
  let ?h = "rlp_head 0xC0 0xF7 n"
  have h: "0 < length ?h" by (simp add: rlp_head_def)
  obtain s1 where s1: "readKind (s\<lparr>kinderr := None\<rparr>) = (Inr (List, of_nat n), s1)" "aft s s1 (length ?h)"
    using readKind_list [of n "s\<lparr>kinderr := None\<rparr>" rest] assms room_le [OF assms(4), of "length ?h"] by auto
  then show ?thesis using stream_Kind_ok [OF assms(1,4) h assms(3) s1] assms(2) by (auto simp: aft_def)
qed

lemma byte_le_iff: "(b :: byte) \<le> 0x7F \<longleftrightarrow> b < 0x80"
  by (auto simp: word_le_nat_alt word_less_nat_alt)

lemma stream_Bytes_ok:
  assumes "knd s = None" "inp s = enc_string b @ rest" "room s (length (enc_string b))"
  shows "reads stream_Bytes b (length (enc_string b)) s"
proof (cases "length b = 1 \<and> hd b \<le> 0x7F")
  case True
  then obtain x where x: "b = [x]" "x < 0x80" by (cases b) (auto simp: byte_le_iff)
  then have "enc_string b = [x]" using True by (simp add: enc_string_def)
  then show ?thesis using stream_Kind_byte [of s x rest] assms x
    by (auto simp: stream_Bytes_def andThen_def reads_def)
       (simp add: rearm_def)
next
  case False
  let ?n = "length b" let ?h = "rlp_head 0x80 0xB7 ?n"
  have e: "enc_string b = ?h @ b" using False unfolding enc_string_def by (rule if_not_P)
  have n: "?n < 2 ^ 64" using assms(3) e by (simp add: room_def)
  obtain s1 where s1: "stream_Kind s = (Inr (String, of_nat ?n), s1)" "aft s s1 (length ?h)" "inp s1 = b @ rest" "room s1 ?n"
    using stream_Kind_string [of s ?n "b @ rest"] assms e n by auto
  obtain s2 where s2: "readFull ?n s1 = (Inr b, s2)" "aft s1 s2 ?n" "knd s2 = None"
    using readFull_ok [OF s1(4)] s1(3) by auto
  have "\<not> ((of_nat ?n :: 64 word) = 1 \<and> hd b < 128)"
    using False of_nat_eq_64 [OF n, of 1] by (auto simp: byte_le_iff)
  then show ?thesis using s1 s2 aft_trans [OF s1(2) s2(2)] unat_of_nat_64 [OF n] e
    by (auto simp: stream_Bytes_def andThen_def reads_def ok_def)
qed


lemma length_head_pos [simp]: "0 < length (rlp_head a b n)"
  by (simp add: rlp_head_def)

lemma enc_string_cases:
  obtains (byte) x where "b = [x]" "x < 0x80" "enc_string b = [x]"
    | (string) "enc_string b = rlp_head 0x80 0xB7 (length b) @ b" "\<not> (length b = 1 \<and> hd b < 0x80)"
proof (cases "length b = 1 \<and> hd b \<le> 0x7F")
  case True
  then obtain x where "b = [x]" "x < 0x80" by (cases b) (auto simp: byte_le_iff)
  then show ?thesis using that(1) by (simp add: enc_string_def byte_le_iff)
next
  case False
  then have "enc_string b = rlp_head 0x80 0xB7 (length b) @ b" unfolding enc_string_def by (rule if_not_P)
  then show ?thesis using False that(2) by (simp add: byte_le_iff)
qed

lemma stream_uint_ok:
  assumes "knd s = None" "inp s = enc_string (big_Bytes m) @ rest" "room s (length (enc_string (big_Bytes m)))"
    and "m < 256 ^ k" "k \<le> 8" "0 < k" "bits = 8 * k"
  shows "reads (stream_uint bits) (of_nat m) (length (enc_string (big_Bytes m))) s"
proof (cases rule: enc_string_cases [of "big_Bytes m"])
  case (byte x)
  have "0 < m" using byte(1) by (cases "m = 0") auto
  then have x: "x \<noteq> 0" "(of_nat m :: 64 word) = ucast x"
    using hd_big_Bytes [of m] be_val_big_Bytes [of m] byte(1) by (auto simp: be_val_def)
  then show ?thesis using stream_Kind_byte [of s x rest] assms(1-3) byte
    by (auto simp: stream_uint_def andThen_def reads_def rearm_def)
next
  case string
  let ?b = "big_Bytes m" let ?n = "length ?b" let ?h = "rlp_head 0x80 0xB7 ?n"
  have n: "?n < 2 ^ 64" "?n \<le> k" using assms(3) string(1) length_big_Bytes_le [OF assms(4)] by (simp_all add: room_def)
  obtain s1 where s1: "stream_Kind s = (Inr (String, of_nat ?n), s1)" "aft s s1 (length ?h)" "inp s1 = ?b @ rest" "room s1 ?n"
    using stream_Kind_string [of s ?n "?b @ rest"] assms(1-3) string n by auto
  have le: "\<not> (of_nat ?n :: 64 word) > of_nat (bits div 8)"
    using n assms(5,7) of_nat_less_64 [of ?n "of_nat k"] by (simp add: not_less unat_of_nat_64)
  have uc: "(ucast (of_nat ?n :: 64 word) :: byte) = of_nat ?n" by (rule ucast_of_nat_64)
  show ?thesis
  proof (cases "m = 0")
    case True
    then show ?thesis using s1 le string by (auto simp: stream_uint_def andThen_def reads_def readUint_def rearm_def)
  next
    case False
    then have b: "?b \<noteq> []" "hd ?b \<noteq> 0" "?n \<le> 8" using hd_big_Bytes n assms(5) by auto
    obtain s2 where s2: "readUint (of_nat ?n) s1 = (Inr (of_nat m), s2)" "aft s1 s2 ?n" "knd s2 = None"
      using readUint_ok [OF s1(4,3) b(1,3)] b(2) by auto
    have m: "m < 2 ^ 64" using assms(4,5) power_increasing [of k 8 "256 :: nat"] by simp
    have "128 \<le> m"
    proof (cases "?n = 1")
      case True
      then obtain x where x: "?b = [x]" by (cases ?b) auto
      then have "\<not> x < 0x80" using string(2) by simp
      moreover have "unat x = m" using be_val_big_Bytes [of m] x by (simp add: be_val_def)
      ultimately show ?thesis by (simp add: word_less_nat_alt)
    next
      case False
      then have "\<not> m < 256 ^ 1" using length_big_Bytes_le [of m 1] b(1) by (cases ?b) auto
      then show ?thesis by simp
    qed
    then have "\<not> (of_nat m :: 64 word) < 128" using m by (simp add: word_less_nat_alt unat_of_nat_64)
    then show ?thesis using s1 s2 le uc aft_trans [OF s1(2) s2(2)] string(1)
      by (auto simp: stream_uint_def andThen_def reads_def)
  qed
qed

lemma sint_of_int_64: "- (2 ^ 63) \<le> i \<Longrightarrow> i < 2 ^ 63 \<Longrightarrow> sint (of_int i :: 64 word) = i"
  by (simp add: signed_of_int signed_take_bit_int_eq_self)

lemma stream_int_ok:
  assumes "knd s = None" "inp s = enc_int i @ rest" "room s (length (enc_int i))"
    and "\<bar>i\<bar> < 256 ^ k" "0 < k" "k \<le> 7" "bits = 8 * Suc k"
  shows "reads (stream_int bits) (of_int i) (length (enc_int i)) s"
proof (cases "i = 0")
  case True
  then have e: "enc_int i = rlp_head 0x80 0xB7 0" by (simp add: enc_int_def rlp_head_def)
  obtain s1 where s1: "stream_Kind s = (Inr (String, 0), s1)" "aft s s1 (length (rlp_head 0x80 0xB7 0))"
    using stream_Kind_string [of s 0 rest] assms(1-3) e by auto
  then show ?thesis using e True by (auto simp: stream_int_def andThen_def reads_def readInt_def rearm_def ok_def)
next
  case False
  let ?sg = "if 0 < i then 0x01 else 0x80 :: byte" let ?v = "big_Bytes (nat \<bar>i\<bar>)" let ?b = "?sg # ?v"
  let ?n = "length ?b" let ?h = "rlp_head 0x80 0xB7 ?n"
  have v: "?v \<noteq> []" "length ?v \<le> k" "hd ?v \<noteq> 0" "be_val ?v = nat \<bar>i\<bar>"
    using False assms(4) length_big_Bytes_le [of "nat \<bar>i\<bar>" k] hd_big_Bytes [of "nat \<bar>i\<bar>"] by (auto simp: nat_less_iff)
  have e: "enc_int i = ?h @ ?b" using False v(1) by (simp add: enc_int_def enc_string_def)
  have n: "?n < 2 ^ 64" "?n \<le> Suc k" "1 < ?n" using v assms(6) by (auto simp: length_greater_0_conv [symmetric] simp del: length_greater_0_conv)
  obtain s1 where s1: "stream_Kind s = (Inr (String, of_nat ?n), s1)" "aft s s1 (length ?h)" "inp s1 = ?b @ rest" "room s1 ?n"
    using stream_Kind_string [of s ?n "?b @ rest"] assms(1-3) e n by auto
  have le: "\<not> (of_nat ?n :: 64 word) > of_nat (bits div 8)"
    using n assms(6,7) of_nat_less_64 [of ?n "of_nat (Suc k)"] by (simp add: not_less unat_of_nat_64 del: of_nat_Suc)
  have uc: "(ucast (of_nat ?n :: 64 word) :: byte) = of_nat ?n" by (rule ucast_of_nat_64)
  have un: "unat (of_nat ?n :: byte) = ?n" using n assms(6) by (simp add: unat_of_nat del: of_nat_Suc)
  then have nz: "(of_nat ?n :: byte) \<noteq> 0" "(of_nat ?n :: byte) \<noteq> 1" using n(3) by (auto simp del: of_nat_Suc)
  obtain s2 where s2: "readByte s1 = (Inr ?sg, s2)" "aft s1 s2 1" "knd s2 = None"
    using readByte_ok [of s1 ?sg "?v @ rest"] s1(3) room_le [OF s1(4), of 1] by auto
  have r2: "room s2 (length ?v)" "inp s2 = ?v @ rest" using room_aft [of s1 1 "length ?v" s2] s1(3,4) s2(2) by (auto simp: aft_def)
  obtain s3 where s3: "readFull (length ?v) s2 = (Inr ?v, s3)" "aft s2 s3 (length ?v)" "knd s3 = None"
    using readFull_ok [OF r2(1)] r2(2) by auto
  have ab: "(of_nat (nat \<bar>i\<bar>) :: 64 word) = of_int \<bar>i\<bar>" by (metis abs_ge_zero of_int_of_nat_eq nat_0_le)
  have "readInt (of_nat ?n) s1 = (Inr (of_int i), s3)"
    using s2(1) s3(1) nz un v ab by (auto simp: readInt_def andThen_def ok_def Let_def simp del: of_nat_Suc)
  moreover have "(of_int i :: 64 word) \<noteq> 0"
  proof -
    have "(256 :: int) ^ k \<le> 256 ^ 7" using assms(6) by (rule power_increasing) simp
    then have "sint (of_int i :: 64 word) = i" using assms(4) by (intro sint_of_int_64) auto
    then show ?thesis using False by (metis signed_0)
  qed
  ultimately show ?thesis
    using s1 s3(3) le uc aft_trans [OF aft_trans [OF s1(2) s2(2)] s3(2)] e
    by (auto simp: stream_int_def andThen_def reads_def ok_def simp del: of_nat_Suc)
qed


lemma stream_Bool_ok:
  assumes "knd s = None" "inp s = (if b then [0x01] else [0x80]) @ rest" "room s 1"
  shows "reads stream_Bool b 1 s"
proof -
  have e: "enc_string (big_Bytes (if b then 1 else 0)) = (if b then [0x01] else [0x80])"
    by (simp add: big_Bytes_byte enc_string_1 enc_string_short)
  have "reads (stream_uint 8) (of_nat (if b then 1 else 0)) 1 s"
    using stream_uint_ok [of s "if b then 1 else 0" rest 1 8] assms e by (cases b) auto
  then show ?thesis by (cases b) (auto simp: reads_def stream_Bool_def andThen_def ok_def)
qed

lemma decodeBigIntNoPtr_ok:
  assumes "knd s = None" "inp s = enc_string (big_Bytes m) @ rest" "room s (length (enc_string (big_Bytes m)))"
  shows "reads decodeBigIntNoPtr (BigV (int m)) (length (enc_string (big_Bytes m))) s"
proof -
  have "reads (wrapped stream_Bytes) (big_Bytes m) (length (enc_string (big_Bytes m))) s"
    by (rule reads_wrapped) (rule stream_Bytes_ok [OF assms])
  then show ?thesis using hd_big_Bytes [of m] by (auto simp: decodeBigIntNoPtr_def reads_def andThen_def ok_def fail_def)
qed

lemma decodeByteArray_ok:
  assumes "knd s = None" "inp s = enc_string b @ rest" "room s (length (enc_string b))" "b \<noteq> [0]"
  shows "reads (decodeByteArray (length b)) (BytesV b) (length (enc_string b)) s"
proof (cases rule: enc_string_cases [of b])
  case (byte x)
  obtain s1 where s1: "stream_Kind s = (Inr (Byte, 0), s1)" "aft s s1 1" "byteval s1 = x" "knd s1 = Some Byte" "kinderr s1 = None"
    using stream_Kind_byte [of s x rest] assms byte by auto
  have "stream_uint 64 s1 = (Inr (ucast x), rearm s1)"
    using s1 assms(4) byte(1) by (simp add: stream_uint_def andThen_def stream_Kind_def)
  moreover have "(ucast (ucast x :: 64 word) :: byte) = x" by (simp add: ucast_up_ucast_id is_up)
  ultimately show ?thesis using s1 byte by (auto simp: decodeByteArray_def andThen_def reads_def) (simp add: rearm_def)
next
  case string
  let ?n = "length b" let ?h = "rlp_head 0x80 0xB7 ?n"
  have n: "?n < 2 ^ 64" using assms(3) string(1) by (simp add: room_def)
  obtain s1 where s1: "stream_Kind s = (Inr (String, of_nat ?n), s1)" "aft s s1 (length ?h)" "inp s1 = b @ rest" "room s1 ?n"
    using stream_Kind_string [of s ?n "b @ rest"] assms string n by auto
  obtain s2 where s2: "readFull ?n s1 = (Inr b, s2)" "aft s1 s2 ?n" "knd s2 = None"
    using readFull_ok [OF s1(4)] s1(3) by auto
  have "\<not> ((of_nat ?n :: 64 word) = 1 \<and> hd b < 128)" using string(2) of_nat_eq_64 [OF n, of 1] by auto
  then show ?thesis using s1 s2 aft_trans [OF s1(2) s2(2)] string
    by (auto simp: decodeByteArray_def andThen_def reads_def ok_def)
qed

text \<open>Entering a list: the stream is inside it with exactly its content ahead. Leaving it at its end.\<close>

definition exact :: "Stream \<Rightarrow> nat \<Rightarrow> bool" where
  "exact s n \<longleftrightarrow> stack s \<noteq> [] \<and> lp_size (last (stack s)) - pos (last (stack s)) = of_nat n \<and> n < 2 ^ 64"

lemma exact_aft: "exact s (m + n) \<Longrightarrow> aft s s1 m \<Longrightarrow> exact s1 n"
  by (auto simp: exact_def aft_def algebra_simps)

lemma stream_List_ok:
  assumes "knd s = None" "inp s = enc_list b @ rest" "room s (length (enc_list b))"
  shows "\<exists>s'. stream_List s = (Inr (of_nat (length b)), s') \<and> knd s' = None \<and> inp s' = b @ rest \<and> room s' (length b) \<and>
     exact s' (length b) \<and>
     (\<forall>s2 s3. aft s' s2 (length b) \<longrightarrow> stream_ListEnd s2 = (Inr (), s3) \<longrightarrow> aft s s3 (length (enc_list b)) \<and> knd s3 = None)"
proof -
  let ?n = "length b" let ?h = "rlp_head 0xC0 0xF7 ?n"
  have n: "?n < 2 ^ 64" using assms(3) by (simp add: room_def enc_list_def)
  obtain s1 where s1: "stream_Kind s = (Inr (List, of_nat ?n), s1)" "aft s s1 (length ?h)" "inp s1 = b @ rest" "room s1 ?n"
    using stream_Kind_list [of s ?n "b @ rest"] assms n by (auto simp: enc_list_def)
  let ?s = "s1\<lparr>stack := stack s1 @ [\<lparr>pos = 0, lp_size = of_nat ?n\<rparr>], knd := None, vsize := 0\<rparr>"
  have "stream_List s = (Inr (of_nat ?n), ?s)" using s1(1) by (simp add: stream_List_def andThen_def)
  moreover have "room ?s ?n" "exact ?s ?n" using s1(4) n by (auto simp: room_def exact_def unat_of_nat_64)
  moreover have "aft s s3 (length (enc_list b)) \<and> knd s3 = None"
    if a: "aft ?s s2 ?n" and e: "stream_ListEnd s2 = (Inr (), s3)" for s2 s3
  proof -
    have st: "stack s2 = stack s1 @ [\<lparr>pos = of_nat ?n, lp_size = of_nat ?n\<rparr>]" using a by (simp add: aft_def advance_def)
    then have "aft s1 s3 ?n" "knd s3 = None"
      using e a by (auto simp: aft_def stream_ListEnd_def tos_def Let_def split: if_splits)
    then show ?thesis using aft_trans [OF s1(2)] by (simp add: enc_list_def)
  qed
  ultimately show ?thesis using s1(3) by (intro exI [of _ ?s]) simp
qed

lemma stream_ListEnd_ok: "exact s 0 \<Longrightarrow> \<exists>s'. stream_ListEnd s = (Inr (), s')"
  by (auto simp: exact_def stream_ListEnd_def tos_def Let_def)


section \<open>Round trip\<close>

text \<open>The values that survive: integers whose sign-and-magnitude form fits the width of their type, non-negative
  big integers, pointers that are nil only under the \<^verbatim>\<open>nil\<close> tag and whose value then is not empty, byte arrays
  other than one zero byte.\<close>

fun head_ok :: "ty \<Rightarrow> bool" where
  "head_ok (PtrT t) = head_ok t"
| "head_ok OtherT = False"
| "head_ok _ = True"

fun rt :: "ty \<Rightarrow> tags \<Rightarrow> val \<Rightarrow> bool" and rtFields :: "(tags \<times> ty) list \<Rightarrow> val list \<Rightarrow> bool" where
  "rt RawT ts v = False"
| "rt BigIntPtrT ts v = (case v of PtrV (Some (BigV i)) \<Rightarrow> 0 \<le> i | _ \<Rightarrow> False)"
| "rt BigIntT ts v = (case v of BigV i \<Rightarrow> 0 \<le> i | _ \<Rightarrow> False)"
| "rt (UintT n) ts v = (case v of UintV i \<Rightarrow> n \<in> {8, 16, 32, 64} \<and> unat i < 2 ^ n | _ \<Rightarrow> False)"
| "rt (IntT n) ts v = (case v of IntV i \<Rightarrow> n \<in> {16, 32, 64} \<and> \<bar>sint i\<bar> < 2 ^ (n - 8) | _ \<Rightarrow> False)"
| "rt BoolT ts v = (case v of BoolV b \<Rightarrow> True | _ \<Rightarrow> False)"
| "rt StringT ts v = (case v of BytesV b \<Rightarrow> True | _ \<Rightarrow> False)"
| "rt BytesT ts v = (case v of BytesV b \<Rightarrow> True | _ \<Rightarrow> False)"
| "rt (ByteArrayT n) ts v = (case v of BytesV b \<Rightarrow> length b = n \<and> b \<noteq> [0] | _ \<Rightarrow> False)"
| "rt (SliceT t) ts v = (case v of ListV vs \<Rightarrow> head_ok t \<and> (\<forall>v \<in> set vs. rt t no_tags v) | _ \<Rightarrow> False)"
| "rt (ArrayT n t) ts v = (case v of ListV vs \<Rightarrow> length vs = n \<and> (\<forall>v \<in> set vs. rt t no_tags v) | _ \<Rightarrow> False)"
| "rt (StructT fs) ts v = (case v of ListV vs \<Rightarrow> rtFields fs vs | _ \<Rightarrow> False)"
| "rt (PtrT t) ts v =
     (case v of
        PtrV None \<Rightarrow> head_ok t \<and> nilOK ts \<and> enc (PtrT t) ts v \<in> {[0x80], [0xC0]}
      | PtrV (Some v) \<Rightarrow> rt t no_tags v \<and> (nilOK ts \<longrightarrow> enc t no_tags v \<notin> {[0x80], [0xC0]})
      | _ \<Rightarrow> False)"
| "rt OtherT ts v = False"
| "rtFields [] vs = (vs = [])"
| "rtFields ((ts, t) # fs) vs =
     (case vs of [] \<Rightarrow> False
      | v # vs \<Rightarrow>
          if ignored ts then v = zero_val t \<and> rtFields fs vs
          else rt t ts v \<and> (tail ts \<longrightarrow> fs = [] \<and> (\<exists>u. t = SliceT u)) \<and> rtFields fs vs)"

lemma enc_string_nonempty [simp]: "enc_string b \<noteq> []"
  by (cases rule: enc_string_cases [of b]) (auto simp: rlp_head_def)

lemma enc_list_nonempty [simp]: "enc_list b \<noteq> []"
  by (simp add: enc_list_def rlp_head_def)

lemma enc_int_nonempty [simp]: "enc_int i \<noteq> []"
  by (simp add: enc_int_def)

lemma rt_enc_nonempty: "rt t ts v \<Longrightarrow> \<not> tail ts \<Longrightarrow> enc t ts v \<noteq> []"
proof (induction t arbitrary: ts v)
  case (PtrT t)
  have "\<not> tail no_tags" by (simp add: no_tags_def)
  then show ?case using PtrT by (cases v) (auto split: option.splits)
qed (auto split: val.splits option.splits simp: Let_def)

text \<open>At the end of a list every decoder reports it and leaves the stream alone.\<close>

definition at_end :: "'a decoder \<Rightarrow> Stream \<Rightarrow> bool" where
  "at_end m s \<longleftrightarrow> (\<exists>s'. m s = (Inl ErrEndOfLine, s') \<and> aft s s' 0 \<and> knd s' = None)"

lemma at_end_andThen [intro!]: "at_end m s \<Longrightarrow> at_end (andThen m f) s"
  by (auto simp: at_end_def andThen_def)

lemma at_end_wrapped [intro!]: "at_end m s \<Longrightarrow> at_end (wrapped m) s"
  by (auto simp: at_end_def wrapped_def wrapStreamError_def)

lemma at_end_Kind [intro]: "exact s 0 \<Longrightarrow> knd s = None \<Longrightarrow> at_end stream_Kind s"
  by (auto simp: at_end_def exact_def stream_Kind_def tos_def aft_0 sim_def)

lemmas decoder_defs = stream_Raw_def stream_Bytes_def stream_uint_def stream_int_def stream_Bool_def stream_List_def
  decodeRawValue_def decodeUint_def decodeInt_def decodeBool_def decodeString_def decodeByteSlice_def
  decodeBigIntNoPtr_def decodeBigInt_def decodeByteArray_def decodeListSlice_def decodeListArray_def

lemma decode_at_end: "exact s 0 \<Longrightarrow> knd s = None \<Longrightarrow> head_ok t \<Longrightarrow> \<not> tail ts \<Longrightarrow> at_end (decode t ts) s"
proof (induction t arbitrary: ts)
  case (PtrT t)
  have k: "at_end stream_Kind s" using PtrT by blast
  have nt: "\<not> tail no_tags" by (simp add: no_tags_def)
  show ?case
  proof (cases "nilOK ts")
    case True
    then show ?thesis using k by (auto simp: at_end_def optionalPtr_def rearm_def aft_def)
  next
    case False
    then show ?thesis using PtrT nt by (simp add: at_end_andThen)
  qed
qed (auto simp: decoder_defs)


text \<open>\<open>undoes t ts v\<close>: the decoder of the type, placed before the encoding of the value, returns the value.\<close>

definition undoes :: "ty \<Rightarrow> tags \<Rightarrow> val \<Rightarrow> bool" where
  "undoes t ts v \<longleftrightarrow>
     (\<forall>s rest. knd s = None \<longrightarrow> inp s = enc t ts v @ rest \<longrightarrow> room s (length (enc t ts v)) \<longrightarrow>
        (tail ts \<longrightarrow> (\<exists>u. t = SliceT u) \<and> exact s (length (enc t ts v))) \<longrightarrow>
        reads (decode t ts) v (length (enc t ts v)) s)"

lemma no_tags_simps [simp]: "\<not> tail no_tags" "\<not> nilOK no_tags" "\<not> ignored no_tags"
  by (simp_all add: no_tags_def)

lemma undoesD: "undoes t no_tags v \<Longrightarrow> knd s = None \<Longrightarrow> inp s = enc t no_tags v @ rest \<Longrightarrow> room s (length (enc t no_tags v)) \<Longrightarrow>
    reads (decode t no_tags) v (length (enc t no_tags v)) s"
  by (auto simp: undoes_def)

lemma sliceElems_ok:
  assumes "\<forall>v \<in> set vs. undoes t no_tags v" "head_ok t" "knd s = None"
    and "inp s = concat (map (enc t no_tags) vs) @ rest" "room s (length (concat (map (enc t no_tags) vs)))"
    and "exact s (length (concat (map (enc t no_tags) vs)))" "length vs < fuel"
  shows "reads (sliceElems fuel (decode t no_tags)) vs (length (concat (map (enc t no_tags) vs))) s"
  using assms
proof (induction vs arbitrary: s fuel)
  case Nil
  then obtain f where f: "fuel = Suc f" by (cases fuel) auto
  have "at_end (decode t no_tags) s" using Nil by (intro decode_at_end) simp_all
  then show ?case using f by (auto simp: at_end_def reads_def)
next
  case (Cons v vs)
  then obtain f where f: "fuel = Suc f" by (cases fuel) auto
  let ?e = "enc t no_tags v" let ?c = "concat (map (enc t no_tags) vs)"
  have r: "room s (length ?e + length ?c)" "exact s (length ?e + length ?c)" using Cons.prems by simp_all
  have "reads (decode t no_tags) v (length ?e) s"
    using Cons.prems room_le [OF r(1), of "length ?e"] by (intro undoesD [of t v s "?c @ rest"]) simp_all
  then obtain s1 where s1: "decode t no_tags s = (Inr v, s1)" "aft s s1 (length ?e)" "knd s1 = None" by (auto simp: reads_def)
  have "reads (sliceElems f (decode t no_tags)) vs (length ?c) s1"
    using Cons.prems s1(2,3) f room_aft [OF r(1) s1(2)] exact_aft [OF r(2) s1(2)]
    by (intro Cons.IH) (auto simp: aft_def)
  then obtain s2 where "sliceElems f (decode t no_tags) s1 = (Inr vs, s2)" "aft s1 s2 (length ?c)" "knd s2 = None"
    by (auto simp: reads_def)
  then show ?case using s1 f aft_trans [OF s1(2)] by (auto simp: reads_def andThen_def ok_def)
qed

lemma arrayElems_ok:
  assumes "\<forall>v \<in> set vs. undoes t no_tags v" "knd s = None"
    and "inp s = concat (map (enc t no_tags) vs) @ rest" "room s (length (concat (map (enc t no_tags) vs)))"
  shows "reads (arrayElems (length vs) (decode t no_tags)) vs (length (concat (map (enc t no_tags) vs))) s"
  using assms
proof (induction vs arbitrary: s)
  case Nil
  then show ?case by (auto simp: reads_def)
next
  case (Cons v vs)
  let ?e = "enc t no_tags v" let ?c = "concat (map (enc t no_tags) vs)"
  have r: "room s (length ?e + length ?c)" using Cons.prems by simp
  have "reads (decode t no_tags) v (length ?e) s"
    using Cons.prems room_le [OF r(1), of "length ?e"] by (intro undoesD [of t v s "?c @ rest"]) simp_all
  then obtain s1 where s1: "decode t no_tags s = (Inr v, s1)" "aft s s1 (length ?e)" "knd s1 = None" by (auto simp: reads_def)
  have "reads (arrayElems (length vs) (decode t no_tags)) vs (length ?c) s1"
    using Cons.prems s1(2,3) room_aft [OF r(1) s1(2)] by (intro Cons.IH) (auto simp: aft_def)
  then obtain s2 where "arrayElems (length vs) (decode t no_tags) s1 = (Inr vs, s2)" "aft s1 s2 (length ?c)" "knd s2 = None"
    by (auto simp: reads_def)
  then show ?case using s1 aft_trans [OF s1(2)] by (auto simp: reads_def andThen_def ok_def)
qed

text \<open>A decoder for the content of a list, between \<^verbatim>\<open>List\<close> and \<^verbatim>\<open>ListEnd\<close>.\<close>

lemma reads_list:
  assumes "knd s = None" "inp s = enc_list b @ rest" "room s (length (enc_list b))"
    and "\<And>s'. knd s' = None \<Longrightarrow> inp s' = b @ rest \<Longrightarrow> room s' (length b) \<Longrightarrow> exact s' (length b) \<Longrightarrow> reads m a (length b) s'"
  shows "reads (andThen (wrapped stream_List) (\<lambda>_. andThen m (\<lambda>x. andThen (wrapped stream_ListEnd) (\<lambda>_. ok (f x))))) (f a) (length (enc_list b)) s \<and>
    reads (andThen (wrapped stream_List) (\<lambda>_. andThen m (\<lambda>x. andThen stream_ListEnd (\<lambda>_. ok (f x))))) (f a) (length (enc_list b)) s"
proof -
  obtain s1 where s1: "stream_List s = (Inr (of_nat (length b)), s1)" "knd s1 = None" "inp s1 = b @ rest" "room s1 (length b)"
     "exact s1 (length b)"
     "\<And>s2 s3. aft s1 s2 (length b) \<Longrightarrow> stream_ListEnd s2 = (Inr (), s3) \<Longrightarrow> aft s s3 (length (enc_list b)) \<and> knd s3 = None"
    using stream_List_ok [OF assms(1-3)] by blast
  obtain s2 where s2: "m s1 = (Inr a, s2)" "aft s1 s2 (length b)" using assms(4) [OF s1(2-5)] by (auto simp: reads_def)
  have "exact s2 0" using exact_aft [of s1 "length b" 0] s1(5) s2(2) by simp
  then obtain s3 where s3: "stream_ListEnd s2 = (Inr (), s3)" using stream_ListEnd_ok by blast
  then show ?thesis using s1(1) s1(6) [OF s2(2) s3] s2(1) by (auto simp: reads_def andThen_def wrapped_def ok_def)
qed

lemma length_concat_enc: "\<forall>v \<in> set vs. f v \<noteq> [] \<Longrightarrow> length vs \<le> length (concat (map f vs))"
proof (induction vs)
  case (Cons v vs)
  then show ?case by (cases "f v") simp_all
qed simp

lemma decodeSliceElems_ok:
  assumes "\<forall>v \<in> set vs. undoes t no_tags v \<and> enc t no_tags v \<noteq> []" "head_ok t" "knd s = None"
    and "inp s = concat (map (enc t no_tags) vs) @ rest" "room s (length (concat (map (enc t no_tags) vs)))"
    and "exact s (length (concat (map (enc t no_tags) vs)))"
  shows "reads (decodeSliceElems (decode t no_tags)) (ListV vs) (length (concat (map (enc t no_tags) vs))) s"
proof -
  have "length vs < Suc (length (inp s))" using assms(1,4) length_concat_enc [of vs "enc t no_tags"] by simp
  then have "reads (sliceElems (Suc (length (inp s))) (decode t no_tags)) vs (length (concat (map (enc t no_tags) vs))) s"
    using assms by (intro sliceElems_ok [of vs t s rest]) auto
  then show ?thesis by (auto simp: reads_def decodeSliceElems_def andThen_def ok_def)
qed

lemma decodeListSlice_ok:
  assumes "\<forall>v \<in> set vs. undoes t no_tags v \<and> enc t no_tags v \<noteq> []" "head_ok t" "knd s = None"
    and "inp s = enc_list (concat (map (enc t no_tags) vs)) @ rest" "room s (length (enc_list (concat (map (enc t no_tags) vs))))"
  shows "reads (decodeListSlice (decode t no_tags)) (ListV vs) (length (enc_list (concat (map (enc t no_tags) vs)))) s"
proof -
  let ?b = "concat (map (enc t no_tags) vs)"
  have n: "length ?b < 2 ^ 64" using assms(5) by (simp add: room_def enc_list_def)
  obtain s1 where s1: "stream_List s = (Inr (of_nat (length ?b)), s1)" "knd s1 = None" "inp s1 = ?b @ rest" "room s1 (length ?b)"
     "exact s1 (length ?b)"
     "\<And>s2 s3. aft s1 s2 (length ?b) \<Longrightarrow> stream_ListEnd s2 = (Inr (), s3) \<Longrightarrow> aft s s3 (length (enc_list ?b)) \<and> knd s3 = None"
    using stream_List_ok [OF assms(3-5)] by blast
  have e: "\<exists>s3. stream_ListEnd s2 = (Inr (), s3) \<and> aft s s3 (length (enc_list ?b)) \<and> knd s3 = None" if "aft s1 s2 (length ?b)" for s2
    using that s1(6) stream_ListEnd_ok [of s2] exact_aft [of s1 "length ?b" 0 s2] s1(5) by fastforce
  show ?thesis
  proof (cases "vs = []")
    case True
    then show ?thesis using s1(1) e [of s1] by (auto simp: reads_def decodeListSlice_def andThen_def wrapped_def ok_def)
  next
    case False
    then have "0 < length ?b" using assms(1) length_concat_enc [of vs "enc t no_tags"] by (cases vs) auto
    then have z: "(of_nat (length ?b) :: 64 word) \<noteq> 0" using n of_nat_eq_64 [of "length ?b" 0] by simp
    obtain s2 where "decodeSliceElems (decode t no_tags) s1 = (Inr (ListV vs), s2)" "aft s1 s2 (length ?b)"
      using decodeSliceElems_ok [OF assms(1,2) s1(2-5)] by (auto simp: reads_def)
    then show ?thesis using s1(1) z e [of s2] by (auto simp: reads_def decodeListSlice_def andThen_def wrapped_def ok_def)
  qed
qed

lemma optionalPtr_nil:
  assumes "knd s = None" "inp s = e @ rest" "e \<in> {[0x80], [0xC0]}" "room s 1"
  shows "reads (optionalPtr m) (PtrV None) 1 s"
proof -
  have "e = rlp_head 0x80 0xB7 0 \<or> e = rlp_head 0xC0 0xF7 0" using assms(3) by (auto simp: rlp_head_def)
  then have "\<exists>s' k. stream_Kind s = (Inr (k, 0), s') \<and> k \<noteq> Byte \<and> aft s s' 1"
    using stream_Kind_string [of s 0 rest] stream_Kind_list [of s 0 rest] assms by (auto simp: rlp_head_def)
  then show ?thesis by (auto simp: optionalPtr_def reads_def) (simp add: rearm_def)
qed

text \<open>A cached header does not change what a decoder returns.\<close>

lemma willRead_kinderr: "willRead n s = (r, s') \<Longrightarrow> kinderr s' = kinderr s"
  by (auto simp: willRead_def rearm_def Let_def split: option.splits if_splits)

lemma readByte_kinderr: "readByte s = (r, s') \<Longrightarrow> kinderr s' = kinderr s"
  by (auto simp: readByte_def andThen_def dest!: willRead_kinderr split: prod.splits sum.splits list.splits)

lemma readFull_kinderr: "readFull n s = (r, s') \<Longrightarrow> kinderr s' = kinderr s"
  by (auto simp: readFull_def andThen_def dest!: willRead_kinderr split: prod.splits sum.splits if_splits)

lemma readUint_kinderr: "readUint n s = (r, s') \<Longrightarrow> kinderr s' = kinderr s"
  by (auto simp: readUint_def andThen_def rearm_def ok_def fail_def dest!: readByte_kinderr readFull_kinderr
      split: prod.splits sum.splits if_splits)

lemma readKind_kinderr: "readKind s = (Inr r, s') \<Longrightarrow> kinderr s' = kinderr s"
proof -
  assume r: "readKind s = (Inr r, s')"
  then obtain b s1 where s1: "readByte s = (Inr b, s1)" by (cases "readByte s"; cases "fst (readByte s)") (auto simp: readKind_def)
  then have "kinderr s1 = kinderr s" by (rule readByte_kinderr)
  then show ?thesis using r s1
    by (auto simp: readKind_def andThen_def ok_def fail_def Let_def dest!: readUint_kinderr split: if_splits prod.splits sum.splits)
qed

lemma stream_Kind_idem:
  assumes "stream_Kind s = (Inr (k, n), s1)" "knd s = None"
  shows "stream_Kind s1 = (Inr (k, n), s1)"
proof -
  obtain s2 where s2: "readKind (s\<lparr>kinderr := None\<rparr>) = (Inr (k, n), s2)" "s1 = s2\<lparr>knd := Some k, vsize := n\<rparr>"
    using assms by (auto simp: stream_Kind_def Let_def split: if_splits option.splits prod.splits sum.splits)
  then have "kinderr s2 = None" using readKind_kinderr by fastforce
  then show ?thesis using s2(2) by (simp add: stream_Kind_def)
qed


lemma andThen_Kind_cached: "stream_Kind s = (Inr r, s1) \<Longrightarrow> stream_Kind s1 = (Inr r, s1) \<Longrightarrow> andThen stream_Kind f s1 = andThen stream_Kind f s"
  by (simp add: andThen_def)

lemma andThen_cong: "m s1 = m s \<Longrightarrow> andThen m f s1 = andThen m f s"
  by (simp add: andThen_def)

lemma wrapped_cong: "m s1 = m s \<Longrightarrow> wrapped m s1 = wrapped m s"
  by (simp add: wrapped_def)

lemma decode_cached:
  assumes k: "stream_Kind s = (Inr r, s1)" "stream_Kind s1 = (Inr r, s1)"
  shows "head_ok t \<Longrightarrow> \<not> tail ts \<Longrightarrow> decode t ts s1 = decode t ts s"
proof (induction t arbitrary: ts)
  case (PtrT t)
  then show ?case using k by (auto simp: optionalPtr_def intro: andThen_cong)
qed (auto simp: decoder_defs intro!: andThen_cong wrapped_cong andThen_Kind_cached [OF k])

lemma rt_head_ok: "rt t ts v \<Longrightarrow> head_ok t"
  by (induction t arbitrary: ts v) (auto split: val.splits option.splits)

lemma enc_shape: "rt t ts v \<Longrightarrow> \<not> tail ts \<Longrightarrow> \<not> nilOK ts \<Longrightarrow> (\<exists>b. enc t ts v = enc_string b) \<or> (\<exists>b. enc t ts v = enc_list b)"
proof (induction t arbitrary: ts v)
  case (IntT n)
  have "[0x80] = enc_string []" by (simp add: enc_string_short)
  then show ?case using IntT by (auto simp: enc_int_def split: val.splits)
next
  case BoolT
  have "[0x80] = enc_string []" "[0x01] = enc_string [0x01]" by (simp_all add: enc_string_short enc_string_1)
  then show ?case using BoolT by (auto split: val.splits)
next
  case (PtrT t)
  then show ?case by (auto split: val.splits option.splits)
qed (auto simp: Let_def split: val.splits option.splits)

lemma enc_first:
  assumes "rt t no_tags v" "enc t no_tags v \<notin> {[0x80], [0xC0]}" "knd s = None" "inp s = enc t no_tags v @ rest" "room s (length (enc t no_tags v))"
  shows "\<exists>k n s1. stream_Kind s = (Inr (k, n), s1) \<and> (n = 0 \<longrightarrow> k = Byte)"
proof -
  have nz: "(of_nat n :: 64 word) \<noteq> 0" if "n \<noteq> 0" "n < 2 ^ 64" for n using that of_nat_eq_64 [of n 0] by simp
  consider b where "enc t no_tags v = enc_string b" | b where "enc t no_tags v = enc_list b" using enc_shape assms(1) by force
  then show ?thesis
  proof cases
    case (1 b)
    show ?thesis
    proof (cases rule: enc_string_cases [of b])
      case (byte x)
      then show ?thesis using stream_Kind_byte [of s x rest] assms 1 by auto
    next
      case string
      have "length b \<noteq> 0" using assms(2) 1 string by (auto simp: rlp_head_def)
      moreover have "length b < 2 ^ 64" using assms(5) 1 string by (simp add: room_def)
      ultimately show ?thesis using stream_Kind_string [of s "length b" "b @ rest"] assms 1 string nz by fastforce
    qed
  next
    case (2 b)
    have "length b \<noteq> 0" using assms(2) 2 by (auto simp: rlp_head_def enc_list_def)
    moreover have "length b < 2 ^ 64" using assms(5) 2 by (simp add: room_def enc_list_def)
    ultimately show ?thesis using stream_Kind_list [of s "length b" "b @ rest"] assms 2 nz by (fastforce simp: enc_list_def)
  qed
qed

lemma optionalPtr_ok:
  assumes "reads (decode t no_tags) v n s" "rt t no_tags v" "stream_Kind s = (Inr (k, m), s1)" "m = 0 \<longrightarrow> k = Byte" "knd s = None"
  shows "reads (optionalPtr (decode t no_tags)) (PtrV (Some v)) n s"
proof -
  have "decode t no_tags s1 = decode t no_tags s"
    by (rule decode_cached [OF assms(3) stream_Kind_idem [OF assms(3,5)]]) (use rt_head_ok assms(2) in auto)
  then show ?thesis using assms by (auto simp: reads_def optionalPtr_def andThen_def ok_def)
qed

definition undoesFields :: "(tags \<times> ty) list \<Rightarrow> val list \<Rightarrow> bool" where
  "undoesFields fs vs \<longleftrightarrow>
     (\<forall>s rest. knd s = None \<longrightarrow> inp s = encFields fs vs @ rest \<longrightarrow> room s (length (encFields fs vs)) \<longrightarrow>
        exact s (length (encFields fs vs)) \<longrightarrow> reads (decodeFields fs) vs (length (encFields fs vs)) s)"

lemma undoesI:
  "(\<And>s rest. knd s = None \<Longrightarrow> inp s = enc t ts v @ rest \<Longrightarrow> room s (length (enc t ts v)) \<Longrightarrow> \<not> tail ts \<Longrightarrow>
     reads (decode t ts) v (length (enc t ts v)) s) \<Longrightarrow> (\<And>u. t \<noteq> SliceT u) \<Longrightarrow> undoes t ts v"
  by (auto simp: undoes_def)

lemma reads_map: "reads m a n s \<Longrightarrow> reads (andThen (wrapped m) (\<lambda>x. ok (f x))) (f a) n s"
  by (intro reads_andThen_ok reads_wrapped)

lemma rt_undoes:
  "rt t ts v \<Longrightarrow> undoes t ts v"
  "rtFields fs vs \<Longrightarrow> undoesFields fs vs"
proof (induction t ts v and fs vs rule: rt_rtFields.induct)
  case (2 ts v)
  then obtain i where v: "v = PtrV (Some (BigV i))" "0 \<le> i" by (auto split: val.splits option.splits)
  show ?case unfolding v(1) decode.simps decodeBigInt_def
  proof (rule undoesI, unfold decode.simps decodeBigInt_def)
    fix s rest assume "knd s = None" "inp s = enc BigIntPtrT ts (PtrV (Some (BigV i))) @ rest" "room s (length (enc BigIntPtrT ts (PtrV (Some (BigV i)))))"
    then have "reads decodeBigIntNoPtr (BigV (int (nat i))) (length (enc_string (big_Bytes (nat i)))) s"
      by (intro decodeBigIntNoPtr_ok [of s "nat i" rest]) simp_all
    from reads_andThen_ok [OF this, of "\<lambda>i. PtrV (Some i)"] v(2)
    show "reads (andThen decodeBigIntNoPtr (\<lambda>i. ok (PtrV (Some i)))) (PtrV (Some (BigV i))) (length (enc BigIntPtrT ts (PtrV (Some (BigV i))))) s" by simp
  qed simp
next
  case (3 ts v)
  then obtain i where v: "v = BigV i" "0 \<le> i" by (auto split: val.splits)
  show ?case unfolding v(1) by (rule undoesI) (use v(2) decodeBigIntNoPtr_ok [of _ "nat i"] in simp_all)
next
  case (4 n ts v)
  then obtain i where v: "v = UintV i" "n \<in> {8, 16, 32, 64}" "unat i < 2 ^ n" by (auto split: val.splits)
  then have "\<exists>k. n = 8 * k \<and> k \<le> 8 \<and> 0 < k \<and> unat i < 256 ^ k"
    by (intro exI [of _ "n div 8"]) auto
  then obtain k where k: "n = 8 * k" "k \<le> 8" "0 < k" "unat i < 256 ^ k" by blast
  show ?case unfolding v(1)
    by (rule undoesI) (use k reads_map [OF stream_uint_ok [of _ "unat i" _ k n], where f = UintV] in \<open>simp_all add: decodeUint_def\<close>)
next
  case (5 n ts v)
  then obtain i where v: "v = IntV i" "n \<in> {16, 32, 64}" "\<bar>sint i\<bar> < 2 ^ (n - 8)" by (auto split: val.splits)
  then have "\<exists>k. n = 8 * Suc k \<and> k \<le> 7 \<and> 0 < k \<and> \<bar>sint i\<bar> < 256 ^ k"
    by (intro exI [of _ "n div 8 - 1"]) auto
  then obtain k where k: "n = 8 * Suc k" "k \<le> 7" "0 < k" "\<bar>sint i\<bar> < 256 ^ k" by blast
  show ?case unfolding v(1)
    by (rule undoesI) (use k reads_map [OF stream_int_ok [of _ "sint i" _ k n], where f = IntV] in \<open>simp_all add: decodeInt_def\<close>)
next
  case (6 ts v)
  then obtain b where v: "v = BoolV b" by (auto split: val.splits)
  show ?case unfolding v
  proof (rule undoesI)
    fix s rest
    assume "knd s = None" "inp s = enc BoolT ts (BoolV b) @ rest" "room s (length (enc BoolT ts (BoolV b)))"
    then show "reads (decode BoolT ts) (BoolV b) (length (enc BoolT ts (BoolV b))) s"
      using reads_map [OF stream_Bool_ok [of s b rest], where f = BoolV] by (cases b) (simp_all add: decodeBool_def)
  qed simp
next
  case (7 ts v)
  then obtain b where v: "v = BytesV b" by (auto split: val.splits)
  show ?case unfolding v
    by (rule undoesI) (use reads_map [OF stream_Bytes_ok [of _ b], where f = BytesV] in \<open>simp_all add: decodeString_def\<close>)
next
  case (8 ts v)
  then obtain b where v: "v = BytesV b" by (auto split: val.splits)
  show ?case unfolding v
    by (rule undoesI) (use reads_map [OF stream_Bytes_ok [of _ b], where f = BytesV] in \<open>simp_all add: decodeByteSlice_def\<close>)
next
  case (9 n ts v)
  then obtain b where v: "v = BytesV b" "length b = n" "b \<noteq> [0]" by (auto split: val.splits)
  show ?case unfolding v(1) by (rule undoesI) (use decodeByteArray_ok [of _ b] v(2,3) in simp_all)
next
  case (10 t ts v)
  then obtain vs where v: "v = ListV vs" "head_ok t" "\<forall>v \<in> set vs. rt t no_tags v" by (auto split: val.splits)
  then have u: "\<forall>v \<in> set vs. undoes t no_tags v \<and> enc t no_tags v \<noteq> []" using "10.IH" v(1) rt_enc_nonempty by simp
  show ?case unfolding v(1) undoes_def
  proof (intro allI impI)
    fix s rest
    assume s: "knd s = None" "inp s = enc (SliceT t) ts (ListV vs) @ rest" "room s (length (enc (SliceT t) ts (ListV vs)))"
      "tail ts \<longrightarrow> (\<exists>u. SliceT t = SliceT u) \<and> exact s (length (enc (SliceT t) ts (ListV vs)))"
    show "reads (decode (SliceT t) ts) (ListV vs) (length (enc (SliceT t) ts (ListV vs))) s"
    proof (cases "tail ts")
      case True
      then show ?thesis using decodeSliceElems_ok [OF u v(2) s(1), of rest] s(2-4) by simp
    next
      case False
      then show ?thesis using decodeListSlice_ok [OF u v(2) s(1), of rest] s(2-4) by simp
    qed
  qed
next
  case (11 n t ts v)
  then obtain vs where v: "v = ListV vs" "length vs = n" "\<forall>v \<in> set vs. rt t no_tags v" by (auto split: val.splits)
  then have u: "\<forall>v \<in> set vs. undoes t no_tags v" using "11.IH" by blast
  show ?case unfolding v(1)
  proof (rule undoesI)
    fix s rest
    assume s: "knd s = None" "inp s = enc (ArrayT n t) ts (ListV vs) @ rest" "room s (length (enc (ArrayT n t) ts (ListV vs)))" "\<not> tail ts"
    show "reads (decode (ArrayT n t) ts) (ListV vs) (length (enc (ArrayT n t) ts (ListV vs))) s"
      using reads_list [of s "concat (map (enc t no_tags) vs)" rest "arrayElems n (decode t no_tags)" vs ListV] arrayElems_ok [OF u] s v(2)
      by (simp add: decodeListArray_def)
  qed simp
next
  case (12 fs ts v)
  then obtain vs where v: "v = ListV vs" "rtFields fs vs" by (auto split: val.splits)
  then have u: "undoesFields fs vs" using "12.IH" by blast
  show ?case unfolding v(1)
  proof (rule undoesI)
    fix s rest
    assume s: "knd s = None" "inp s = enc (StructT fs) ts (ListV vs) @ rest" "room s (length (enc (StructT fs) ts (ListV vs)))"
    show "reads (decode (StructT fs) ts) (ListV vs) (length (enc (StructT fs) ts (ListV vs))) s"
      using reads_list [of s "encFields fs vs" rest "decodeFields fs" vs ListV] u s by (simp add: undoesFields_def)
  qed simp
next
  case (13 t ts v)
  then obtain p where v: "v = PtrV p" by (auto split: val.splits)
  show ?case unfolding v
  proof (rule undoesI)
    fix s rest
    assume s: "knd s = None" "inp s = enc (PtrT t) ts (PtrV p) @ rest" "room s (length (enc (PtrT t) ts (PtrV p)))"
    show "reads (decode (PtrT t) ts) (PtrV p) (length (enc (PtrT t) ts (PtrV p))) s"
    proof (cases p)
      case None
      then have e: "nilOK ts" "enc (PtrT t) ts (PtrV p) \<in> {[0x80], [0xC0]}" using "13.prems" v by auto
      then have "length (enc (PtrT t) ts (PtrV p)) = 1" by auto
      then show ?thesis using optionalPtr_nil [OF s(1,2) e(2)] s(3) e(1) None by simp
    next
      case (Some u)
      then have r: "rt t no_tags u" "undoes t no_tags u" using "13.prems" "13.IH" v by auto
      have e: "enc (PtrT t) ts (PtrV p) = enc t no_tags u" using Some by simp
      have d: "reads (decode t no_tags) u (length (enc t no_tags u)) s" using undoesD [OF r(2)] s e by simp
      show ?thesis
      proof (cases "nilOK ts")
        case True
        then have "enc t no_tags u \<notin> {[0x80], [0xC0]}" using "13.prems" v Some by simp
        from enc_first [OF r(1) this s(1)] s(2,3) e
        obtain k n s1 where "stream_Kind s = (Inr (k, n), s1)" "n = 0 \<longrightarrow> k = Byte" by auto
        from optionalPtr_ok [OF d r(1) this s(1)] show ?thesis using True e Some by simp
      next
        case False
        then show ?thesis using reads_andThen_ok [OF d] e Some by simp
      qed
    qed
  qed simp
next
  case (15 vs)
  then show ?case by (auto simp: undoesFields_def reads_def ok_def)
next
  case (16 ts t fs vs)
  then obtain v ws where vs: "vs = v # ws" by (auto split: list.splits)
  show ?case
  proof (cases "ignored ts")
    case True
    then have r: "v = zero_val t" "undoesFields fs ws" using "16.prems" "16.IH"(1) vs by auto
    have "reads (decodeFields ((ts, t) # fs)) vs n s" if "reads (decodeFields fs) ws n s" for n s
      using reads_andThen_ok [OF that, of "\<lambda>vs. zero_val t # vs"] r(1) True vs by simp
    then show ?thesis using r True vs by (auto simp: undoesFields_def)
  next
    case False
    then have r: "rt t ts v" "tail ts \<longrightarrow> fs = [] \<and> (\<exists>u. t = SliceT u)" "undoes t ts v" "undoesFields fs ws"
      using "16.prems" "16.IH"(2,3) vs by auto
    show ?thesis unfolding undoesFields_def vs
    proof (intro allI impI)
      let ?e = "enc t ts v" let ?c = "encFields fs ws"
      have e: "encFields ((ts, t) # fs) (v # ws) = ?e @ ?c" using False by simp
      fix s rest
      assume s: "knd s = None" "inp s = encFields ((ts, t) # fs) (v # ws) @ rest" "room s (length (encFields ((ts, t) # fs) (v # ws)))"
        "exact s (length (encFields ((ts, t) # fs) (v # ws)))"
      have rm: "room s (length ?e + length ?c)" "exact s (length ?e + length ?c)" using s e by simp_all
      have "?c = []" if "tail ts" using that r(2) by simp
      then have "reads (decode t ts) v (length ?e) s"
        using r(3) s(1,2) e rm room_le [OF rm(1), of "length ?e"] r(2) unfolding undoes_def by auto
      then obtain s1 where s1: "decode t ts s = (Inr v, s1)" "aft s s1 (length ?e)" "knd s1 = None" by (auto simp: reads_def)
      have "inp s1 = ?c @ rest" using s1(2) s(2) e by (simp add: aft_def)
      then have "reads (decodeFields fs) ws (length ?c) s1"
        using r(4) s1(3) room_aft [OF rm(1) s1(2)] exact_aft [OF rm(2) s1(2)] unfolding undoesFields_def by blast
      then obtain s2 where "decodeFields fs s1 = (Inr ws, s2)" "aft s1 s2 (length ?c)" "knd s2 = None" by (auto simp: reads_def)
      then show "reads (decodeFields ((ts, t) # fs)) (v # ws) (length (encFields ((ts, t) # fs) (v # ws))) s"
        using s1 aft_trans [OF s1(2)] False by (auto simp: reads_def andThen_def ok_def)
    qed
  qed
qed simp_all

lemma map_sum_Inr_iff: "(\<exists>w'. map_sum id f r = Inr w') \<longleftrightarrow> (\<exists>w'. r = Inr w')"
  by (cases r) auto

lemma writer_zero: "head_ok t \<Longrightarrow> \<exists>w'. nilfunc t (writer t no_tags (zero_val t)) w = Inr w'"
proof (induction t)
  case (PtrT t)
  then show ?case by (auto simp: nilfunc_def)
qed (auto simp: nilfunc_def writer_helpers writeInt_def writeBigInt_def encbuf_list_def Let_def)

lemma writerElems_total: "\<forall>v \<in> set vs. \<forall>w. \<exists>w'. writer t no_tags v w = Inr w' \<Longrightarrow> \<exists>w'. writerElems t vs w = Inr w'"
proof (induction vs arbitrary: w)
  case (Cons v vs)
  then obtain w1 where "writer t no_tags v w = Inr w1" by force
  then show ?case using Cons by simp
qed simp

lemma rt_writer:
  "rt t ts v \<Longrightarrow> \<exists>w'. writer t ts v w = Inr w'"
  "rtFields fs vs \<Longrightarrow> \<exists>w'. writerFields fs vs w = Inr w'"
proof (induction t ts v and fs vs arbitrary: w and w rule: rt_rtFields.induct)
  case (5 n ts v)
  then obtain i where v: "v = IntV i" "n \<in> {16, 32, 64}" "\<bar>sint i\<bar> < 2 ^ (n - 8)" by (auto split: val.splits)
  then have "\<bar>sint i\<bar> < 2 ^ 56" by auto
  then show ?case using v(1) by (simp add: writeInt_eq)
next
  case (10 t ts v)
  then obtain vs where v: "v = ListV vs" "\<forall>v \<in> set vs. rt t no_tags v" by (auto split: val.splits)
  have "\<exists>w'. writerElems t vs w = Inr w'" for w by (rule writerElems_total) (use "10.IH" v in blast)
  then show ?case using v(1) by (auto simp: map_sum_Inr_iff split: prod.split)
next
  case (11 n t ts v)
  then obtain vs where v: "v = ListV vs" "\<forall>v \<in> set vs. rt t no_tags v" by (auto split: val.splits)
  have "\<exists>w'. writerElems t vs w = Inr w'" for w by (rule writerElems_total) (use "11.IH" v in blast)
  then show ?case using v(1) by (auto simp: map_sum_Inr_iff split: prod.split)
next
  case (12 fs ts v)
  then show ?case by (auto simp: map_sum_Inr_iff split: val.splits prod.split)
next
  case (13 t ts v)
  then show ?case using writer_zero [of t] by (auto split: val.splits option.splits)
next
  case (16 ts t fs vs)
  then obtain v ws where vs: "vs = v # ws" by (auto split: list.splits)
  show ?case
  proof (cases "ignored ts")
    case True
    then show ?thesis using "16.prems" "16.IH"(1) vs by auto
  next
    case False
    then obtain w1 where "writer t ts v w = Inr w1" using "16.prems" "16.IH"(2) vs by fastforce
    then show ?thesis using "16.prems" "16.IH"(3) vs False by auto
  qed
qed (auto split: val.splits option.splits simp: writer_helpers writeBigInt_def)

lemma EncodeToBytes_rt:
  "rt t no_tags v \<Longrightarrow> typeinfo t = None \<Longrightarrow> length (enc t no_tags v) < 2 ^ 64 \<Longrightarrow> EncodeToBytes t v = Inr (enc t no_tags v)"
proof -
  assume a: "rt t no_tags v" "typeinfo t = None" "length (enc t no_tags v) < 2 ^ 64"
  obtain w where "writer t no_tags v encbuf_reset = Inr w" using rt_writer(1) [OF a(1)] by blast
  then show ?thesis using EncodeToBytes_enc [of t v "toBytes w"] a(2,3) by (simp add: EncodeToBytes_def encbuf_encode_def)
qed

lemma Reset_simps [simp]: "knd (stream_Reset r br l) = None" "inp (stream_Reset r br l) = r" "stack (stream_Reset r br l) = []"
  by (simp_all add: stream_Reset_def)

lemma Decode_rt:
  assumes "rt t no_tags v" "typeinfo t = None" "room (stream_Reset (enc t no_tags v @ rest) br l) (length (enc t no_tags v))"
  shows "\<exists>s. stream_Decode t (NewStream (enc t no_tags v @ rest) br l) = (Inr v, s) \<and> inp s = rest"
proof -
  have "reads (decode t no_tags) v (length (enc t no_tags v)) (stream_Reset (enc t no_tags v @ rest) br l)"
    by (rule undoesD [OF rt_undoes(1) [OF assms(1)] _ _ assms(3)]) simp_all
  then show ?thesis using assms(2) by (auto simp: reads_def stream_Decode_def NewStream_def aft_def)
qed

section \<open>Properties\<close>

text \<open>C25. Round trip. Every value of a serializable type that has the form described at \<^const>\<open>rt\<close> is
  encoded, \<^verbatim>\<open>DecodeBytes\<close> of the encoding returns it, and \<^verbatim>\<open>Decode\<close> on a reader with more input behind the
  encoding returns it too and leaves exactly that input.\<close>

theorem rlp_roundtrip:
  assumes "rt t no_tags v" "typeinfo t = None" "length (enc t no_tags v) < 2 ^ 63"
  shows "\<exists>b. EncodeToBytes t v = Inr b \<and> DecodeBytes t b = Inr v \<and> Decode t False (b @ rest) = (Inr v, rest)"
proof -
  let ?b = "enc t no_tags v"
  have l: "0 < length ?b" "length ?b < 2 ^ 64" using rt_enc_nonempty [OF assms(1)] assms(3) by auto
  then have "(0 :: 64 word) < of_nat (length ?b)" using of_nat_eq_64 [of "length ?b" 0] by (simp add: word_gt_0)
  then have r: "room (stream_Reset (?b @ []) True (of_nat (length ?b))) (length ?b)" "room (stream_Reset (?b @ rest) False 0) (length ?b)"
    using l by (simp_all add: room_def stream_Reset_def unat_of_nat_64)
  have "DecodeBytes t ?b = Inr v" using Decode_rt [OF assms(1,2) r(1)] by (auto simp: DecodeBytes_def)
  moreover have "Decode t False (?b @ rest) = (Inr v, rest)" using Decode_rt [OF assms(1,2) r(2)] by (auto simp: Decode_def)
  ultimately show ?thesis using EncodeToBytes_rt [OF assms(1,2) l(2)] by blast
qed

text \<open>C28. The round trip fails for large signed integers: the decoder counts the sign byte against the width of
  the type, so that an \<^verbatim>\<open>int32\<close> from \<open>2 ^ 24\<close> on, which the encoder accepts, is refused as too long.\<close>

theorem int32_not_decodable:
  assumes "2 ^ 24 \<le> \<bar>sint i\<bar>" "\<bar>sint i\<bar> < 2 ^ 32"
  shows "\<exists>b. EncodeToBytes (IntT 32) (IntV i) = Inr b \<and> DecodeBytes (IntT 32) b = Inl (DecodeError ''input string too long'')"
proof -
  let ?v = "big_Bytes (nat \<bar>sint i\<bar>)" let ?b = "(if 0 < sint i then 0x01 else 0x80) # ?v"
  have "256 ^ 3 \<le> nat \<bar>sint i\<bar>" "nat \<bar>sint i\<bar> < 256 ^ 4" using assms by simp_all
  then have l: "length ?v = 4" using length_big_Bytes_gt [of 3] length_big_Bytes_le [of _ 4] by fastforce
  have e: "enc_int (sint i) = rlp_head 0x80 0xB7 5 @ ?b"
    using assms(1) l by (auto simp: enc_int_def enc_string_def)
  have le: "length (enc_int (sint i)) = 6" using e l by (simp add: rlp_head_def)
  let ?s = "stream_Reset (enc_int (sint i)) True 6"
  have r: "room ?s (length (rlp_head 0x80 0xB7 5) + 5)" using le by (simp add: room_def stream_Reset_def rlp_head_def)
  obtain s1 where "stream_Kind ?s = (Inr (String, 5), s1)"
    using stream_Kind_string [OF _ _ _ r, of ?b] e by auto
  then have "DecodeBytes (IntT 32) (enc_int (sint i)) = Inl (DecodeError ''input string too long'')"
    using le by (simp add: DecodeBytes_def stream_Decode_def NewStream_def decodeInt_def andThen_def wrapped_def stream_int_def wrapStreamError_def)
  moreover have "EncodeToBytes (IntT 32) (IntV i) = Inr (enc_int (sint i))"
  proof -
    have "writer (IntT 32) no_tags (IntV i) encbuf_reset = Inr (put (enc_int (sint i)) encbuf_reset)"
      using assms(2) by (simp add: writeInt_eq)
    then show ?thesis using toBytes_eq [OF writes_put, of "enc_int (sint i)"] by (simp add: EncodeToBytes_def encbuf_encode_def)
  qed
  ultimately show ?thesis by blast
qed

section \<open>Witnesses\<close>

theorem rlp_roundtrip_witness:
  "\<exists>b. EncodeToBytes sample_ty sample_val = Inr b \<and> DecodeBytes sample_ty b = Inr sample_val"
proof -
  have r: "rt sample_ty no_tags sample_val" by (simp add: sample_ty_def sample_val_def no_tags_def)
  have t: "typeinfo sample_ty = None" by code_simp
  have "length (enc sample_ty no_tags sample_val) = 71" by code_simp
  then show ?thesis using rlp_roundtrip [OF r t] by auto
qed

theorem int32_not_decodable_witness:
  "\<exists>b. EncodeToBytes (IntT 32) (IntV 16777216) = Inr b \<and> DecodeBytes (IntT 32) b = Inl (DecodeError ''input string too long'')"
  using int32_not_decodable [of 16777216] by simp

end
