(* ===== verification/RlpRaw.thy ===== *)
theory RlpRaw
  imports RlpRoundTrip
begin

text \<open>
  \<^verbatim>\<open>base/rlp/raw.go\<close>: splitting encoded bytes without decoding the values. The properties say that it accepts
  exactly the canonical encodings.
\<close>

section \<open>Definitions\<close>

definition ListSize :: "64 word \<Rightarrow> 64 word" where
  "ListSize contentSize = of_nat (headsize contentSize) + contentSize"

text \<open>\<^verbatim>\<open>readSize\<close>: the branches of the switch shift the bytes together; outside \<open>1..8\<close> the size stays 0.\<close>

definition readSize :: "bytes \<Rightarrow> byte \<Rightarrow> rlp_error + 64 word" where
  "readSize b slen =
     (if unat slen > length b then Inl ErrUnexpectedEOF
      else
        let s = (if 1 \<le> slen \<and> slen \<le> 8 then foldl (\<lambda>s x. push_bit 8 s OR ucast x) 0 (take (unat slen) b) else 0)
        in if s < 56 \<or> hd b = 0 then Inl ErrCanonSize else Inr s)"

definition raw_readKind :: "bytes \<Rightarrow> rlp_error + (Kind \<times> 64 word \<times> 64 word)" where
  "raw_readKind buf =
     (if buf = [] then Inl ErrUnexpectedEOF
      else
        let b = hd buf;
            r = (if b < 0x80 then Inr (Byte, 0, 1)
                 else if b < 0xB8 then
                   (let contentsize = ucast (b - 0x80) in
                    if contentsize = 1 \<and> length buf > 1 \<and> buf ! 1 < 128 then Inl ErrCanonSize
                    else Inr (String, 1, contentsize))
                 else if b < 0xC0 then
                   map_sum id (\<lambda>contentsize. (String, ucast (b - 0xB7) + 1, contentsize)) (readSize (tl buf) (b - 0xB7))
                 else if b < 0xF8 then Inr (List, 1, ucast (b - 0xC0))
                 else map_sum id (\<lambda>contentsize. (List, ucast (b - 0xF7) + 1, contentsize)) (readSize (tl buf) (b - 0xF7)))
        in case r of
             Inl err \<Rightarrow> Inl err
           | Inr (k, tagsize, contentsize) \<Rightarrow>
               if contentsize > of_nat (length buf) - tagsize then Inl ErrValueTooLarge
               else Inr (k, tagsize, contentsize))"

definition Split :: "bytes \<Rightarrow> rlp_error + (Kind \<times> bytes \<times> bytes)" where
  "Split b =
     (case raw_readKind b of
        Inl err \<Rightarrow> Inl err
      | Inr (k, ts, cs) \<Rightarrow> Inr (k, take (unat cs) (drop (unat ts) b), drop (unat ts + unat cs) b))"

definition SplitString :: "bytes \<Rightarrow> rlp_error + (bytes \<times> bytes)" where
  "SplitString b =
     (case Split b of
        Inl err \<Rightarrow> Inl err
      | Inr (k, content, rest) \<Rightarrow> if k = List then Inl ErrExpectedString else Inr (content, rest))"

definition SplitList :: "bytes \<Rightarrow> rlp_error + (bytes \<times> bytes)" where
  "SplitList b =
     (case Split b of
        Inl err \<Rightarrow> Inl err
      | Inr (k, content, rest) \<Rightarrow> if k \<noteq> List then Inl ErrExpectedList else Inr (content, rest))"

text \<open>Every value takes at least one byte.\<close>

lemma ucast_byte_less: "unat (ucast (x :: byte) :: 64 word) = unat x"
proof -
  have "unat x < 2 ^ 64" by (rule less_trans [OF unat_byte_less]) simp
  then show ?thesis by (simp add: unsigned_ucast_eq take_bit_nat_eq_self)
qed

lemma raw_readKind_pos: "raw_readKind b = Inr (k, ts, cs) \<Longrightarrow> ts \<noteq> 0 \<or> cs \<noteq> 0"
proof -
  assume r: "raw_readKind b = Inr (k, ts, cs)"
  have p: "ucast x + 1 \<noteq> (0 :: 64 word)" for x :: byte
  proof -
    have "unat x + 1 < 2 ^ 64" by (rule le_less_trans [of _ 256]) (simp_all add: Suc_le_eq)
    then have "unat (ucast x + 1 :: 64 word) = unat x + 1" by (simp add: unat_word_ariths ucast_byte_less)
    then show ?thesis by (metis add_is_0 unat_0 zero_neq_one)
  qed
  show ?thesis
  proof (cases "readSize (tl b) (hd b - 0xB7)"; cases "readSize (tl b) (hd b - 0xF7)")
  qed (use r p in \<open>auto simp: raw_readKind_def Let_def split: if_splits\<close>)
qed

function CountFrom :: "nat \<Rightarrow> bytes \<Rightarrow> rlp_error + nat" where
  "CountFrom i b =
     (if length b > 0 then
        (case raw_readKind b of
           Inl err \<Rightarrow> Inl err
         | Inr (_, tagsize, sz) \<Rightarrow> CountFrom (i + 1) (drop (unat tagsize + unat sz) b))
      else Inr i)"
  by pat_completeness auto
termination
proof (relation "measure (\<lambda>(_, b). length b)", goal_cases)
  case (2 i b r k q ts cs)
  then have "0 < unat ts + unat cs" using raw_readKind_pos [of b k ts cs] by (auto simp: unat_gt_0)
  then show ?case using 2 by simp
qed simp

declare CountFrom.simps [simp del]

definition CountValues :: "bytes \<Rightarrow> rlp_error + nat" where
  "CountValues b = CountFrom 0 b"

section \<open>Headers\<close>

lemma or_ucast: "push_bit 8 s OR ucast (x :: byte) = 256 * s + (ucast x :: 64 word)"
proof -
  have "push_bit 8 s + ucast x = push_bit 8 s OR (ucast x :: 64 word)"
    by (rule disjunctive_add) (auto simp: bit_simps dest: bit_imp_le_length)
  then show ?thesis by (simp add: push_bit_eq_mult mult.commute)
qed

lemma foldl_be: "foldl (\<lambda>s x. push_bit 8 s OR ucast x) (0 :: 64 word) bs = of_nat (be_val bs)"
  by (induction bs rule: rev_induct) (simp_all add: or_ucast)

lemma readSize_ok:
  assumes "56 \<le> n" "n < 2 ^ 64"
  shows "readSize (big_Bytes n @ rest) (of_nat (length (big_Bytes n))) = Inr (of_nat n)"
proof -
  have v: "big_Bytes n \<noteq> []" "length (big_Bytes n) \<le> 8" "hd (big_Bytes n) \<noteq> 0"
    using assms length_big_Bytes_le [of n 8] hd_big_Bytes by simp_all
  have u: "unat (of_nat (length (big_Bytes n)) :: byte) = length (big_Bytes n)" using v(2) by (simp add: unat_of_nat)
  moreover have "\<not> (of_nat n :: 64 word) < 56" using assms word_less_56 [of n] by simp
  moreover have "Suc 0 \<le> length (big_Bytes n)" using v(1) by (simp add: Suc_le_eq)
  ultimately show ?thesis using v by (simp add: readSize_def foldl_be word_le_nat_alt)
qed


definition head_of :: "Kind \<Rightarrow> nat \<Rightarrow> bytes" where
  "head_of k n = (case k of Byte \<Rightarrow> [] | String \<Rightarrow> rlp_head 0x80 0xB7 n | List \<Rightarrow> rlp_head 0xC0 0xF7 n)"

text \<open>An encoded value: its kind, its content, and the bytes.\<close>

definition item :: "Kind \<Rightarrow> bytes \<Rightarrow> bytes \<Rightarrow> bool" where
  "item k c e \<longleftrightarrow> (case k of
       Byte \<Rightarrow> e = c \<and> length c = 1 \<and> hd c < 0x80
     | String \<Rightarrow> e = rlp_head 0x80 0xB7 (length c) @ c \<and> \<not> (length c = 1 \<and> hd c < 0x80)
     | List \<Rightarrow> e = enc_list c)"

lemma fits: "L < 2 ^ 64 \<Longrightarrow> unat ts + unat cs \<le> L \<Longrightarrow> \<not> cs > of_nat L - (ts :: 64 word)"
  by (simp add: word_less_nat_alt unat_sub_if' unat_of_nat_64 not_less)

lemma raw_readKind_byte:
  assumes "item Byte c e" "length (e @ rest) < 2 ^ 63"
  shows "\<exists>ts cs. raw_readKind (e @ rest) = Inr (Byte, ts, cs) \<and> unat ts = length (head_of Byte (length c)) \<and> unat cs = length c"
proof -
  let ?L = "length (e @ rest)" let ?n = "length c"
  have L: "?L < 2 ^ 64" using assms(2) by simp
  obtain x where x: "c = [x]" "e = [x]" "x < 0x80" using assms(1) by (cases c) (auto simp: item_def)
  have "\<not> (1 :: 64 word) > of_nat ?L - 0" using fits [OF L, of 0 1] x by simp
  then have "raw_readKind (e @ rest) = Inr (Byte, 0, 1)" using x by (simp add: raw_readKind_def)
  then show ?thesis using x by (simp add: head_of_def)
qed

lemma raw_readKind_string:
  assumes "item String c e" "length (e @ rest) < 2 ^ 63"
  shows "\<exists>ts cs. raw_readKind (e @ rest) = Inr (String, ts, cs) \<and> unat ts = length (head_of String (length c)) \<and> unat cs = length c"
proof -
  let ?L = "length (e @ rest)" let ?n = "length c"
  have L: "?L < 2 ^ 64" using assms(2) by simp
  have e: "e = rlp_head 0x80 0xB7 ?n @ c" "\<not> (?n = 1 \<and> hd c < 0x80)" using assms(1) by (simp_all add: item_def)
  show ?thesis
  proof (cases "?n < 56")
    case True
    let ?x = "0x80 + of_nat ?n :: byte"
    have x: "e @ rest = ?x # c @ rest" "\<not> ?x < 0x80" "?x < 0xB8"
      using e True short_range [OF True] by (simp_all add: rlp_head_def word_less_nat_alt)
    have u: "(ucast (?x - 0x80) :: 64 word) = of_nat ?n" using True ucast_byte_64 [of ?n] by simp
    have n: "unat (of_nat ?n :: 64 word) = ?n" using True by (simp add: unat_of_nat_64)
    have "\<not> of_nat ?n > of_nat ?L - (1 :: 64 word)" using fits [OF L, of 1 "of_nat ?n"] n x(1) by simp
    moreover have "\<not> ((of_nat ?n :: 64 word) = 1 \<and> (e @ rest) ! 1 < 128)"
      using e(2) x(1) of_nat_eq_64 [of ?n 1] True by (cases c) auto
    ultimately have "raw_readKind (e @ rest) = Inr (String, 1, of_nat ?n)"
      using x u by (auto simp: raw_readKind_def Let_def)
    then show ?thesis using n True by (auto simp: head_of_def rlp_head_def)
  next
    case False
    let ?v = "big_Bytes ?n" let ?x = "0xB7 + of_nat (length ?v) :: byte"
    have N: "?n < 2 ^ 64" using L e by simp
    have ne: "c \<noteq> []" using False by auto
    then have v: "length ?v \<le> 8" "1 \<le> length ?v" using N length_big_Bytes_le [of ?n 8] by (simp_all add: Suc_le_eq)
    have x: "e @ rest = ?x # ?v @ c @ rest" "\<not> ?x < 0x80" "\<not> ?x < 0xB8" "?x < 0xC0"
      using e False ne tag_range [OF v(2,1)] v by (simp_all add: rlp_head_def word_less_nat_alt)
    have s: "readSize (?v @ c @ rest) (?x - 0xB7) = Inr (of_nat ?n)" using readSize_ok [of ?n "c @ rest"] False N by simp
    have t: "unat (ucast (?x - 0xB7) + 1 :: 64 word) = length ?v + 1"
      using v ucast_byte_64 [of "length ?v"] by (simp add: unat_word_ariths unat_of_nat_64)
    have "\<not> of_nat ?n > of_nat ?L - (ucast (?x - 0xB7) + 1 :: 64 word)"
      using fits [OF L, of "ucast (?x - 0xB7) + 1" "of_nat ?n"] t N x(1) by (simp add: unat_of_nat_64)
    then have "raw_readKind (e @ rest) = Inr (String, ucast (?x - 0xB7) + 1, of_nat ?n)"
      using x s unfolding x(1) by (simp add: raw_readKind_def Let_def)
    then show ?thesis using t N False by (auto simp: head_of_def rlp_head_def unat_of_nat_64)
  qed
qed

lemma raw_readKind_list:
  assumes "item List c e" "length (e @ rest) < 2 ^ 63"
  shows "\<exists>ts cs. raw_readKind (e @ rest) = Inr (List, ts, cs) \<and> unat ts = length (head_of List (length c)) \<and> unat cs = length c"
proof -
  let ?L = "length (e @ rest)" let ?n = "length c"
  have L: "?L < 2 ^ 64" using assms(2) by simp
  have e: "e = rlp_head 0xC0 0xF7 ?n @ c" using assms(1) by (simp add: item_def enc_list_def)
  show ?thesis
  proof (cases "?n < 56")
    case True
    let ?x = "0xC0 + of_nat ?n :: byte"
    have x: "e @ rest = ?x # c @ rest" "\<not> ?x < 0x80" "\<not> ?x < 0xB8" "\<not> ?x < 0xC0" "?x < 0xF8"
      using e True short_range [OF True] by (simp_all add: rlp_head_def word_less_nat_alt)
    have u: "(ucast (?x - 0xC0) :: 64 word) = of_nat ?n" using True ucast_byte_64 [of ?n] by simp
    have n: "unat (of_nat ?n :: 64 word) = ?n" using True by (simp add: unat_of_nat_64)
    have "\<not> of_nat ?n > of_nat ?L - (1 :: 64 word)" using fits [OF L, of 1 "of_nat ?n"] n x(1) by simp
    then have "raw_readKind (e @ rest) = Inr (List, 1, of_nat ?n)"
      using x u by (auto simp: raw_readKind_def Let_def)
    then show ?thesis using n True by (auto simp: head_of_def rlp_head_def)
  next
    case False
    let ?v = "big_Bytes ?n" let ?x = "0xF7 + of_nat (length ?v) :: byte"
    have N: "?n < 2 ^ 64" using L e by simp
    have ne: "c \<noteq> []" using False by auto
    then have v: "length ?v \<le> 8" "1 \<le> length ?v" using N length_big_Bytes_le [of ?n 8] by (simp_all add: Suc_le_eq)
    have x: "e @ rest = ?x # ?v @ c @ rest" "\<not> ?x < 0x80" "\<not> ?x < 0xB8" "\<not> ?x < 0xC0" "\<not> ?x < 0xF8"
      using e False ne tag_range [OF v(2,1)] v by (simp_all add: rlp_head_def word_less_nat_alt)
    have s: "readSize (?v @ c @ rest) (?x - 0xF7) = Inr (of_nat ?n)" using readSize_ok [of ?n "c @ rest"] False N by simp
    have t: "unat (ucast (?x - 0xF7) + 1 :: 64 word) = length ?v + 1"
      using v ucast_byte_64 [of "length ?v"] by (simp add: unat_word_ariths unat_of_nat_64)
    have "\<not> of_nat ?n > of_nat ?L - (ucast (?x - 0xF7) + 1 :: 64 word)"
      using fits [OF L, of "ucast (?x - 0xF7) + 1" "of_nat ?n"] t N x(1) by (simp add: unat_of_nat_64)
    then have "raw_readKind (e @ rest) = Inr (List, ucast (?x - 0xF7) + 1, of_nat ?n)"
      using x s unfolding x(1) by (simp add: raw_readKind_def Let_def)
    then show ?thesis using t N False by (auto simp: head_of_def rlp_head_def unat_of_nat_64)
  qed
qed

lemma raw_readKind_head:
  "item k c e \<Longrightarrow> length (e @ rest) < 2 ^ 63 \<Longrightarrow>
   \<exists>ts cs. raw_readKind (e @ rest) = Inr (k, ts, cs) \<and> unat ts = length (head_of k (length c)) \<and> unat cs = length c"
  using raw_readKind_byte raw_readKind_string raw_readKind_list by (cases k) blast+

lemma item_head: "item k c e \<Longrightarrow> e = head_of k (length c) @ c"
  by (cases k) (simp_all add: item_def head_of_def enc_list_def)

lemma Split_item: "item k c e \<Longrightarrow> length (e @ rest) < 2 ^ 63 \<Longrightarrow> Split (e @ rest) = Inr (k, c, rest)"
  using raw_readKind_head [of k c e rest] item_head [of k c e] by (auto simp: Split_def)

lemma item_enc: "rt t no_tags v \<Longrightarrow> \<exists>k c. item k c (enc t no_tags v)"
proof -
  assume "rt t no_tags v"
  then consider b where "enc t no_tags v = enc_string b" | b where "enc t no_tags v = enc_list b" using enc_shape by force
  then show ?thesis
  proof cases
    case (1 b)
    show ?thesis
    proof (cases rule: enc_string_cases [of b])
      case (byte x)
      then show ?thesis using 1 by (intro exI [of _ Byte] exI [of _ b]) (simp add: item_def)
    next
      case string
      then show ?thesis using 1 by (intro exI [of _ String] exI [of _ b]) (simp add: item_def)
    qed
  next
    case (2 b)
    then show ?thesis by (intro exI [of _ List] exI [of _ b]) (simp add: item_def)
  qed
qed

lemma CountFrom_items:
  assumes "\<forall>e \<in> set es. \<exists>k c. item k c e" "length (concat es) < 2 ^ 63"
  shows "CountFrom i (concat es) = Inr (i + length es)"
  using assms
proof (induction es arbitrary: i)
  case Nil
  then show ?case by (simp add: CountFrom.simps)
next
  case (Cons e es)
  then obtain k c where e: "item k c e" by auto
  then obtain ts cs where r: "raw_readKind (e @ concat es) = Inr (k, ts, cs)" "unat ts + unat cs = length e"
    using raw_readKind_head [OF e, of "concat es"] item_head [OF e] Cons.prems(2) by auto
  have "e \<noteq> []" using raw_readKind_pos [OF r(1)] r(2) by (auto simp: unat_eq_zero)
  then have "CountFrom i (concat (e # es)) = CountFrom (i + 1) (concat es)"
    using r by (subst CountFrom.simps) simp
  then show ?case using Cons by simp
qed

section \<open>Properties\<close>

text \<open>C29. Taking an encoded list apart without decoding it: \<^verbatim>\<open>SplitList\<close> of an encoded slice, with any bytes behind
  it, returns exactly the encodings of its elements and those bytes; \<^verbatim>\<open>CountValues\<close> of the content is the number of
  elements, and \<^verbatim>\<open>Split\<close> takes off the first of them.\<close>

theorem SplitList_slice:
  assumes "\<forall>v \<in> set vs. rt t no_tags v" "length (enc_list (concat (map (enc t no_tags) vs)) @ rest) < 2 ^ 63"
  shows "SplitList (enc (SliceT t) no_tags (ListV vs) @ rest) = Inr (concat (map (enc t no_tags) vs), rest) \<and>
     CountValues (concat (map (enc t no_tags) vs)) = Inr (length vs) \<and>
     (vs = [] \<or> (\<exists>k c. Split (concat (map (enc t no_tags) vs)) = Inr (k, c, concat (map (enc t no_tags) (tl vs)))))"
proof -
  let ?c = "concat (map (enc t no_tags) vs)"
  have l: "length ?c < 2 ^ 63" using assms(2) by (simp add: enc_list_def)
  have i: "item List ?c (enc_list ?c)" by (simp add: item_def)
  have "SplitList (enc_list ?c @ rest) = Inr (?c, rest)" using Split_item [OF i assms(2)] by (simp add: SplitList_def)
  moreover have "CountValues ?c = Inr (length vs)"
    using CountFrom_items [of "map (enc t no_tags) vs" 0] item_enc assms(1) l by (simp add: CountValues_def)
  moreover have "\<exists>k c. Split ?c = Inr (k, c, concat (map (enc t no_tags) (tl vs)))" if ne: "vs \<noteq> []"
  proof -
    obtain v us where vs: "vs = v # us" using ne by (cases vs) auto
    then obtain k c where "item k c (enc t no_tags v)" using item_enc assms(1) by fastforce
    then show ?thesis using Split_item [of k c "enc t no_tags v" "concat (map (enc t no_tags) us)"] l vs by auto
  qed
  ultimately show ?thesis by auto
qed

definition sample_ints :: "val list" where
  "sample_ints = [IntV 1, IntV (- 7), IntV 300]"

theorem SplitList_slice_witness:
  "SplitList (enc (SliceT (IntT 32)) no_tags (ListV sample_ints) @ [5]) = Inr (concat (map (enc (IntT 32) no_tags) sample_ints), [5]) \<and>
   CountValues (concat (map (enc (IntT 32) no_tags) sample_ints)) = Inr (length sample_ints)"
proof -
  let ?e = "enc_list (concat (map (enc (IntT 32) no_tags) sample_ints)) @ [5]"
  have "length ?e = 12" by code_simp
  then have l: "length ?e < 2 ^ 63" by (rule ord_eq_less_trans) simp
  have r: "\<forall>v \<in> set sample_ints. rt (IntT 32) no_tags v" by (simp add: sample_ints_def)
  show ?thesis using SplitList_slice [OF r l] by blast
qed

end
