(* ===== verification/Wire.thy ===== *)
theory Wire
  imports RlpRaw
begin

text \<open>
  The messages of the consensus protocol (\<^verbatim>\<open>src/model/wire\<close>): credentials and what is signed of them, the block
  header and its hash, and the six messages an executor receives, with their accessors, \<^verbatim>\<open>Sign\<close> and
  \<^verbatim>\<open>IsValidated\<close>. Structs are records with the fields of the source; a pointer is an \<^typ>\<open>'a option\<close>, and a value of
  type \<^typ>\<open>'a option\<close> returned by an operation is \<^const>\<open>None\<close> where the Go code panics (a nil pointer, an index
  out of range). What is signed and hashed is the RLP encoding of the development's own encoder.

  Go strings are byte strings. Signatures are made and checked by \<^verbatim>\<open>vrf.Ed25519VRF\<close>, elliptic curve arithmetic that
  is a parameter here: the record \<open>VRF\<close> with its two operations. The hash function is the parameter \<open>H\<close>.
\<close>

section \<open>The VRF and Go's errors\<close>

record VRF =
  Generate :: "bytes \<Rightarrow> bytes \<Rightarrow> bytes \<Rightarrow> bytes option"
  VerifyProof :: "bytes \<Rightarrow> bytes \<Rightarrow> bytes \<Rightarrow> bool"

datatype wire_error =
    ErrSerialize rlp_error | ErrInvalidSignature | ErrBlockHashMismatch | ErrBlockHashSig
  | ErrHeaderSig | ErrSeed | ErrLeader | ErrConfirmSerialize | ErrConfirmProof | ErrConfirmShard | ErrConfirmRound
  | ErrConfirmStep | ErrConfirmValue | ErrGenerate

text \<open>The two kinds of run-time panic of the encoder are panics of its callers; every other failure is an error
  value.\<close>

definition recovers :: "rlp_error + 'a \<Rightarrow> (rlp_error + 'a) option" where
  "recovers r = (case r of Inl IndexOutOfRange \<Rightarrow> None | Inl ReflectPanic \<Rightarrow> None | _ \<Rightarrow> Some r)"

section \<open>Signed data\<close>

record ByzAgreementValue =
  BlockHash :: bytes
  Leader :: bytes

record Credential =
  cred_Round :: "32 word"
  cred_Step :: "32 word"

record CredentialWithBA =
  ba_ShardIndex :: "32 word"
  ba_Round :: "32 word"
  ba_Step :: "32 word"
  ba_B :: byte
  ba_V :: ByzAgreementValue

record ConsensusMsg =
  cm_Credential :: "Credential option"
  cm_CredentialWithBA :: "CredentialWithBA option"
  cm_ByzAgreementValue :: "ByzAgreementValue option"

record SignedMsg =
  Pk :: bytes
  Signature :: bytes
  Message :: ConsensusMsg

definition empty_value :: ByzAgreementValue where
  "empty_value = \<lparr>BlockHash = replicate 32 0, Leader = []\<rparr>"

definition no_msg :: ConsensusMsg where
  "no_msg = \<lparr>cm_Credential = None, cm_CredentialWithBA = None, cm_ByzAgreementValue = None\<rparr>"

definition NewCredential :: "32 word \<Rightarrow> 32 word \<Rightarrow> Credential" where
  "NewCredential round step = \<lparr>cred_Round = round, cred_Step = step\<rparr>"

definition NewCredentialWithBA :: "32 word \<Rightarrow> 32 word \<Rightarrow> 32 word \<Rightarrow> byte \<Rightarrow> ByzAgreementValue \<Rightarrow> CredentialWithBA" where
  "NewCredentialWithBA shardIndex round step b v =
     \<lparr>ba_ShardIndex = shardIndex, ba_Round = round, ba_Step = step, ba_B = b, ba_V = v\<rparr>"

text \<open>The Go types as the encoder sees them by reflection, and the values.\<close>

definition int32V :: "32 word \<Rightarrow> val" where
  "int32V i = IntV (scast i)"

definition uint32V :: "32 word \<Rightarrow> val" where
  "uint32V i = UintV (ucast i)"

definition field :: "ty \<Rightarrow> tags \<times> ty" where
  "field t = (no_tags, t)"

definition Credential_ty :: ty where
  "Credential_ty = StructT [field (IntT 32), field (IntT 32)]"

definition Credential_val :: "Credential \<Rightarrow> val" where
  "Credential_val c = ListV [int32V (cred_Round c), int32V (cred_Step c)]"

definition ByzAgreementValue_ty :: ty where
  "ByzAgreementValue_ty = StructT [field (ByteArrayT 32), field StringT]"

definition ByzAgreementValue_val :: "ByzAgreementValue \<Rightarrow> val" where
  "ByzAgreementValue_val v = ListV [BytesV (BlockHash v), BytesV (Leader v)]"

definition CredentialWithBA_ty :: ty where
  "CredentialWithBA_ty =
     StructT [field (UintT 32), field (IntT 32), field (IntT 32), field (UintT 8), field ByzAgreementValue_ty]"

definition CredentialWithBA_val :: "CredentialWithBA \<Rightarrow> val" where
  "CredentialWithBA_val c =
     ListV [uint32V (ba_ShardIndex c), int32V (ba_Round c), int32V (ba_Step c), UintV (ucast (ba_B c)),
            ByzAgreementValue_val (ba_V c)]"

definition cred_Serialize :: "Credential \<Rightarrow> rlp_error + bytes" where
  "cred_Serialize c = EncodeToBytes Credential_ty (Credential_val c)"

definition ba_Serialize :: "CredentialWithBA \<Rightarrow> rlp_error + bytes" where
  "ba_Serialize c = EncodeToBytes CredentialWithBA_ty (CredentialWithBA_val c)"

definition value_Serialize :: "ByzAgreementValue \<Rightarrow> rlp_error + bytes" where
  "value_Serialize v = EncodeToBytes ByzAgreementValue_ty (ByzAgreementValue_val v)"

text \<open>\<^verbatim>\<open>isValidSignedCredential\<close> and \<^verbatim>\<open>sign\<close> take a \<^verbatim>\<open>Serializable\<close>: the argument \<open>ser\<close> is its \<^verbatim>\<open>Serialize\<close>
  applied to the pointer, which panics on nil.\<close>

definition serialize_ptr :: "('c \<Rightarrow> rlp_error + bytes) \<Rightarrow> 'c option \<Rightarrow> (rlp_error + bytes) option" where
  "serialize_ptr Ser c = Option.bind c (\<lambda>c. recovers (Ser c))"

definition isValidSignedCredential ::
    "VRF \<Rightarrow> (rlp_error + bytes) option \<Rightarrow> SignedMsg \<Rightarrow> (wire_error + unit) option" where
  "isValidSignedCredential vrf ser sc =
     (case ser of
        None \<Rightarrow> None
      | Some (Inl err) \<Rightarrow> Some (Inl (ErrSerialize err))
      | Some (Inr s) \<Rightarrow>
          if \<not> VerifyProof vrf (Pk sc) (Signature sc) s then Some (Inl ErrInvalidSignature) else Some (Inr ()))"

definition sign :: "VRF \<Rightarrow> (rlp_error + bytes) option \<Rightarrow> bytes \<Rightarrow> SignedMsg \<Rightarrow> (wire_error + SignedMsg) option" where
  "sign vrf ser sk msg =
     (case ser of
        None \<Rightarrow> None
      | Some (Inl err) \<Rightarrow> Some (Inl (ErrSerialize err))
      | Some (Inr buf) \<Rightarrow>
          (case Generate vrf (Pk msg) sk buf of
             None \<Rightarrow> Some (Inl ErrGenerate)
           | Some sig \<Rightarrow> Some (Inr (msg\<lparr>Signature := sig\<rparr>))))"

abbreviation cred_of :: "SignedMsg \<Rightarrow> Credential option" where
  "cred_of sc \<equiv> cm_Credential (Message sc)"

abbreviation ba_of :: "SignedMsg \<Rightarrow> CredentialWithBA option" where
  "ba_of sc \<equiv> cm_CredentialWithBA (Message sc)"

abbreviation value_of :: "SignedMsg \<Rightarrow> ByzAgreementValue option" where
  "value_of sc \<equiv> cm_ByzAgreementValue (Message sc)"

section \<open>Block headers\<close>

record OutPoint =
  op_Shard :: "32 word"
  op_TxHash :: bytes
  op_Index :: "64 word"
  op_UserAddress :: bytes
  op_Type :: byte
  op_Data :: bytes
  op_ContractAddress :: bytes

record ReduceAction =
  ToBeReducedOut :: "OutPoint option"
  API :: bytes

record BlockHeader =
  hd_Version :: "32 word"
  hd_ShardIndex :: "32 word"
  Height :: "64 word"
  PrevBlockHeader :: bytes
  BlockBodyHash :: bytes
  OutsMerkleRoot :: bytes
  ShardLedgerMerkleRoot :: bytes
  IsEmptyBlock :: bool
  TimeStamp :: "64 word"
  DepositTxsOuts :: "OutPoint list"
  WithdrawTxsOuts :: "OutPoint list"
  ReshardSeed :: bytes
  hd_Pk :: bytes
  LastSeedSig :: bytes
  HeaderSig :: bytes
  Seed :: bytes
  ReduceActions :: "ReduceAction option list"

text \<open>The body of a block is opaque to the consensus: it is carried along and given to the block chain.\<close>

record 'body MsgBlock =
  Header :: BlockHeader
  Body :: 'body

definition OutPoint_ty :: ty where
  "OutPoint_ty =
     StructT [field (UintT 32), field (ByteArrayT 32), field (IntT 64), field BytesT, field (UintT 8), field BytesT, field BytesT]"

definition OutPoint_val :: "OutPoint \<Rightarrow> val" where
  "OutPoint_val o1 =
     ListV [uint32V (op_Shard o1), BytesV (op_TxHash o1), IntV (op_Index o1), BytesV (op_UserAddress o1),
            UintV (ucast (op_Type o1)), BytesV (op_Data o1), BytesV (op_ContractAddress o1)]"

definition ReduceAction_ty :: ty where
  "ReduceAction_ty = StructT [field (PtrT OutPoint_ty), field StringT]"

definition ReduceAction_val :: "ReduceAction \<Rightarrow> val" where
  "ReduceAction_val a = ListV [PtrV (map_option OutPoint_val (ToBeReducedOut a)), BytesV (API a)]"

definition BlockHeader_ty :: ty where
  "BlockHeader_ty =
     StructT [field (IntT 32), field (UintT 32), field (IntT 64), field (ByteArrayT 32), field (ByteArrayT 32),
       field (ByteArrayT 32), field (ByteArrayT 32), field BoolT, field (IntT 64), field (SliceT OutPoint_ty),
       field (SliceT OutPoint_ty), field BytesT, field BytesT, field BytesT, field BytesT, field (ByteArrayT 32),
       field (SliceT (PtrT ReduceAction_ty))]"

definition BlockHeader_val :: "BlockHeader \<Rightarrow> val" where
  "BlockHeader_val h =
     ListV [int32V (hd_Version h), uint32V (hd_ShardIndex h), IntV (Height h), BytesV (PrevBlockHeader h),
       BytesV (BlockBodyHash h), BytesV (OutsMerkleRoot h), BytesV (ShardLedgerMerkleRoot h), BoolV (IsEmptyBlock h),
       IntV (TimeStamp h), ListV (map OutPoint_val (DepositTxsOuts h)), ListV (map OutPoint_val (WithdrawTxsOuts h)),
       BytesV (ReshardSeed h), BytesV (hd_Pk h), BytesV (LastSeedSig h), BytesV (HeaderSig h), BytesV (Seed h),
       ListV (map (\<lambda>a. PtrV (map_option ReduceAction_val a)) (ReduceActions h))]"

text \<open>\<^verbatim>\<open>writeBlockHeader\<close> into an empty buffer: the bytes written, none when the encoding fails.\<close>

definition writeBlockHeader :: "BlockHeader \<Rightarrow> bytes option" where
  "writeBlockHeader h =
     map_option (\<lambda>r. case r of Inl _ \<Rightarrow> [] | Inr (_, out) \<Rightarrow> out)
       (recovers (Encode buffer_Write (PtrT BlockHeader_ty) (PtrV (Some (BlockHeader_val h))) []))"

definition BlockHeaderHash :: "hash_fun \<Rightarrow> BlockHeader \<Rightarrow> bytes option" where
  "BlockHeaderHash H h = map_option H (writeBlockHeader (h\<lparr>HeaderSig := []\<rparr>))"

section \<open>Seeds\<close>

text \<open>\<^verbatim>\<open>binary.PutVarint\<close> into a buffer: the zig-zag image of the number, seven bits to a byte, low bits first. The
  write behind the end of the buffer panics.\<close>

lemma uvarint_step: "x \<ge> 0x80 \<Longrightarrow> unat (drop_bit 7 (x :: 64 word)) < unat x"
proof -
  assume "x \<ge> 0x80"
  then have "unat x > 0" by (simp add: word_le_nat_alt)
  then show ?thesis by (simp add: drop_bit_eq_div unat_div_distrib)
qed

function putUvarint :: "64 word \<Rightarrow> bytes" where
  "putUvarint x = (if x \<ge> 0x80 then (ucast x OR 0x80) # putUvarint (drop_bit 7 x) else [ucast x])"
  by pat_completeness auto
termination by (relation "measure unat") (simp_all add: uvarint_step)

declare putUvarint.simps [simp del]

definition zigzag :: "64 word \<Rightarrow> 64 word" where
  "zigzag x = (if sint x < 0 then NOT (push_bit 1 x) else push_bit 1 x)"

definition PutVarint :: "bytes \<Rightarrow> 64 word \<Rightarrow> bytes option" where
  "PutVarint buf x =
     (let v = putUvarint (zigzag x) in if length v \<le> length buf then Some (v @ drop (length v) buf) else None)"

definition seedBuf :: "bytes \<Rightarrow> 64 word \<Rightarrow> bytes option" where
  "seedBuf lastSeedSig round = map_option (\<lambda>b. lastSeedSig @ b) (PutVarint (replicate 8 0) round)"

text \<open>\<^verbatim>\<open>hex.EncodeToString\<close>.\<close>

definition hexdigit :: "byte \<Rightarrow> byte" where
  "hexdigit d = (if d < 10 then 0x30 + d else 0x57 + d)"

definition hexEncode :: "bytes \<Rightarrow> bytes" where
  "hexEncode bs = concat (map (\<lambda>b. [hexdigit (drop_bit 4 b), hexdigit (b AND 0x0F)]) bs)"

section \<open>The messages\<close>

record MsgBinaryBA =
  bba_InShardProof :: bytes
  SignedCredentialWithBA :: "SignedMsg option"

record 'body GCMessage =
  gc_ShardIndex :: "32 word"
  gc_Seed :: bytes
  gc_SignedCredential :: "SignedMsg option"
  gc_SignedVal :: "SignedMsg option"
  gc_Block :: "'body MsgBlock option"
  gc_InShardProof :: bytes

record 'body LeaderVoteMessage =
  lv_ShardIndex :: "32 word"
  lv_InShardProof :: bytes
  lv_SignedVal :: "SignedMsg option"
  lv_Block :: "'body MsgBlock option"
  lv_SignedCredential :: "SignedMsg option"

record 'body LeaderProposalMessage =
  lp_ShardIndex :: "32 word"
  lp_InShardProof :: bytes
  lp_Block :: "'body MsgBlock option"
  lp_BlockHash :: bytes
  lp_SignedHash :: bytes
  lp_LastSeedSig :: bytes
  lp_SignedCredential :: "SignedMsg option"

record MsgSeed =
  sd_ShardIndex :: "32 word"
  sd_SignedCredential :: "SignedMsg option"
  sd_LastSeedSig :: bytes
  sd_InShardProof :: bytes

record MsgBlockConfirmation =
  bc_ShardIndex :: "32 word"
  bc_Round :: "32 word"
  bc_Step :: "32 word"
  bc_V :: ByzAgreementValue
  bc_Header :: "BlockHeader option"
  Confirms :: "MsgBinaryBA list"

datatype 'body wire_msg =
    LeaderProposal "'body LeaderProposalMessage"
  | LeaderVote "'body LeaderVoteMessage"
  | GC "'body GCMessage"
  | BinaryBA MsgBinaryBA
  | BinaryBAFin MsgBinaryBA
  | SeedMsg MsgSeed
  | BlockConfirmation MsgBlockConfirmation
  | HeaderMsg BlockHeader

text \<open>\<^verbatim>\<open>Command\<close> tells the kinds of message apart.\<close>

datatype command =
    CmdLeaderProposal | CmdLeaderVote | CmdGC | CmdBinaryBA | CmdBinaryBAFin | CmdSeed | CmdMsgBlockConfirmation | CmdBlockHeader

fun Command :: "'body wire_msg \<Rightarrow> command" where
  "Command (LeaderProposal _) = CmdLeaderProposal"
| "Command (LeaderVote _) = CmdLeaderVote"
| "Command (GC _) = CmdGC"
| "Command (BinaryBA _) = CmdBinaryBA"
| "Command (BinaryBAFin _) = CmdBinaryBAFin"
| "Command (SeedMsg _) = CmdSeed"
| "Command (BlockConfirmation _) = CmdMsgBlockConfirmation"
| "Command (HeaderMsg _) = CmdBlockHeader"

definition credential :: "SignedMsg option \<Rightarrow> Credential option" where
  "credential sc = Option.bind sc cred_of"

definition bba_credential :: "MsgBinaryBA \<Rightarrow> CredentialWithBA option" where
  "bba_credential m = Option.bind (SignedCredentialWithBA m) ba_of"

definition bba_GetShardIndex :: "MsgBinaryBA \<Rightarrow> 32 word option" where
  "bba_GetShardIndex m = map_option ba_ShardIndex (bba_credential m)"

definition bba_GetRound :: "MsgBinaryBA \<Rightarrow> int option" where
  "bba_GetRound m = map_option (sint \<circ> ba_Round) (bba_credential m)"

definition bba_GetStep :: "MsgBinaryBA \<Rightarrow> int option" where
  "bba_GetStep m = map_option (sint \<circ> ba_Step) (bba_credential m)"

definition bba_GetBValue :: "MsgBinaryBA \<Rightarrow> byte option" where
  "bba_GetBValue m = map_option ba_B (bba_credential m)"

definition bba_GetByzAgreementValue :: "MsgBinaryBA \<Rightarrow> ByzAgreementValue option" where
  "bba_GetByzAgreementValue m = map_option ba_V (bba_credential m)"

definition gc_GetByzAgreementValue :: "'body GCMessage \<Rightarrow> ByzAgreementValue option option" where
  "gc_GetByzAgreementValue m = map_option value_of (gc_SignedVal m)"

definition lv_GetByzAgreementValue :: "'body LeaderVoteMessage \<Rightarrow> ByzAgreementValue option option" where
  "lv_GetByzAgreementValue m = map_option value_of (lv_SignedVal m)"

definition GetSender :: "MsgSeed \<Rightarrow> bytes option" where
  "GetSender m = map_option Pk (sd_SignedCredential m)"

definition lp_GetRound :: "'body LeaderProposalMessage \<Rightarrow> int option" where
  "lp_GetRound m = map_option (sint \<circ> cred_Round) (credential (lp_SignedCredential m))"

definition lv_GetRound :: "'body LeaderVoteMessage \<Rightarrow> int option" where
  "lv_GetRound m = map_option (sint \<circ> cred_Round) (credential (lv_SignedCredential m))"

definition gc_GetRound :: "'body GCMessage \<Rightarrow> int option" where
  "gc_GetRound m = map_option (sint \<circ> cred_Round) (credential (gc_SignedCredential m))"

definition sd_GetRound :: "MsgSeed \<Rightarrow> int option" where
  "sd_GetRound m = map_option (sint \<circ> cred_Round) (credential (sd_SignedCredential m))"

definition bc_GetRound :: "MsgBlockConfirmation \<Rightarrow> int" where
  "bc_GetRound msg = sint (bc_Round msg)"

fun GetRound :: "'body wire_msg \<Rightarrow> int option" where
  "GetRound (LeaderProposal m) = lp_GetRound m"
| "GetRound (LeaderVote m) = lv_GetRound m"
| "GetRound (GC m) = gc_GetRound m"
| "GetRound (BinaryBA m) = bba_GetRound m"
| "GetRound (BinaryBAFin m) = bba_GetRound m"
| "GetRound (SeedMsg m) = sd_GetRound m"
| "GetRound (BlockConfirmation m) = Some (bc_GetRound m)"
| "GetRound (HeaderMsg _) = None"

definition lp_GetStep :: "'body LeaderProposalMessage \<Rightarrow> int option" where
  "lp_GetStep m = map_option (sint \<circ> cred_Step) (credential (lp_SignedCredential m))"

definition lv_GetStep :: "'body LeaderVoteMessage \<Rightarrow> int option" where
  "lv_GetStep m = map_option (sint \<circ> cred_Step) (credential (lv_SignedCredential m))"

definition gc_GetStep :: "'body GCMessage \<Rightarrow> int option" where
  "gc_GetStep m = map_option (sint \<circ> cred_Step) (credential (gc_SignedCredential m))"

definition sd_GetStep :: "MsgSeed \<Rightarrow> int option" where
  "sd_GetStep m = map_option (sint \<circ> cred_Step) (credential (sd_SignedCredential m))"

definition bc_GetStep :: "MsgBlockConfirmation \<Rightarrow> int" where
  "bc_GetStep msg = sint (bc_Step msg)"

fun GetStep :: "'body wire_msg \<Rightarrow> int option" where
  "GetStep (LeaderProposal m) = lp_GetStep m"
| "GetStep (LeaderVote m) = lv_GetStep m"
| "GetStep (GC m) = gc_GetStep m"
| "GetStep (BinaryBA m) = bba_GetStep m"
| "GetStep (BinaryBAFin m) = bba_GetStep m"
| "GetStep (SeedMsg m) = sd_GetStep m"
| "GetStep (BlockConfirmation m) = Some (bc_GetStep m)"
| "GetStep (HeaderMsg _) = None"

definition bc_GetInShardProofs :: "MsgBlockConfirmation \<Rightarrow> bytes list" where
  "bc_GetInShardProofs msg = map bba_InShardProof (Confirms msg)"

definition GetVoters :: "MsgBlockConfirmation \<Rightarrow> bytes list option" where
  "GetVoters msg = those (map (\<lambda>bbaMsg. map_option Pk (SignedCredentialWithBA bbaMsg)) (Confirms msg))"

definition NewMessageBlockConfirmation ::
    "32 word \<Rightarrow> 32 word \<Rightarrow> 32 word \<Rightarrow> ByzAgreementValue option \<Rightarrow> BlockHeader option \<Rightarrow> MsgBinaryBA list \<Rightarrow> MsgBlockConfirmation option" where
  "NewMessageBlockConfirmation shard round step v header confirms =
     map_option (\<lambda>v. \<lparr>bc_ShardIndex = shard, bc_Round = round, bc_Step = step, bc_V = v, bc_Header = header, Confirms = confirms\<rparr>) v"

fun GetInShardProofs :: "'body wire_msg \<Rightarrow> bytes list" where
  "GetInShardProofs (LeaderProposal m) = [lp_InShardProof m]"
| "GetInShardProofs (LeaderVote m) = [lv_InShardProof m]"
| "GetInShardProofs (GC m) = [gc_InShardProof m]"
| "GetInShardProofs (BinaryBA m) = [bba_InShardProof m]"
| "GetInShardProofs (BinaryBAFin m) = [bba_InShardProof m]"
| "GetInShardProofs (SeedMsg m) = [sd_InShardProof m]"
| "GetInShardProofs (BlockConfirmation m) = bc_GetInShardProofs m"
| "GetInShardProofs (HeaderMsg _) = []"

fun GetSignedCredential :: "'body wire_msg \<Rightarrow> SignedMsg option" where
  "GetSignedCredential (LeaderProposal m) = lp_SignedCredential m"
| "GetSignedCredential (LeaderVote m) = lv_SignedCredential m"
| "GetSignedCredential (GC m) = gc_SignedCredential m"
| "GetSignedCredential (BinaryBA m) = SignedCredentialWithBA m"
| "GetSignedCredential (BinaryBAFin m) = SignedCredentialWithBA m"
| "GetSignedCredential (SeedMsg m) = sd_SignedCredential m"
| "GetSignedCredential (BlockConfirmation m) = None"
| "GetSignedCredential (HeaderMsg _) = None"

section \<open>Validation\<close>

definition then_check :: "('e + 'a) option \<Rightarrow> ('a \<Rightarrow> ('e + 'b) option) \<Rightarrow> ('e + 'b) option" where
  "then_check r k = (case r of None \<Rightarrow> None | Some (Inl e) \<Rightarrow> Some (Inl e) | Some (Inr a) \<Rightarrow> k a)"

definition check_cred :: "VRF \<Rightarrow> SignedMsg option \<Rightarrow> (wire_error + unit) option" where
  "check_cred vrf sc =
     Option.bind sc (\<lambda>sc. isValidSignedCredential vrf (serialize_ptr cred_Serialize (cred_of sc)) sc)"

definition check_val :: "VRF \<Rightarrow> SignedMsg option \<Rightarrow> (wire_error + unit) option" where
  "check_val vrf sc =
     Option.bind sc (\<lambda>sc. isValidSignedCredential vrf (serialize_ptr value_Serialize (value_of sc)) sc)"

definition bba_IsValidated :: "VRF \<Rightarrow> MsgBinaryBA \<Rightarrow> (wire_error + unit) option" where
  "bba_IsValidated vrf m =
     Option.bind (SignedCredentialWithBA m)
       (\<lambda>sc. isValidSignedCredential vrf (serialize_ptr ba_Serialize (ba_of sc)) sc)"

definition gc_IsValidated :: "VRF \<Rightarrow> 'body GCMessage \<Rightarrow> (wire_error + unit) option" where
  "gc_IsValidated vrf m =
     then_check (check_cred vrf (gc_SignedCredential m)) (\<lambda>_. check_val vrf (gc_SignedVal m))"

definition lv_IsValidated :: "VRF \<Rightarrow> 'body LeaderVoteMessage \<Rightarrow> (wire_error + unit) option" where
  "lv_IsValidated vrf m =
     then_check (check_cred vrf (lv_SignedCredential m)) (\<lambda>_. check_val vrf (lv_SignedVal m))"

definition sd_IsValidated :: "VRF \<Rightarrow> MsgSeed \<Rightarrow> (wire_error + unit) option" where
  "sd_IsValidated vrf m = check_cred vrf (sd_SignedCredential m)"

definition lp_IsValidated :: "hash_fun \<Rightarrow> VRF \<Rightarrow> 'body LeaderProposalMessage \<Rightarrow> (wire_error + unit) option" where
  "lp_IsValidated H vrf m =
     then_check (check_cred vrf (lp_SignedCredential m)) (\<lambda>_.
       case Option.bind (lp_Block m) (\<lambda>b. BlockHeaderHash H (Header b)) of
         None \<Rightarrow> None
       | Some h \<Rightarrow>
           if lp_BlockHash m \<noteq> h then Some (Inl ErrBlockHashMismatch)
           else (case lp_SignedCredential m of
                   None \<Rightarrow> None
                 | Some sc \<Rightarrow>
                     if \<not> VerifyProof vrf (Pk sc) (lp_SignedHash m) (lp_BlockHash m) then Some (Inl ErrBlockHashSig)
                     else Some (Inr ())))"

text \<open>The loop over the confirmations: each of them is checked against the message, with the bit \<open>B\<close> in place of the
  bit of its own credential.\<close>

definition check_confirm :: "VRF \<Rightarrow> byte \<Rightarrow> MsgBlockConfirmation \<Rightarrow> MsgBinaryBA \<Rightarrow> (wire_error + unit) option" where
  "check_confirm vrf b msg bbaMsg =
     (case SignedCredentialWithBA bbaMsg of
        None \<Rightarrow> None
      | Some sc \<Rightarrow>
          (case ba_of sc of
             None \<Rightarrow> None
           | Some c \<Rightarrow>
               (case recovers (ba_Serialize (NewCredentialWithBA (ba_ShardIndex c) (ba_Round c) (ba_Step c) b (ba_V c))) of
                  None \<Rightarrow> None
                | Some (Inl _) \<Rightarrow> Some (Inl ErrConfirmSerialize)
                | Some (Inr buf) \<Rightarrow>
                    if \<not> VerifyProof vrf (Pk sc) (Signature sc) buf then Some (Inl ErrConfirmProof)
                    else if ba_ShardIndex c \<noteq> bc_ShardIndex msg then Some (Inl ErrConfirmShard)
                    else if sint (ba_Round c) \<noteq> sint (bc_Round msg) then Some (Inl ErrConfirmRound)
                    else if sint (ba_Step c) > sint (bc_Step msg) then Some (Inl ErrConfirmStep)
                    else if ba_V c \<noteq> bc_V msg then Some (Inl ErrConfirmValue)
                    else Some (Inr ()))))"

fun check_confirms :: "VRF \<Rightarrow> byte \<Rightarrow> MsgBlockConfirmation \<Rightarrow> MsgBinaryBA list \<Rightarrow> (wire_error + unit) option" where
  "check_confirms vrf b msg [] = Some (Inr ())"
| "check_confirms vrf b msg (c # cs) =
     then_check (check_confirm vrf b msg c) (\<lambda>_. check_confirms vrf b msg cs)"

definition emptyBlockHash :: bytes where
  "emptyBlockHash = replicate 32 0"

definition bc_IsValidated :: "hash_fun \<Rightarrow> VRF \<Rightarrow> MsgBlockConfirmation \<Rightarrow> (wire_error + unit) option" where
  "bc_IsValidated H vrf msg =
     (case bc_Header msg of
        None \<Rightarrow> None
      | Some header \<Rightarrow>
          (case BlockHeaderHash H header of
             None \<Rightarrow> None
           | Some blockHeaderHash \<Rightarrow>
               if IsEmptyBlock header then Some (Inr ())
               else if \<not> VerifyProof vrf (hd_Pk header) (HeaderSig header) blockHeaderHash then Some (Inl ErrHeaderSig)
               else (case seedBuf (LastSeedSig header) (Height header - 2) of
                       None \<Rightarrow> None
                     | Some sb \<Rightarrow>
                         if Seed header \<noteq> H sb then Some (Inl ErrSeed)
                         else if hexEncode (hd_Pk header) \<noteq> Leader (bc_V msg) then Some (Inl ErrLeader)
                         else check_confirms vrf (if blockHeaderHash = emptyBlockHash then 1 else 0) msg (Confirms msg))))"

fun IsValidated :: "hash_fun \<Rightarrow> VRF \<Rightarrow> 'body wire_msg \<Rightarrow> (wire_error + unit) option" where
  "IsValidated H vrf (LeaderProposal m) = lp_IsValidated H vrf m"
| "IsValidated H vrf (LeaderVote m) = lv_IsValidated vrf m"
| "IsValidated H vrf (GC m) = gc_IsValidated vrf m"
| "IsValidated H vrf (BinaryBA m) = bba_IsValidated vrf m"
| "IsValidated H vrf (BinaryBAFin m) = bba_IsValidated vrf m"
| "IsValidated H vrf (SeedMsg m) = sd_IsValidated vrf m"
| "IsValidated H vrf (BlockConfirmation m) = bc_IsValidated H vrf m"
| "IsValidated H vrf (HeaderMsg _) = None"

section \<open>Signing\<close>

definition sign_cred :: "VRF \<Rightarrow> bytes \<Rightarrow> SignedMsg option \<Rightarrow> (wire_error + SignedMsg) option" where
  "sign_cred vrf sk sc = Option.bind sc (\<lambda>sc. sign vrf (serialize_ptr cred_Serialize (cred_of sc)) sk sc)"

definition sign_val :: "VRF \<Rightarrow> bytes \<Rightarrow> SignedMsg option \<Rightarrow> (wire_error + SignedMsg) option" where
  "sign_val vrf sk sc = Option.bind sc (\<lambda>sc. sign vrf (serialize_ptr value_Serialize (value_of sc)) sk sc)"

definition bba_Sign :: "VRF \<Rightarrow> bytes \<Rightarrow> MsgBinaryBA \<Rightarrow> (wire_error + MsgBinaryBA) option" where
  "bba_Sign vrf sk m =
     Option.bind (SignedCredentialWithBA m) (\<lambda>sc.
       then_check (sign vrf (serialize_ptr ba_Serialize (ba_of sc)) sk sc)
         (\<lambda>sc. Some (Inr (m\<lparr>SignedCredentialWithBA := Some sc\<rparr>))))"

definition gc_Sign :: "VRF \<Rightarrow> bytes \<Rightarrow> 'body GCMessage \<Rightarrow> (wire_error + 'body GCMessage) option" where
  "gc_Sign vrf sk m =
     then_check (sign_cred vrf sk (gc_SignedCredential m)) (\<lambda>sc.
       then_check (sign_val vrf sk (gc_SignedVal m)) (\<lambda>sv.
         Some (Inr (m\<lparr>gc_SignedCredential := Some sc, gc_SignedVal := Some sv\<rparr>))))"

definition lv_Sign :: "VRF \<Rightarrow> bytes \<Rightarrow> 'body LeaderVoteMessage \<Rightarrow> (wire_error + 'body LeaderVoteMessage) option" where
  "lv_Sign vrf sk m =
     then_check (sign_cred vrf sk (lv_SignedCredential m)) (\<lambda>sc.
       then_check (sign_val vrf sk (lv_SignedVal m)) (\<lambda>sv.
         Some (Inr (m\<lparr>lv_SignedCredential := Some sc, lv_SignedVal := Some sv\<rparr>))))"

definition lp_Sign :: "VRF \<Rightarrow> bytes \<Rightarrow> 'body LeaderProposalMessage \<Rightarrow> (wire_error + 'body LeaderProposalMessage) option" where
  "lp_Sign vrf sk m =
     then_check (sign_cred vrf sk (lp_SignedCredential m)) (\<lambda>sc. Some (Inr (m\<lparr>lp_SignedCredential := Some sc\<rparr>)))"

definition sd_Sign :: "VRF \<Rightarrow> bytes \<Rightarrow> MsgSeed \<Rightarrow> (wire_error + MsgSeed) option" where
  "sd_Sign vrf sk m =
     then_check (sign_cred vrf sk (sd_SignedCredential m)) (\<lambda>sc. Some (Inr (m\<lparr>sd_SignedCredential := Some sc\<rparr>)))"

section \<open>What is signed determines the data\<close>

text \<open>The encodings of the fields of a struct are items: a concatenation of items has only one reading.\<close>

definition is_item :: "bytes \<Rightarrow> bool" where
  "is_item e \<longleftrightarrow> (\<exists>k c. item k c e)"

lemma item_string: "\<exists>k. item k b (enc_string b)"
proof (cases rule: enc_string_cases [of b])
  case (byte x)
  then show ?thesis by (intro exI [of _ Byte]) (simp add: item_def)
next
  case string
  then show ?thesis by (intro exI [of _ String]) (simp add: item_def)
qed

lemma item_list: "item List c (enc_list c)"
  by (simp add: item_def)

lemma is_item_string [simp]: "is_item (enc_string b)"
  using item_string [of b] by (auto simp: is_item_def)

lemma is_item_list [simp]: "is_item (enc_list b)"
  using item_list [of b] by (auto simp: is_item_def)

lemma enc_int_string: "enc_int i = enc_string (if i = 0 then [] else (if 0 < i then 0x01 else 0x80) # big_Bytes (nat \<bar>i\<bar>))"
  by (simp add: enc_int_def enc_string_def rlp_head_def)

lemma is_item_int [simp]: "is_item (enc_int i)"
  by (simp add: enc_int_string)

lemma enc_string_inj: "length (enc_string a) < 2 ^ 63 \<Longrightarrow> enc_string a = enc_string b \<Longrightarrow> a = b"
proof -
  assume l: "length (enc_string a) < 2 ^ 63" and e: "enc_string a = enc_string b"
  obtain k l where "item k a (enc_string a)" "item l b (enc_string b)" using item_string by blast
  then show ?thesis using Split_item [of k a "enc_string a" "[]"] Split_item [of l b "enc_string b" "[]"] l e by simp
qed

lemma enc_list_inj: "length (enc_list a) < 2 ^ 63 \<Longrightarrow> enc_list a = enc_list b \<Longrightarrow> a = b"
  using Split_item [OF item_list, of a "[]"] Split_item [OF item_list, of b "[]"] by simp

lemma enc_string_list: "length (enc_string a) < 2 ^ 63 \<Longrightarrow> enc_string a \<noteq> enc_list b"
proof
  assume l: "length (enc_string a) < 2 ^ 63" and e: "enc_string a = enc_list b"
  obtain k where k: "item k a (enc_string a)" "k \<noteq> List"
  proof (cases rule: enc_string_cases [of a])
    case (byte x)
    then show thesis by (intro that [of Byte]) (simp_all add: item_def)
  next
    case string
    then show thesis by (intro that [of String]) (simp_all add: item_def)
  qed
  then show False using Split_item [of k a "enc_string a" "[]"] Split_item [OF item_list, of b "[]"] l e by simp
qed

lemma big_Bytes_inj: "big_Bytes m = big_Bytes n \<Longrightarrow> m = n"
  by (metis be_val_big_Bytes)

lemma enc_int_inj: "length (enc_int i) < 2 ^ 63 \<Longrightarrow> enc_int i = enc_int j \<Longrightarrow> i = j"
proof -
  assume l: "length (enc_int i) < 2 ^ 63" and e: "enc_int i = enc_int j"
  let ?c = "\<lambda>i. if i = 0 then [] else (if 0 < i then 0x01 else 0x80) # big_Bytes (nat \<bar>i :: int\<bar>) :: bytes"
  have "?c i = ?c j" using enc_string_inj [of "?c i" "?c j"] l e unfolding enc_int_string by blast
  then show ?thesis by (auto split: if_splits dest!: big_Bytes_inj)
qed

lemma item_nonempty: "is_item e \<Longrightarrow> e \<noteq> []"
proof -
  assume "is_item e"
  then obtain k c where "item k c e" unfolding is_item_def by blast
  then show ?thesis by (cases k) (auto simp: item_def rlp_head_def)
qed

lemma items_inj:
  assumes "list_all is_item es" "list_all is_item fs" "concat es = concat fs" "length (concat es) < 2 ^ 63"
  shows "es = fs"
  using assms
proof (induction es arbitrary: fs)
  case Nil
  then show ?case using item_nonempty by (cases fs) auto
next
  case (Cons e es)
  then have e: "is_item e" by simp
  then obtain f fs' where fs: "fs = f # fs'" using Cons.prems(3) item_nonempty by (cases fs) auto
  then have "is_item f" using Cons.prems(2) by simp
  with e obtain k c l d where i: "item k c e" "item l d f" unfolding is_item_def by blast
  have eq: "e @ concat es = f @ concat fs'" using Cons.prems(3) fs by simp
  have len: "length (e @ concat es) < 2 ^ 63" using Cons.prems(4) by simp
  have "Split (e @ concat es) = Inr (k, c, concat es)" by (rule Split_item [OF i(1) len])
  moreover have "Split (e @ concat es) = Inr (l, d, concat fs')" unfolding eq by (rule Split_item [OF i(2) len [unfolded eq]])
  ultimately have t: "concat es = concat fs'" by (metis Inr_inject prod.inject)
  have "length (concat es) < 2 ^ 63" by (rule le_less_trans [OF _ len]) (simp del: length_concat)
  then have "es = fs'" using Cons.IH [OF _ _ t] Cons.prems(1,2) fs by simp
  then show ?case using eq fs by simp
qed

lemma sint_scast32: "sint (scast (i :: 32 word) :: 64 word) = sint i"
  by (simp add: sint_up_scast is_up)

lemma unat_ucast32 [simp]: "unat (ucast (i :: 32 word) :: 64 word) = unat i"
  by (simp add: unsigned_ucast_eq take_bit_nat_eq_self unsigned_less [THEN less_trans])

lemma unat_ucast8 [simp]: "unat (ucast (i :: byte) :: 64 word) = unat i"
  by (simp add: unsigned_ucast_eq take_bit_nat_eq_self unsigned_less [THEN less_trans])


lemma length_rlp_head_le: "n < 2 ^ 64 \<Longrightarrow> length (rlp_head s l n) \<le> 9"
  using length_big_Bytes_le [of n 8] by (simp add: rlp_head_def)

lemma length_enc_string_le: "length b < 2 ^ 64 \<Longrightarrow> length (enc_string b) \<le> length b + 9"
  using length_rlp_head_le [of "length b"] by (simp add: enc_string_def)

lemma length_enc_list_le: "length b < 2 ^ 64 \<Longrightarrow> length (enc_list b) \<le> length b + 9"
  using length_rlp_head_le [of "length b"] by (simp add: enc_list_def)

lemma length_enc_uint_le: "length (enc_string (big_Bytes (unat (i :: 64 word)))) \<le> 17"
proof -
  have "unat i < 256 ^ 8" using unsigned_less [of i] by simp
  then have "length (big_Bytes (unat i)) \<le> 8" by (rule length_big_Bytes_le)
  then show ?thesis using length_enc_string_le [of "big_Bytes (unat i)"] by simp
qed

lemma length_enc_int_le: "length (enc_int (sint (i :: 64 word))) \<le> 18"
proof -
  have "\<bar>sint i\<bar> \<le> 2 ^ 63" using sint_ge [of i] sint_lt [of i] by (simp add: abs_le_iff)
  then have "nat \<bar>sint i\<bar> < 256 ^ 8" by simp
  then have "length (big_Bytes (nat \<bar>sint i\<bar>)) \<le> 8" by (rule length_big_Bytes_le)
  then show ?thesis unfolding enc_int_string by (intro order_trans [OF length_enc_string_le]) simp_all
qed

definition wf_value :: "ByzAgreementValue \<Rightarrow> bool" where
  "wf_value v \<longleftrightarrow> length (BlockHash v) = 32 \<and> length (Leader v) < 2 ^ 32"

lemmas wire_ty = field_def no_tags_def Credential_ty_def Credential_val_def ByzAgreementValue_ty_def ByzAgreementValue_val_def
  CredentialWithBA_ty_def CredentialWithBA_val_def int32V_def uint32V_def

text \<open>The items of the three kinds of signed data.\<close>

definition cred_items :: "Credential \<Rightarrow> bytes list" where
  "cred_items c = [enc_int (sint (cred_Round c)), enc_int (sint (cred_Step c))]"

definition value_items :: "ByzAgreementValue \<Rightarrow> bytes list" where
  "value_items v = [enc_string (BlockHash v), enc_string (Leader v)]"

definition ba_items :: "CredentialWithBA \<Rightarrow> bytes list" where
  "ba_items c = [enc_string (big_Bytes (unat (ba_ShardIndex c))), enc_int (sint (ba_Round c)), enc_int (sint (ba_Step c)),
     enc_string (big_Bytes (unat (ba_B c))), enc_list (concat (value_items (ba_V c)))]"

lemma enc_cred: "enc Credential_ty no_tags (Credential_val c) = enc_list (concat (cred_items c))"
  by (simp add: wire_ty cred_items_def sint_scast32)

lemma enc_value: "enc ByzAgreementValue_ty no_tags (ByzAgreementValue_val v) = enc_list (concat (value_items v))"
  by (simp add: wire_ty value_items_def)

lemma enc_ba: "enc CredentialWithBA_ty no_tags (CredentialWithBA_val c) = enc_list (concat (ba_items c))"
  by (simp add: wire_ty value_items_def ba_items_def sint_scast32)

lemma items_wire [simp]: "list_all is_item (cred_items c)" "list_all is_item (value_items v)" "list_all is_item (ba_items b)"
  by (simp_all add: cred_items_def value_items_def ba_items_def)

lemma abs_sint32: "\<bar>sint (scast (i :: 32 word) :: 64 word)\<bar> < 2 ^ 56"
  using sint_ge [of i] sint_lt [of i] by (simp add: sint_scast32 abs_less_iff)

lemma writeInt32 [simp]: "writeInt (scast (i :: 32 word)) w = Inr (put (enc_int (sint i)) w)"
  using abs_sint32 [of i] by (simp add: writeInt_eq sint_scast32)

lemma writer_total:
  "\<exists>w'. writer Credential_ty no_tags (Credential_val c) w = Inr w'"
  "\<exists>w'. writer ByzAgreementValue_ty no_tags (ByzAgreementValue_val v) w = Inr w'"
  "\<exists>w'. writer CredentialWithBA_ty no_tags (CredentialWithBA_val b) w = Inr w'"
  by (simp_all add: wire_ty encbuf_list_def Let_def)

lemma typeinfo_wire [simp]: "typeinfo Credential_ty = None" "typeinfo ByzAgreementValue_ty = None" "typeinfo CredentialWithBA_ty = None"
  by (simp_all add: wire_ty)

lemma EncodeToBytes_total:
  "\<exists>w'. writer t no_tags v encbuf_reset = Inr w' \<Longrightarrow> typeinfo t = None \<Longrightarrow> length (enc t no_tags v) < 2 ^ 64 \<Longrightarrow>
     EncodeToBytes t v = Inr (enc t no_tags v)"
  using EncodeToBytes_enc [of t v] by (auto simp: EncodeToBytes_def encbuf_encode_def)

lemma length_int32: "length (enc_int (sint (i :: 32 word))) \<le> 18"
  using length_enc_int_le [of "scast i"] by (simp add: sint_scast32)

lemma length_uint32: "length (enc_string (big_Bytes (unat (i :: 32 word)))) \<le> 17"
  using length_enc_uint_le [of "ucast i"] by simp

lemma length_uint8: "length (enc_string (big_Bytes (unat (i :: byte)))) \<le> 17"
  using length_enc_uint_le [of "ucast i"] by simp

lemma length_cred: "length (concat (cred_items c)) \<le> 36"
  using length_int32 [of "cred_Round c"] length_int32 [of "cred_Step c"] by (simp add: cred_items_def)

lemma length_value: "wf_value v \<Longrightarrow> length (concat (value_items v)) \<le> 2 ^ 32 + 50"
  using length_enc_string_le [of "BlockHash v"] length_enc_string_le [of "Leader v"] by (simp add: value_items_def wf_value_def)

lemma length_ba: "wf_value (ba_V c) \<Longrightarrow> length (concat (ba_items c)) \<le> 2 ^ 32 + 150"
  using length_uint32 [of "ba_ShardIndex c"] length_int32 [of "ba_Round c"] length_int32 [of "ba_Step c"] length_uint8 [of "ba_B c"]
    length_enc_list_le [of "concat (value_items (ba_V c))"] length_value [of "ba_V c"]
  by (simp add: ba_items_def del: length_concat)

lemma length_enc_list_63: "length b \<le> 2 ^ 33 \<Longrightarrow> length (enc_list b) < 2 ^ 63"
  using length_enc_list_le [of b] by simp

lemma cred_Serialize_eq: "cred_Serialize c = Inr (enc_list (concat (cred_items c)))"
proof -
  have "length (concat (cred_items c)) \<le> 2 ^ 33" using length_cred [of c] by (simp del: length_concat)
  then have "length (enc_list (concat (cred_items c))) < 2 ^ 63" by (rule length_enc_list_63)
  then show ?thesis using EncodeToBytes_total [OF writer_total(1)] by (simp add: cred_Serialize_def enc_cred)
qed

lemma value_Serialize_eq: "wf_value v \<Longrightarrow> value_Serialize v = Inr (enc_list (concat (value_items v)))"
proof -
  assume "wf_value v"
  then have "length (concat (value_items v)) \<le> 2 ^ 33" using length_value [of v] by (simp del: length_concat)
  then have "length (enc_list (concat (value_items v))) < 2 ^ 63" by (rule length_enc_list_63)
  then show ?thesis using EncodeToBytes_total [OF writer_total(2)] by (simp add: value_Serialize_def enc_value)
qed

lemma ba_Serialize_eq: "wf_value (ba_V c) \<Longrightarrow> ba_Serialize c = Inr (enc_list (concat (ba_items c)))"
proof -
  assume "wf_value (ba_V c)"
  then have "length (concat (ba_items c)) \<le> 2 ^ 33" using length_ba [of c] by (simp del: length_concat)
  then have "length (enc_list (concat (ba_items c))) < 2 ^ 63" by (rule length_enc_list_63)
  then show ?thesis using EncodeToBytes_total [OF writer_total(3)] by (simp add: ba_Serialize_def enc_ba)
qed

lemma enc_items_inj:
  assumes "list_all is_item es" "list_all is_item fs" "length (concat es) \<le> 2 ^ 33" "enc_list (concat es) = enc_list (concat fs)"
  shows "es = fs"
proof -
  have "concat es = concat fs" using enc_list_inj [OF length_enc_list_63 [OF assms(3)] assms(4)] .
  moreover have "length (concat es) < 2 ^ 63" using assms(3) by (simp del: length_concat)
  ultimately show ?thesis using items_inj assms(1,2) by blast
qed


lemma value_items_inj: "wf_value v \<Longrightarrow> value_items v = value_items w \<Longrightarrow> v = w"
proof -
  assume wf: "wf_value v" and e: "value_items v = value_items w"
  have "length (enc_string (BlockHash v)) < 2 ^ 63" "length (enc_string (Leader v)) < 2 ^ 63"
    using wf length_enc_string_le [of "BlockHash v"] length_enc_string_le [of "Leader v"] by (simp_all add: wf_value_def)
  then have "BlockHash v = BlockHash w" "Leader v = Leader w"
    using e enc_string_inj unfolding value_items_def by blast+
  then show ?thesis by simp
qed

lemma enc_int32_inj: "enc_int (sint (i :: 32 word)) = enc_int (sint j) \<longleftrightarrow> i = j"
proof
  assume "enc_int (sint i) = enc_int (sint j)"
  moreover have "length (enc_int (sint i)) < 2 ^ 63" using length_int32 [of i] by simp
  ultimately have "sint i = sint j" by (intro enc_int_inj)
  then show "i = j" by (rule signed_word_eqI)
qed simp

lemma cred_items_inj: "cred_items c = cred_items d \<Longrightarrow> c = d"
  by (simp add: cred_items_def enc_int32_inj)

lemma enc_uint_inj: "length (enc_string (big_Bytes m)) \<le> 17 \<Longrightarrow> enc_string (big_Bytes m) = enc_string (big_Bytes n) \<Longrightarrow> m = n"
  using enc_string_inj [of "big_Bytes m" "big_Bytes n"] big_Bytes_inj by simp

lemma ba_items_inj: "wf_value (ba_V c) \<Longrightarrow> ba_items c = ba_items d \<Longrightarrow> c = d"
proof -
  assume wf: "wf_value (ba_V c)" and e: "ba_items c = ba_items d"
  have l: "length (concat (value_items (ba_V c))) \<le> 2 ^ 33" using length_value [OF wf] by (simp del: length_concat)
  have "value_items (ba_V c) = value_items (ba_V d)"
    using enc_items_inj [OF items_wire(2) items_wire(2) l] e by (simp add: ba_items_def)
  then have "ba_V c = ba_V d" using value_items_inj wf by blast
  moreover have "ba_ShardIndex c = ba_ShardIndex d" "ba_B c = ba_B d"
    using e enc_uint_inj [OF length_uint32 [of "ba_ShardIndex c"]] enc_uint_inj [OF length_uint8 [of "ba_B c"]]
    by (simp_all add: ba_items_def word_unat_eq_iff)
  ultimately show ?thesis using e by (simp add: ba_items_def enc_int32_inj)
qed

lemma cred_value_items: "wf_value v \<Longrightarrow> cred_items c \<noteq> value_items v"
proof
  assume wf: "wf_value v" and e: "cred_items c = value_items v"
  have "length (enc_int (sint (cred_Round c))) \<le> 18" by (rule length_int32)
  moreover have "length (BlockHash v) \<le> length (enc_string (BlockHash v))" by (rule length_enc_string)
  ultimately show False using wf e by (simp add: cred_items_def value_items_def wf_value_def)
qed

section \<open>Properties\<close>

text \<open>C20. The bytes that are signed determine what is signed. The serialization of a binary agreement credential
  determines its shard, round, step, bit and value; that of a credential its round and step; that of a value its block hash and
  leader; and no bytes are the serialization of two of the three kinds, so that a signature of one kind never passes for a signature
  of another.\<close>

theorem signed_bytes_determine:
  assumes "wf_value (ba_V c)" "wf_value (ba_V c')" "wf_value v" "wf_value v'"
  shows "(ba_Serialize c = ba_Serialize c' \<longleftrightarrow> c = c') \<and> (cred_Serialize r = cred_Serialize r' \<longleftrightarrow> r = r') \<and>
     (value_Serialize v = value_Serialize v' \<longleftrightarrow> v = v') \<and>
     cred_Serialize r \<noteq> value_Serialize v \<and> cred_Serialize r \<noteq> ba_Serialize c \<and> value_Serialize v \<noteq> ba_Serialize c"
proof -
  have lc: "length (concat (ba_items c)) \<le> 2 ^ 33" and lr: "length (concat (cred_items r)) \<le> 2 ^ 33" and lv: "length (concat (value_items v)) \<le> 2 ^ 33"
    using length_ba [OF assms(1)] length_cred [of r] length_value [OF assms(3)] by (simp_all del: length_concat)
  have "cred_items r \<noteq> ba_items c" "value_items v \<noteq> ba_items c" by (simp_all add: cred_items_def value_items_def ba_items_def)
  then show ?thesis
    using enc_items_inj [OF items_wire(3) items_wire(3) lc] enc_items_inj [OF items_wire(1) items_wire(1) lr] enc_items_inj [OF items_wire(2) items_wire(2) lv]
      enc_items_inj [OF items_wire(1) items_wire(2) lr] enc_items_inj [OF items_wire(1) items_wire(3) lr] enc_items_inj [OF items_wire(2) items_wire(3) lv]
      cred_value_items [OF assms(3)] ba_items_inj [OF assms(1)] cred_items_inj value_items_inj [OF assms(3)]
    unfolding ba_Serialize_eq [OF assms(1)] ba_Serialize_eq [OF assms(2)] value_Serialize_eq [OF assms(3)] value_Serialize_eq [OF assms(4)] cred_Serialize_eq
      sum.inject by metis
qed

definition sample_value :: ByzAgreementValue where
  "sample_value = \<lparr>BlockHash = replicate 32 7, Leader = [0x61, 0x62]\<rparr>"

theorem signed_bytes_determine_witness:
  "ba_Serialize (NewCredentialWithBA 1 5 4 0 sample_value) \<noteq> ba_Serialize (NewCredentialWithBA 1 5 4 1 sample_value) \<and>
   cred_Serialize (NewCredential 5 2) \<noteq> cred_Serialize (NewCredential 6 2) \<and> value_Serialize sample_value \<noteq> value_Serialize empty_value"
  using signed_bytes_determine [of "NewCredentialWithBA 1 5 4 0 sample_value" "NewCredentialWithBA 1 5 4 1 sample_value" sample_value empty_value
      "NewCredential 5 2" "NewCredential 6 2"]
  by (simp add: wf_value_def sample_value_def empty_value_def NewCredentialWithBA_def NewCredential_def)

section \<open>Seeds\<close>

lemma length_putUvarint: "length (putUvarint x) \<le> Suc k \<longleftrightarrow> unat x < 128 ^ Suc k"
proof (induction k arbitrary: x)
  case 0
  then show ?case by (subst putUvarint.simps) (simp add: word_le_nat_alt not_le word_less_nat_alt putUvarint.simps [of "drop_bit 7 x"])
next
  case (Suc k)
  show ?case
  proof (cases "x \<ge> 0x80")
    case True
    have "length (putUvarint x) \<le> Suc (Suc k) \<longleftrightarrow> unat (drop_bit 7 x) < 128 ^ Suc k"
      using Suc [of "drop_bit 7 x"] True by (subst putUvarint.simps) simp
    also have "\<dots> \<longleftrightarrow> unat x < 128 ^ Suc (Suc k)"
      by (simp add: drop_bit_eq_div unat_div_distrib div_less_iff_less_mult mult.commute)
    finally show ?thesis .
  next
    case False
    then have "unat x < 128" by (simp add: not_le word_less_nat_alt)
    also have "128 \<le> (128 :: nat) ^ Suc (Suc k)" by (simp add: one_le_power)
    finally show ?thesis using False by (subst putUvarint.simps) simp
  qed
qed

lemma mod64_neg: "- (2 ^ 64) \<le> a \<Longrightarrow> a < 0 \<Longrightarrow> a mod 2 ^ 64 = a + 2 ^ 64" for a :: int
  using mod_pos_pos_trivial [of "a + 2 ^ 64" "2 ^ 64"] by (simp only: mod_add_self2)

lemma sint_cases: "(0 \<le> sint x \<and> uint x = sint x) \<or> (sint x < 0 \<and> uint (x :: 64 word) = sint x + 2 ^ 64)"
proof (cases "0 \<le> sint x")
  case True
  moreover have "sint x < 2 ^ 64" using sint_lt [of x] by simp
  ultimately show ?thesis using uint_sint [of x] mod_pos_pos_trivial [of "sint x" "2 ^ 64"] by (simp add: take_bit_eq_mod)
next
  case False
  moreover have "- (2 ^ 64) \<le> sint x" using sint_ge [of x] by simp
  ultimately show ?thesis using uint_sint [of x] mod64_neg [of "sint x"] by (simp add: take_bit_eq_mod)
qed

lemma zigzag_nonneg: "0 \<le> sint x \<Longrightarrow> unat (zigzag x) = 2 * nat (sint x)"
proof -
  assume n: "0 \<le> sint x"
  then have u: "uint x = sint x" using sint_cases [of x] by auto
  have "sint x < 2 ^ 63" using sint_lt [of x] by simp
  then have "uint (push_bit 1 x) = 2 * sint x" using u n by (simp add: push_bit_eq_mult uint_word_ariths)
  then show ?thesis using n by (simp add: zigzag_def unat_eq_nat_uint nat_mult_distrib)
qed

lemma zigzag_neg: "sint x < 0 \<Longrightarrow> unat (zigzag x) = 2 * nat (- sint x) - 1"
proof -
  assume n: "sint x < 0"
  have b: "- (2 ^ 63) \<le> sint x" using sint_ge [of x] by simp
  have "zigzag x = of_int (- 2 * sint x - 1)"
    using n by (simp add: zigzag_def push_bit_eq_mult not_eq_complement)
  then have "uint (zigzag x) = (- 2 * sint x - 1) mod 2 ^ 64" by (simp only: uint_word_of_int) simp
  also have "\<dots> = - 2 * sint x - 1" using n b by simp
  finally show ?thesis using n by (simp add: unat_eq_nat_uint)
qed
lemma seedBuf_None: "seedBuf sig r = None \<longleftrightarrow> \<not> (- (2 ^ 55) \<le> sint r \<and> sint r < 2 ^ 55)"
proof -
  have "seedBuf sig r = None \<longleftrightarrow> \<not> unat (zigzag r) < 2 ^ 56"
    using length_putUvarint [of "zigzag r" 7] by (simp add: seedBuf_def PutVarint_def Let_def)
  also have "unat (zigzag r) < 2 ^ 56 \<longleftrightarrow> - (2 ^ 55) \<le> sint r \<and> sint r < 2 ^ 55"
    using zigzag_nonneg [of r] zigzag_neg [of r] by (cases "0 \<le> sint r") auto
  finally show ?thesis by blast
qed

lemma recovers_Inr [simp]: "recovers (Inr x) = Some (Inr x)"
  by (simp add: recovers_def)

definition signed_by :: "bytes \<Rightarrow> ConsensusMsg \<Rightarrow> SignedMsg option" where
  "signed_by pk m = Some \<lparr>Pk = pk, Signature = [], Message = m\<rparr>"

lemma sign_cred_ok:
  "Generate vrf pk sk (enc_list (concat (cred_items c))) = Some s \<Longrightarrow>
     sign_cred vrf sk (signed_by pk (no_msg\<lparr>cm_Credential := Some c\<rparr>)) =
       Some (Inr \<lparr>Pk = pk, Signature = s, Message = no_msg\<lparr>cm_Credential := Some c\<rparr>\<rparr>)"
  by (simp add: sign_cred_def signed_by_def sign_def serialize_ptr_def cred_Serialize_eq)

lemma sign_val_ok:
  "wf_value v \<Longrightarrow> Generate vrf pk sk (enc_list (concat (value_items v))) = Some s \<Longrightarrow>
     sign_val vrf sk (signed_by pk (no_msg\<lparr>cm_ByzAgreementValue := Some v\<rparr>)) =
       Some (Inr \<lparr>Pk = pk, Signature = s, Message = no_msg\<lparr>cm_ByzAgreementValue := Some v\<rparr>\<rparr>)"
  by (simp add: sign_val_def signed_by_def sign_def serialize_ptr_def value_Serialize_eq)


definition sample_vrf :: VRF where
  "sample_vrf = \<lparr>Generate = \<lambda>pk sk m. Some (pk @ m), VerifyProof = \<lambda>pk s m. s = pk @ m\<rparr>"



definition sample_header :: BlockHeader where
  "sample_header = \<lparr>hd_Version = 1, hd_ShardIndex = 1, Height = 0x0080000000000002, PrevBlockHeader = replicate 32 1, BlockBodyHash = replicate 32 2,
     OutsMerkleRoot = replicate 32 3, ShardLedgerMerkleRoot = replicate 32 4, IsEmptyBlock = False, TimeStamp = 1000, DepositTxsOuts = [],
     WithdrawTxsOuts = [], ReshardSeed = [], hd_Pk = replicate 32 5, LastSeedSig = [1, 2], HeaderSig = [], Seed = replicate 32 6, ReduceActions = []\<rparr>"

definition accepting_vrf :: VRF where
  "accepting_vrf = \<lparr>Generate = \<lambda>pk sk m. Some [], VerifyProof = \<lambda>pk s m. True\<rparr>"

definition sample_confirmation :: MsgBlockConfirmation where
  "sample_confirmation = \<lparr>bc_ShardIndex = 1, bc_Round = 7, bc_Step = 4, bc_V = sample_value, bc_Header = Some sample_header, Confirms = []\<rparr>"

lemma BlockHeaderHash_total:
  assumes "\<bar>sint (Height h)\<bar> < 2 ^ 56" "\<bar>sint (TimeStamp h)\<bar> < 2 ^ 56" "DepositTxsOuts h = []" "WithdrawTxsOuts h = []" "ReduceActions h = []"
  shows "\<exists>b. BlockHeaderHash H h = Some (H b)"
proof -
  have "\<exists>w. writer (PtrT BlockHeader_ty) no_tags (PtrV (Some (BlockHeader_val (h\<lparr>HeaderSig := []\<rparr>)))) encbuf_reset = Inr w"
    using assms abs_sint32 [of "hd_Version h"] by (simp add: BlockHeader_ty_def BlockHeader_val_def wire_ty encbuf_list_def Let_def writeInt_eq sint_scast32)
  moreover have "typeinfo (PtrT BlockHeader_ty) = None"
    by (simp add: BlockHeader_ty_def OutPoint_ty_def ReduceAction_ty_def wire_ty)
  ultimately show ?thesis
    by (auto simp: BlockHeaderHash_def writeBlockHeader_def Encode_def encbuf_encode_def)
qed

lemma sample_header_hash: "BlockHeaderHash (\<lambda>_. []) sample_header = Some []"
proof -
  have "\<bar>sint (Height sample_header)\<bar> < 2 ^ 56" by code_simp
  moreover have "\<bar>sint (TimeStamp sample_header)\<bar> < 2 ^ 56" by code_simp
  ultimately show ?thesis using BlockHeaderHash_total [of sample_header "\<lambda>_. []"] by (simp add: sample_header_def)
qed


end
