(* ===== verification/BinaryBA.thy ===== *)
theory BinaryBA
  imports Wire "HOL-Library.Signed_Division"
begin

text \<open>
  The vote counter of the binary Byzantine agreement (\<^verbatim>\<open>src/processor/miner/consensus/binary_ba_voter.go\<close>): the votes
  received for each round, step and bit, the duplicates it drops, and the agreement it reports to the executor. The
  mutex of the source serialises the operations, each of which is one function here. Go's \<^verbatim>\<open>int\<close> is \<^typ>\<open>int\<close>: rounds and
  steps come from 32-bit fields of messages and the counters are bounded by the number of messages received, so that
  the 64 bits are never exceeded.

  The specification is a ballot box: the list of votes cast by key and voter. \<open>box_of\<close> is the refinement relation.
\<close>

section \<open>The voter\<close>

record voteKey =
  vk_round :: int
  vk_step :: int
  vk_b :: byte

record voteValue =
  cnt :: int
  cntMap :: "ByzAgreementValue \<rightharpoonup> int"

datatype resultType = totalAgreeOnZero | partialAgreeOnZero | agreeOnOne | notAgree

record binaryBAVoter =
  result :: "voteKey \<rightharpoonup> voteValue"
  resultValue :: ByzAgreementValue
  threshold :: int
  bbv_round :: int
  bbaHistory :: "voteKey \<rightharpoonup> bytes \<rightharpoonup> MsgBinaryBA"
  gcHistory :: "bytes \<rightharpoonup> bool"
  resRound :: int

abbreviation key :: "int \<Rightarrow> int \<Rightarrow> byte \<Rightarrow> voteKey" where
  "key r s b \<equiv> \<lparr>vk_round = r, vk_step = s, vk_b = b\<rparr>"

type_synonym agreement = "voteKey option \<times> resultType \<times> bool"

text \<open>\<^verbatim>\<open>pk[:32]\<close> panics on a shorter slice.\<close>

definition pkToPKKey :: "bytes \<Rightarrow> bytes option" where
  "pkToPKKey pk = (if length pk < 32 then None else Some (take 32 pk))"

definition newBinaryBAVoter :: "int \<Rightarrow> int \<Rightarrow> binaryBAVoter" where
  "newBinaryBAVoter round thr =
     \<lparr>result = (\<lambda>_. None), resultValue = empty_value, threshold = thr, bbv_round = round, bbaHistory = (\<lambda>_. None),
      gcHistory = (\<lambda>_. None), resRound = 0\<rparr>"

definition bba_setThreshold :: "int \<Rightarrow> binaryBAVoter \<Rightarrow> binaryBAVoter" where
  "bba_setThreshold thr bv = bv\<lparr>threshold := thr\<rparr>"

definition bba_setCurrentRound :: "int \<Rightarrow> binaryBAVoter \<Rightarrow> binaryBAVoter" where
  "bba_setCurrentRound round bv =
     bv\<lparr>bbv_round := round,
        bbaHistory := drop_keys (\<lambda>k. vk_round k < round - 1) (bbaHistory bv),
        result := drop_keys (\<lambda>k. vk_round k < round - 1) (result bv),
        gcHistory := (\<lambda>_. None)\<rparr>"

text \<open>Reading a missing key of a Go map of integers gives 0.\<close>

definition at0 :: "('k \<rightharpoonup> int) \<Rightarrow> 'k \<Rightarrow> int" where
  "at0 m k = (case m k of None \<Rightarrow> 0 | Some n \<Rightarrow> n)"

definition fin_votes :: "binaryBAVoter \<Rightarrow> voteKey \<Rightarrow> ByzAgreementValue option \<Rightarrow> int" where
  "fin_votes bv k vote =
     (case result bv k of
        None \<Rightarrow> 0
      | Some vv \<Rightarrow> (case vote of None \<Rightarrow> cnt vv | Some v \<Rightarrow> at0 (cntMap vv) v))"

function numOfFinNodesFrom :: "int \<Rightarrow> binaryBAVoter \<Rightarrow> int \<Rightarrow> int \<Rightarrow> byte \<Rightarrow> ByzAgreementValue option \<Rightarrow> int \<Rightarrow> int" where
  "numOfFinNodesFrom i bv round step b vote acc =
     (if i < step then numOfFinNodesFrom (i + 1) bv round step b vote (acc + fin_votes bv (key round (- i) b) vote) else acc)"
  by pat_completeness auto
termination by (relation "measure (\<lambda>(i, bv, round, step, b, vote, acc). nat (step - i))") auto

declare numOfFinNodesFrom.simps [simp del]

definition numOfFinNodesBeforeStep :: "binaryBAVoter \<Rightarrow> int \<Rightarrow> int \<Rightarrow> byte \<Rightarrow> ByzAgreementValue option \<Rightarrow> int" where
  "numOfFinNodesBeforeStep bv round step b vote = numOfFinNodesFrom 4 bv round step b vote 0"

text \<open>The messages recorded for a key, in the order \<open>order\<close> in which Go visits the keys of the map.\<close>

definition getBBAHistory :: "bytes list \<Rightarrow> int \<Rightarrow> int \<Rightarrow> byte \<Rightarrow> binaryBAVoter \<Rightarrow> MsgBinaryBA list" where
  "getBBAHistory order round step b bv =
     (case bbaHistory bv (key round step b) of None \<Rightarrow> [] | Some m \<Rightarrow> List.map_filter m order)"

definition bba_addVote :: "int \<Rightarrow> int \<Rightarrow> byte \<Rightarrow> ByzAgreementValue \<Rightarrow> binaryBAVoter \<Rightarrow> agreement \<times> binaryBAVoter" where
  "bba_addVote round step b v bv =
     (let k = key round step b;
          vv = (case result bv k of
                  Some vv \<Rightarrow> \<lparr>cnt = cnt vv + 1, cntMap = (cntMap vv)(v \<mapsto> at0 (cntMap vv) v + 1)\<rparr>
                | None \<Rightarrow> \<lparr>cnt = 1, cntMap = [v \<mapsto> 1]\<rparr>);
          bv = bv\<lparr>result := (result bv)(k \<mapsto> vv)\<rparr>;
          num0 = at0 (cntMap vv) v + numOfFinNodesBeforeStep bv round step b (Some v);
          num = cnt vv + numOfFinNodesBeforeStep bv round step b None
      in (if b = 0 \<and> num0 = threshold bv then (Some k, totalAgreeOnZero, False)
          else if b = 0 \<and> num0 > threshold bv then (Some k, totalAgreeOnZero, True)
          else if num = threshold bv then (Some k, if b = 0 then partialAgreeOnZero else agreeOnOne, False)
          else if num > threshold bv then
            (if b = 0 then (Some k, partialAgreeOnZero, False) else (Some k, agreeOnOne, True))
          else (None, notAgree, False),
          bv))"

definition addVoteWithBBAMsg ::
    "int \<Rightarrow> int \<Rightarrow> byte \<Rightarrow> ByzAgreementValue \<Rightarrow> MsgBinaryBA \<Rightarrow> binaryBAVoter \<Rightarrow> (agreement \<times> binaryBAVoter) option" where
  "addVoteWithBBAMsg round step b v msgbba bv =
     (case SignedCredentialWithBA msgbba of
        None \<Rightarrow> None
      | Some sc \<Rightarrow>
          (case pkToPKKey (Pk sc) of
             None \<Rightarrow> None
           | Some pk \<Rightarrow>
               let k = key round step b in
               case bbaHistory bv k of
                 Some hist \<Rightarrow>
                   if hist pk \<noteq> None then Some ((None, notAgree, False), bv)
                   else Some (bba_addVote round step b v (bv\<lparr>bbaHistory := (bbaHistory bv)(k \<mapsto> hist(pk \<mapsto> msgbba))\<rparr>))
               | None \<Rightarrow>
                   Some (bba_addVote round step b v (bv\<lparr>bbaHistory := (bbaHistory bv)(k \<mapsto> [pk \<mapsto> msgbba])\<rparr>))))"

definition addGCVote ::
    "int \<Rightarrow> int \<Rightarrow> byte \<Rightarrow> ByzAgreementValue \<Rightarrow> bytes \<Rightarrow> binaryBAVoter \<Rightarrow> (agreement \<times> binaryBAVoter) option" where
  "addGCVote round step b v pk bv =
     (case pkToPKKey pk of
        None \<Rightarrow> None
      | Some pk \<Rightarrow>
          if gcHistory bv pk \<noteq> None then Some ((None, notAgree, False), bv)
          else Some (bba_addVote round step b v (bv\<lparr>gcHistory := (gcHistory bv)(pk \<mapsto> True)\<rparr>)))"

text \<open>The loop over the values of step 4, in the order \<open>order\<close> in which Go visits them; Go's division truncates.\<close>

definition getVoteKeyWithHalfThreshold ::
    "ByzAgreementValue list \<Rightarrow> binaryBAVoter \<Rightarrow> (voteKey \<times> ByzAgreementValue) option" where
  "getVoteKeyWithHalfThreshold order bv =
     (let k = key (bbv_round bv) 4 0 in
      case result bv k of
        None \<Rightarrow> None
      | Some vv \<Rightarrow>
          map_option (\<lambda>v. (k, v))
            (find (\<lambda>v. case cntMap vv v of None \<Rightarrow> False | Some n \<Rightarrow> n \<ge> (threshold bv + 1) sdiv 2) order))"

definition getResultValue :: "int \<Rightarrow> binaryBAVoter \<Rightarrow> ByzAgreementValue option" where
  "getResultValue round bv = (if round \<noteq> resRound bv then None else Some (resultValue bv))"

definition setResultValue :: "int \<Rightarrow> ByzAgreementValue \<Rightarrow> binaryBAVoter \<Rightarrow> binaryBAVoter" where
  "setResultValue round v bv = (if round \<ge> resRound bv then bv\<lparr>resultValue := v, resRound := round\<rparr> else bv)"

fun getAgreementString :: "resultType \<Rightarrow> string" where
  "getAgreementString totalAgreeOnZero = ''totalAgreeOnZero''"
| "getAgreementString partialAgreeOnZero = ''partialAgreeOnZero''"
| "getAgreementString agreeOnOne = ''agreeOnOne''"
| "getAgreementString notAgree = ''notAgree''"

section \<open>Ballot boxes\<close>

text \<open>A ballot is a vote for a value at a key, with the public key of the voter. The box keeps the binary agreement ballots,
  the ballots of the graded consensus of the present round, and those of earlier rounds.\<close>

type_synonym ballot = "voteKey \<times> ByzAgreementValue \<times> bytes"

record box =
  bba :: "ballot list"
  gc :: "ballot list"
  gcOld :: "ballot list"

definition ballots :: "box \<Rightarrow> ballot list" where
  "ballots x = bba x @ gc x @ gcOld x"

definition voters :: "ballot list \<Rightarrow> (voteKey \<times> bytes) set" where
  "voters bs = (\<lambda>(k, v, pk). (k, pk)) ` set bs"

definition votes_at :: "voteKey \<Rightarrow> ballot list \<Rightarrow> nat" where
  "votes_at k bs = length (filter (\<lambda>(k', v, pk). k' = k) bs)"

definition votes_for :: "voteKey \<Rightarrow> ByzAgreementValue \<Rightarrow> ballot list \<Rightarrow> nat" where
  "votes_for k v bs = length (filter (\<lambda>(k', v', pk). k' = k \<and> v' = v) bs)"

text \<open>The final votes that count for a step: those of the steps \<open>- 4\<close> down to \<open>- (step - 1)\<close>.\<close>

definition before :: "int \<Rightarrow> int list" where
  "before step = [4..step - 1]"

definition total_for :: "voteKey \<Rightarrow> ByzAgreementValue \<Rightarrow> ballot list \<Rightarrow> nat" where
  "total_for k v bs = votes_for k v bs + (\<Sum>i\<leftarrow>before (vk_step k). votes_for (k\<lparr>vk_step := - i\<rparr>) v bs)"

definition total_at :: "voteKey \<Rightarrow> ballot list \<Rightarrow> nat" where
  "total_at k bs = votes_at k bs + (\<Sum>i\<leftarrow>before (vk_step k). votes_at (k\<lparr>vk_step := - i\<rparr>) bs)"

definition decide :: "int \<Rightarrow> voteKey \<Rightarrow> ByzAgreementValue \<Rightarrow> ballot list \<Rightarrow> agreement" where
  "decide thr k v bs =
     (if vk_b k = 0 \<and> int (total_for k v bs) \<ge> thr then (Some k, totalAgreeOnZero, int (total_for k v bs) > thr)
      else if int (total_at k bs) \<ge> thr then
        (if vk_b k = 0 then (Some k, partialAgreeOnZero, False) else (Some k, agreeOnOne, int (total_at k bs) > thr))
      else (None, notAgree, False))"

definition cast_bba :: "int \<Rightarrow> ballot \<Rightarrow> box \<Rightarrow> agreement \<times> box" where
  "cast_bba thr = (\<lambda>(k, v, pk) x.
     if (k, pk) \<in> voters (bba x) then ((None, notAgree, False), x)
     else let x = x\<lparr>bba := (k, v, pk) # bba x\<rparr> in (decide thr k v (ballots x), x))"

definition cast_gc :: "int \<Rightarrow> ballot \<Rightarrow> box \<Rightarrow> agreement \<times> box" where
  "cast_gc thr = (\<lambda>(k, v, pk) x.
     if pk \<in> snd ` voters (gc x) then ((None, notAgree, False), x)
     else let x = x\<lparr>gc := (k, v, pk) # gc x\<rparr> in (decide thr k v (ballots x), x))"

definition next_round :: "int \<Rightarrow> box \<Rightarrow> box" where
  "next_round r x =
     (let keep = filter (\<lambda>(k, v, pk). \<not> vk_round k < r - 1)
      in \<lparr>bba = keep (bba x), gc = [], gcOld = keep (gc x @ gcOld x)\<rparr>)"

definition empty_box :: box where
  "empty_box = \<lparr>bba = [], gc = [], gcOld = []\<rparr>"

text \<open>The refinement relation: the counters are the numbers of ballots, and the histories are their voters.\<close>

definition counted :: "(voteKey \<rightharpoonup> voteValue) \<Rightarrow> ballot list \<Rightarrow> bool" where
  "counted res bs \<longleftrightarrow>
     (\<forall>k. (case res k of
             None \<Rightarrow> votes_at k bs = 0
           | Some vv \<Rightarrow> cnt vv = int (votes_at k bs) \<and> (\<forall>v. at0 (cntMap vv) v = int (votes_for k v bs))))"

definition voted :: "binaryBAVoter \<Rightarrow> voteKey \<Rightarrow> bytes \<Rightarrow> bool" where
  "voted bv k pk \<longleftrightarrow> (case bbaHistory bv k of None \<Rightarrow> False | Some hist \<Rightarrow> hist pk \<noteq> None)"

definition box_of :: "binaryBAVoter \<Rightarrow> box \<Rightarrow> bool" where
  "box_of bv x \<longleftrightarrow>
     counted (result bv) (ballots x) \<and>
     (\<forall>k pk. voted bv k pk \<longleftrightarrow> (k, pk) \<in> voters (bba x)) \<and>
     (\<forall>pk. gcHistory bv pk \<noteq> None \<longleftrightarrow> pk \<in> snd ` voters (gc x))"

text \<open>The operations of the interface as a datatype, and their effect on a voter and on a box.\<close>

datatype voter_op =
    AddBBA int int byte ByzAgreementValue MsgBinaryBA
  | AddGC int int byte ByzAgreementValue bytes
  | SetRound int
  | SetThreshold int

fun voter_step :: "voter_op \<Rightarrow> binaryBAVoter \<Rightarrow> (agreement \<times> binaryBAVoter) option" where
  "voter_step (AddBBA round step b v m) bv = addVoteWithBBAMsg round step b v m bv"
| "voter_step (AddGC round step b v pk) bv = addGCVote round step b v pk bv"
| "voter_step (SetRound r) bv = Some ((None, notAgree, False), bba_setCurrentRound r bv)"
| "voter_step (SetThreshold t) bv = Some ((None, notAgree, False), bba_setThreshold t bv)"

definition voter_pk :: "MsgBinaryBA \<Rightarrow> bytes option" where
  "voter_pk m = Option.bind (SignedCredentialWithBA m) (\<lambda>sc. pkToPKKey (Pk sc))"

fun box_step :: "int \<Rightarrow> voter_op \<Rightarrow> box \<Rightarrow> (agreement \<times> box) option" where
  "box_step thr (AddBBA round step b v m) x = map_option (\<lambda>pk. cast_bba thr (key round step b, v, pk) x) (voter_pk m)"
| "box_step thr (AddGC round step b v pk) x = map_option (\<lambda>pk. cast_gc thr (key round step b, v, pk) x) (pkToPKKey pk)"
| "box_step thr (SetRound r) x = Some ((None, notAgree, False), next_round r x)"
| "box_step thr (SetThreshold t) x = Some ((None, notAgree, False), x)"

fun op_threshold :: "int \<Rightarrow> voter_op \<Rightarrow> int" where
  "op_threshold thr (SetThreshold t) = t"
| "op_threshold thr _ = thr"

fun run_voter :: "voter_op list \<Rightarrow> binaryBAVoter \<Rightarrow> (agreement list \<times> binaryBAVoter) option" where
  "run_voter [] bv = Some ([], bv)"
| "run_voter (p # ps) bv =
     (case voter_step p bv of
        None \<Rightarrow> None
      | Some (a, bv) \<Rightarrow> map_option (\<lambda>(as, bv). (a # as, bv)) (run_voter ps bv))"

fun run_box :: "voter_op list \<Rightarrow> int \<Rightarrow> box \<Rightarrow> (agreement list \<times> box) option" where
  "run_box [] thr x = Some ([], x)"
| "run_box (p # ps) thr x =
     (case box_step thr p x of
        None \<Rightarrow> None
      | Some (a, x) \<Rightarrow> map_option (\<lambda>(as, x). (a # as, x)) (run_box ps (op_threshold thr p) x))"

section \<open>The voter implements the ballot box\<close>

lemma votes_at_Cons [simp]: "votes_at k ((k', v, pk) # bs) = (if k' = k then 1 else 0) + votes_at k bs"
  by (simp add: votes_at_def)

lemma votes_for_Cons [simp]: "votes_for k v ((k', v', pk) # bs) = (if k' = k \<and> v' = v then 1 else 0) + votes_for k v bs"
  by (simp add: votes_for_def)

lemma votes_at_append [simp]: "votes_at k (as @ bs) = votes_at k as + votes_at k bs"
  by (simp add: votes_at_def)

lemma votes_for_append [simp]: "votes_for k v (as @ bs) = votes_for k v as + votes_for k v bs"
  by (simp add: votes_for_def)

lemma votes_Nil [simp]: "votes_at k [] = 0" "votes_for k v [] = 0"
  by (simp_all add: votes_at_def votes_for_def)

lemma votes_for_le: "votes_for k v bs \<le> votes_at k bs"
  by (induction bs) auto

lemma votes_keep:
  "votes_at k (filter (\<lambda>(k, v, pk). P k) bs) = (if P k then votes_at k bs else 0)"
  "votes_for k v (filter (\<lambda>(k, v, pk). P k) bs) = (if P k then votes_for k v bs else 0)"
  by (induction bs) auto

lemma at0_update [simp]: "at0 (m(k \<mapsto> n)) k' = (if k' = k then n else at0 m k')"
  by (simp add: at0_def)

lemma at0_empty [simp]: "at0 (\<lambda>_. None) k = 0"
  by (simp add: at0_def)

lemma fin_votes_counted:
  assumes "counted (result bv) bs"
  shows "fin_votes bv k None = int (votes_at k bs)" "fin_votes bv k (Some v) = int (votes_for k v bs)"
proof -
  have c: "case result bv k of None \<Rightarrow> votes_at k bs = 0
           | Some vv \<Rightarrow> cnt vv = int (votes_at k bs) \<and> (\<forall>v. at0 (cntMap vv) v = int (votes_for k v bs))"
    using assms by (simp add: counted_def)
  then show "fin_votes bv k None = int (votes_at k bs)" by (simp add: fin_votes_def split: option.splits)
  from c show "fin_votes bv k (Some v) = int (votes_for k v bs)"
    using votes_for_le [of k v bs] by (simp add: fin_votes_def split: option.splits)
qed

lemma numOfFinNodesFrom_eq:
  "numOfFinNodesFrom i bv r s b vote acc = acc + (\<Sum>j\<leftarrow>[i..s - 1]. fin_votes bv (key r (- j) b) vote)"
proof (induction i bv r s b vote acc rule: numOfFinNodesFrom.induct)
  case (1 i bv r s b vote acc)
  then show ?case by (subst numOfFinNodesFrom.simps) (simp add: upto_rec1)
qed

lemma int_sum_list: "int (\<Sum>x\<leftarrow>xs. f x) = (\<Sum>x\<leftarrow>xs. int (f x))"
  by (induction xs) simp_all

lemma fin_total:
  assumes "counted (result bv) bs"
  shows "int (votes_for (key r s b) v bs) + numOfFinNodesBeforeStep bv r s b (Some v) = int (total_for (key r s b) v bs)"
    "int (votes_at (key r s b) bs) + numOfFinNodesBeforeStep bv r s b None = int (total_at (key r s b) bs)"
  by (simp_all add: numOfFinNodesBeforeStep_def numOfFinNodesFrom_eq total_for_def total_at_def before_def int_sum_list fin_votes_counted [OF assms])

definition bump :: "ByzAgreementValue \<Rightarrow> voteValue option \<Rightarrow> voteValue" where
  "bump v o1 = (case o1 of
       Some vv \<Rightarrow> \<lparr>cnt = cnt vv + 1, cntMap = (cntMap vv)(v \<mapsto> at0 (cntMap vv) v + 1)\<rparr>
     | None \<Rightarrow> \<lparr>cnt = 1, cntMap = [v \<mapsto> 1]\<rparr>)"

lemma bump_counted:
  assumes "counted res bs"
  shows "counted (res(k \<mapsto> bump v (res k))) ((k, v, pk) # bs)"
    "cnt (bump v (res k)) = int (votes_at k ((k, v, pk) # bs))" "at0 (cntMap (bump v (res k))) w = int (votes_for k w ((k, v, pk) # bs))"
proof -
  have c: "case res k of None \<Rightarrow> votes_at k bs = 0
           | Some vv \<Rightarrow> cnt vv = int (votes_at k bs) \<and> (\<forall>v. at0 (cntMap vv) v = int (votes_for k v bs))" for k
    using assms by (simp add: counted_def)
  have z: "votes_for k w bs = 0" if "res k = None" for w using c [of k] votes_for_le [of k w bs] that by simp
  show 2: "cnt (bump v (res k)) = int (votes_at k ((k, v, pk) # bs))"
    using c [of k] by (simp add: bump_def split: option.splits)
  have 3: "at0 (cntMap (bump v (res k))) w = int (votes_for k w ((k, v, pk) # bs))" for w
    using c [of k] z by (auto simp: bump_def split: option.splits)
  then show "at0 (cntMap (bump v (res k))) w = int (votes_for k w ((k, v, pk) # bs))" .
  show "counted (res(k \<mapsto> bump v (res k))) ((k, v, pk) # bs)"
    unfolding counted_def
  proof
    fix k'
    show "case (res(k \<mapsto> bump v (res k))) k' of None \<Rightarrow> votes_at k' ((k, v, pk) # bs) = 0
           | Some vv \<Rightarrow> cnt vv = int (votes_at k' ((k, v, pk) # bs)) \<and> (\<forall>w. at0 (cntMap vv) w = int (votes_for k' w ((k, v, pk) # bs)))"
      using c [of k'] 2 3 by (cases "k' = k") (auto split: option.splits)
  qed
qed

lemma bba_addVote_decide:
  assumes "counted (result bv) bs"
  shows "\<exists>bv'. bba_addVote r s b v bv = (decide (threshold bv) (key r s b) v ((key r s b, v, pk) # bs), bv') \<and>
     counted (result bv') ((key r s b, v, pk) # bs) \<and> bbaHistory bv' = bbaHistory bv \<and> gcHistory bv' = gcHistory bv \<and>
     threshold bv' = threshold bv"
proof -
  let ?k = "key r s b" and ?bs = "(key r s b, v, pk) # bs"
  let ?bv = "bv\<lparr>result := (result bv)(?k \<mapsto> bump v (result bv ?k))\<rparr>"
  note b = bump_counted [OF assms, where k = ?k and v = v and pk = pk]
  have c: "counted (result ?bv) ?bs" using b(1) by simp
  have f: "at0 (cntMap (bump v (result bv ?k))) v + numOfFinNodesBeforeStep ?bv r s b (Some v) = int (total_for ?k v ?bs)"
    using fin_total(1) [OF c, of r s b v] b(3) [where w = v] by simp
  have a: "cnt (bump v (result bv ?k)) + numOfFinNodesBeforeStep ?bv r s b None = int (total_at ?k ?bs)"
    using fin_total(2) [OF c, of r s b] b(2) by simp
  have "bba_addVote r s b v bv = (decide (threshold bv) ?k v ?bs, ?bv)"
    unfolding bba_addVote_def Let_def bump_def [symmetric] f a decide_def by (simp add: Let_def)
  then show ?thesis using c by simp
qed

lemma counted_perm: "counted res as \<Longrightarrow> (\<And>k. votes_at k as = votes_at k bs) \<Longrightarrow> (\<And>k v. votes_for k v as = votes_for k v bs) \<Longrightarrow> counted res bs"
  by (simp add: counted_def cong: option.case_cong)

lemma decide_perm: "(\<And>k. votes_at k as = votes_at k bs) \<Longrightarrow> (\<And>k v. votes_for k v as = votes_for k v bs) \<Longrightarrow> decide t k v as = decide t k v bs"
  by (simp add: decide_def total_for_def total_at_def)

lemma voters_Cons [simp]: "voters ((k, v, pk) # bs) = insert (k, pk) (voters bs)"
  by (simp add: voters_def)

lemma voters_append [simp]: "voters (as @ bs) = voters as \<union> voters bs"
  by (simp add: voters_def image_Un)

lemma voters_Nil [simp]: "voters [] = {}"
  by (simp add: voters_def)

lemma box_ofD:
  assumes "box_of bv x"
  shows "counted (result bv) (ballots x)" "voted bv k pk \<longleftrightarrow> (k, pk) \<in> voters (bba x)" "gcHistory bv pk \<noteq> None \<longleftrightarrow> pk \<in> snd ` voters (gc x)"
  using assms by (auto simp: box_of_def)

lemma box_ofI:
  "counted (result bv) (ballots x) \<Longrightarrow> (\<And>k pk. voted bv k pk \<longleftrightarrow> (k, pk) \<in> voters (bba x)) \<Longrightarrow>
     (\<And>pk. gcHistory bv pk \<noteq> None \<longleftrightarrow> pk \<in> snd ` voters (gc x)) \<Longrightarrow> box_of bv x"
  by (simp add: box_of_def)

definition record_vote :: "voteKey \<Rightarrow> bytes \<Rightarrow> MsgBinaryBA \<Rightarrow> binaryBAVoter \<Rightarrow> binaryBAVoter" where
  "record_vote k pk m bv =
     bv\<lparr>bbaHistory := (bbaHistory bv)(k \<mapsto> (case bbaHistory bv k of None \<Rightarrow> (\<lambda>_. None) | Some h \<Rightarrow> h)(pk \<mapsto> m))\<rparr>"

lemma record_vote_simps [simp]:
  "result (record_vote k pk m bv) = result bv" "gcHistory (record_vote k pk m bv) = gcHistory bv" "threshold (record_vote k pk m bv) = threshold bv"
  by (simp_all add: record_vote_def)

lemma voted_record: "voted (record_vote k pk m bv) k' pk' \<longleftrightarrow> k' = k \<and> pk' = pk \<or> voted bv k' pk'"
  by (auto simp: voted_def record_vote_def split: option.splits)

lemma addVoteWithBBAMsg_eq:
  "addVoteWithBBAMsg r s b v m bv =
     map_option (\<lambda>pk. if voted bv (key r s b) pk then ((None, notAgree, False), bv)
                      else bba_addVote r s b v (record_vote (key r s b) pk m bv)) (voter_pk m)"
  by (auto simp: addVoteWithBBAMsg_def voter_pk_def voted_def record_vote_def Let_def split: option.splits)

lemma AddBBA_refines:
  assumes "box_of bv x" "addVoteWithBBAMsg r s b v m bv = Some (a, bv')"
  shows "\<exists>x'. box_step (threshold bv) (AddBBA r s b v m) x = Some (a, x') \<and> box_of bv' x' \<and> threshold bv' = threshold bv"
proof -
  let ?k = "key r s b"
  obtain pk where pk: "voter_pk m = Some pk" using assms(2) by (auto simp: addVoteWithBBAMsg_eq)
  note inv = box_ofD [OF assms(1)]
  show ?thesis
  proof (cases "voted bv ?k pk")
    case True
    then have "cast_bba (threshold bv) (?k, v, pk) x = (a, x) \<and> bv' = bv" using inv(2) pk assms(2) by (simp add: addVoteWithBBAMsg_eq cast_bba_def)
    then show ?thesis using pk assms(1) by simp
  next
    case False
    let ?x = "x\<lparr>bba := (?k, v, pk) # bba x\<rparr>" and ?bv = "record_vote ?k pk m bv"
    have "bba_addVote r s b v ?bv = (a, bv')" using False pk assms(2) by (simp add: addVoteWithBBAMsg_eq)
    moreover have "counted (result ?bv) (ballots x)" using inv(1) by simp
    ultimately have a: "a = decide (threshold bv) ?k v (ballots ?x)" "counted (result bv') (ballots ?x)" "bbaHistory bv' = bbaHistory ?bv"
        "gcHistory bv' = gcHistory bv" "threshold bv' = threshold bv"
      using bba_addVote_decide [of ?bv "ballots x" r s b v pk] by (auto simp: ballots_def)
    have "cast_bba (threshold bv) (?k, v, pk) x = (a, ?x)" using inv(2) False a(1) by (simp add: cast_bba_def Let_def)
    moreover have "box_of bv' ?x"
    proof (rule box_ofI)
      fix k' pk'
      have "voted bv' k' pk' = voted ?bv k' pk'" using a(3) by (simp add: voted_def)
      then show "voted bv' k' pk' \<longleftrightarrow> (k', pk') \<in> voters (bba ?x)" using inv(2) by (auto simp: voted_record)
    qed (use a(2,4) inv(3) in simp_all)
    ultimately show ?thesis using pk a(5) by simp
  qed
qed

lemma AddGC_refines:
  assumes "box_of bv x" "addGCVote r s b v pk bv = Some (a, bv')"
  shows "\<exists>x'. box_step (threshold bv) (AddGC r s b v pk) x = Some (a, x') \<and> box_of bv' x' \<and> threshold bv' = threshold bv"
proof -
  let ?k = "key r s b"
  obtain q where q: "pkToPKKey pk = Some q" using assms(2) by (auto simp: addGCVote_def split: option.splits)
  note inv = box_ofD [OF assms(1)]
  let ?bv = "bv\<lparr>gcHistory := (gcHistory bv)(q \<mapsto> True)\<rparr>"
  show ?thesis
  proof (cases "gcHistory bv q \<noteq> None")
    case True
    then have "cast_gc (threshold bv) (?k, v, q) x = (a, x) \<and> bv' = bv" using inv(3) q assms(2) by (simp add: cast_gc_def addGCVote_def)
    then show ?thesis using q assms(1) by simp
  next
    case False
    let ?x = "x\<lparr>gc := (?k, v, q) # gc x\<rparr>"
    have "bba_addVote r s b v ?bv = (a, bv')" using False q assms(2) by (simp add: addGCVote_def)
    moreover have "counted (result ?bv) (ballots x)" using inv(1) by simp
    ultimately have a: "a = decide (threshold bv) ?k v ((?k, v, q) # ballots x)" "counted (result bv') ((?k, v, q) # ballots x)"
        "bbaHistory bv' = bbaHistory bv" "gcHistory bv' = (gcHistory bv)(q \<mapsto> True)" "threshold bv' = threshold bv"
      using bba_addVote_decide [of ?bv "ballots x" r s b v q] by auto
    have p: "\<And>k. votes_at k ((?k, v, q) # ballots x) = votes_at k (ballots ?x)" "\<And>k w. votes_for k w ((?k, v, q) # ballots x) = votes_for k w (ballots ?x)"
      by (simp_all add: ballots_def)
    have "q \<notin> snd ` voters (gc x)" using inv(3) False by blast
    then have "cast_gc (threshold bv) (?k, v, q) x = (a, ?x)" using a(1) decide_perm [OF p] by (simp add: cast_gc_def Let_def)
    moreover have "box_of bv' ?x"
      using inv(2,3) a(3,4) counted_perm [OF a(2) p] by (intro box_ofI) (auto simp: voted_def)
    ultimately show ?thesis using q a(5) by simp
  qed
qed

lemma voters_keep: "voters (filter (\<lambda>(k, v, pk). P k) bs) = {(k, pk) \<in> voters bs. P k}"
  by (induction bs) auto

lemma SetRound_refines: "box_of bv x \<Longrightarrow> box_of (bba_setCurrentRound r bv) (next_round r x)"
proof (rule box_ofI)
  assume "box_of bv x"
  note inv = box_ofD [OF this]
  let ?keep = "\<lambda>k. \<not> vk_round k < r - 1"
  have b: "ballots (next_round r x) = filter (\<lambda>(k, v, pk). ?keep k) (ballots x)" by (simp add: ballots_def next_round_def Let_def)
  show "counted (result (bba_setCurrentRound r bv)) (ballots (next_round r x))"
    using inv(1) unfolding b counted_def votes_keep by (simp add: bba_setCurrentRound_def cong: option.case_cong)
  show "voted (bba_setCurrentRound r bv) k pk \<longleftrightarrow> (k, pk) \<in> voters (bba (next_round r x))" for k pk
    using inv(2) [of k pk] by (simp add: voted_def bba_setCurrentRound_def next_round_def Let_def voters_keep)
  show "gcHistory (bba_setCurrentRound r bv) pk \<noteq> None \<longleftrightarrow> pk \<in> snd ` voters (gc (next_round r x))" for pk
    by (simp add: bba_setCurrentRound_def next_round_def Let_def)
qed

lemma SetThreshold_refines: "box_of bv x \<Longrightarrow> box_of (bba_setThreshold t bv) x"
  by (simp add: box_of_def bba_setThreshold_def voted_def)

lemma box_of_new: "box_of (newBinaryBAVoter r t) empty_box"
  by (simp add: box_of_def newBinaryBAVoter_def empty_box_def ballots_def counted_def voted_def)

lemma voter_step_None: "voter_step p bv = None \<longleftrightarrow> box_step t p x = None"
  by (cases p) (auto simp: addVoteWithBBAMsg_eq addGCVote_def simp del: not_None_eq split: option.splits)

lemma voter_step_refines:
  assumes "box_of bv x" "voter_step p bv = Some (a, bv')"
  shows "\<exists>x'. box_step (threshold bv) p x = Some (a, x') \<and> box_of bv' x' \<and> threshold bv' = op_threshold (threshold bv) p"
proof (cases p)
  case (AddBBA r s b v m)
  then show ?thesis using AddBBA_refines assms by simp
next
  case (AddGC r s b v pk)
  then show ?thesis using AddGC_refines assms by simp
next
  case (SetRound r)
  then show ?thesis using SetRound_refines assms by (auto simp: bba_setCurrentRound_def)
next
  case (SetThreshold t)
  then show ?thesis using SetThreshold_refines assms by (auto simp: bba_setThreshold_def)
qed

text \<open>The contract of the voter: it simulates the box with its threshold.\<close>

definition box_op :: "voter_op \<Rightarrow> int \<times> box \<Rightarrow> (agreement \<times> int \<times> box) option" where
  "box_op p = (\<lambda>(t, x). map_option (\<lambda>(a, x). (a, op_threshold t p, x)) (box_step t p x))"

interpretation voter: simulation voter_step box_op "\<lambda>bv (t, x). threshold bv = t \<and> box_of bv x"
proof (unfold_locales, clarify)
  fix bv p and t :: int and x
  assume b: "box_of bv x"
  show "rel_option (rel_prod (=) (\<lambda>bv (t, x). threshold bv = t \<and> box_of bv x)) (voter_step p bv) (box_op p (threshold bv, x))"
  proof (cases "voter_step p bv")
    case None
    then show ?thesis using voter_step_None [of p bv "threshold bv" x] by (simp add: box_op_def)
  next
    case (Some abv)
    then obtain a bv' where s: "voter_step p bv = Some (a, bv')" by (cases abv) auto
    then show ?thesis using voter_step_refines [OF b s] by (auto simp: box_op_def)
  qed
qed

lemma run_voter_ops: "run_voter ps bv = run_ops voter_step ps bv"
  by (induction ps arbitrary: bv) (auto split: option.splits)

lemma run_box_ops: "run_box ps t x = map_option (\<lambda>(as, t, x). (as, x)) (run_ops box_op ps (t, x))"
proof (induction ps arbitrary: t x)
  case (Cons p ps)
  show ?case
  proof (cases "box_step t p x")
    case (Some ax)
    then have "box_op p (t, x) = Some (fst ax, op_threshold t p, snd ax)" by (cases ax) (simp add: box_op_def)
    then show ?thesis using Cons.IH [of "op_threshold t p" "snd ax"] Some
      by (cases ax; cases "run_ops box_op ps (op_threshold t p, snd ax)") auto
  qed (simp add: box_op_def)
qed simp

lemma run_voter_refines:
  assumes "box_of bv x"
  shows "rel_option (\<lambda>(as, bv) (as', x). as = as' \<and> box_of bv x) (run_voter ps bv) (run_box ps (threshold bv) x)"
  unfolding run_voter_ops run_box_ops using voter.run_sim [of bv "(threshold bv, x)" ps] assms
  by (cases "run_ops voter_step ps bv"; cases "run_ops box_op ps (threshold bv, x)") auto

section \<open>Quorums\<close>

text \<open>The votes a node has received for a key, as signed by their voters, and the condition that it received neither final
  votes nor graded consensus votes that count for the key.\<close>

definition signs :: "voteKey \<Rightarrow> voter_op list \<Rightarrow> (ByzAgreementValue \<times> bytes) set" where
  "signs k ps = {(v, pk). \<exists>m. AddBBA (vk_round k) (vk_step k) (vk_b k) v m \<in> set ps \<and> voter_pk m = Some pk}"

fun clean :: "voteKey \<Rightarrow> voter_op \<Rightarrow> bool" where
  "clean k (AddBBA r s b v m) = (\<not> (r = vk_round k \<and> b = vk_b k \<and> s < 0))"
| "clean k (AddGC r s b v pk) = (\<not> (r = vk_round k \<and> b = vk_b k \<and> (s < 0 \<or> s = vk_step k)))"
| "clean k _ = True"

text \<open>What holds of a box for a key while only clean operations are performed: one ballot for each voter, every ballot was
  signed, and no other ballots count.\<close>

definition plain :: "voteKey \<Rightarrow> voteKey \<Rightarrow> bool" where
  "plain k k' \<longleftrightarrow> \<not> (vk_round k' = vk_round k \<and> vk_b k' = vk_b k \<and> vk_step k' < 0)"

fun signed_in :: "voteKey \<Rightarrow> voter_op list \<Rightarrow> ballot \<Rightarrow> bool" where
  "signed_in k ps (k', v, pk) = (plain k k' \<and> (k' = k \<longrightarrow> (v, pk) \<in> signs k ps))"

fun apart :: "voteKey \<Rightarrow> ballot \<Rightarrow> bool" where
  "apart k (k', v, pk) = (plain k k' \<and> k' \<noteq> k)"

definition fair :: "voteKey \<Rightarrow> voter_op list \<Rightarrow> box \<Rightarrow> bool" where
  "fair k ps x \<longleftrightarrow>
     distinct (map (\<lambda>(k, v, pk). (k, pk)) (bba x)) \<and> list_all (signed_in k ps) (bba x) \<and> list_all (apart k) (gc x @ gcOld x)"

lemma signs_snoc: "signs k (ps @ [p]) = signs k ps \<union> signs k [p]"
  by (auto simp: signs_def)

lemma cast_bba_cases:
  "cast_bba t (k, v, pk) x = (a, x') \<Longrightarrow> x' = x \<or> (k, pk) \<notin> voters (bba x) \<and> x' = x\<lparr>bba := (k, v, pk) # bba x\<rparr>"
  by (auto simp: cast_bba_def Let_def split: if_splits)

lemma cast_gc_cases:
  "cast_gc t (k, v, pk) x = (a, x') \<Longrightarrow> x' = x \<or> x' = x\<lparr>gc := (k, v, pk) # gc x\<rparr>"
  by (auto simp: cast_gc_def Let_def split: if_splits)

lemma signed_in_mono: "signed_in k ps z \<Longrightarrow> signed_in k (ps @ [p]) z"
  by (cases z) (simp add: signs_snoc)

lemma fair_mono: "fair k ps x \<Longrightarrow> fair k (ps @ [p]) x"
  unfolding fair_def using signed_in_mono by (auto simp: list_all_iff)

lemma list_all_filter: "list_all P xs \<Longrightarrow> list_all P (filter Q xs)"
  by (simp add: list_all_iff)

lemma fair_next_round: "fair k ps x \<Longrightarrow> fair k ps (next_round r x)"
  by (simp add: fair_def next_round_def Let_def distinct_map_filter list_all_filter)

lemma fair_step:
  assumes "fair k ps x" "clean k p" "box_step t p x = Some (a, x')"
  shows "fair k (ps @ [p]) x'"
proof (cases p)
  case (AddBBA r s b v m)
  then obtain pk where pk: "voter_pk m = Some pk" "cast_bba t (key r s b, v, pk) x = (a, x')" using assms(3) by auto
  consider "x' = x" | "(key r s b, pk) \<notin> voters (bba x)" "x' = x\<lparr>bba := (key r s b, v, pk) # bba x\<rparr>"
    using cast_bba_cases [OF pk(2)] by blast
  then show ?thesis
  proof cases
    case 1
    then show ?thesis using fair_mono assms(1) by blast
  next
    case 2
    have "(v, pk) \<in> signs k [p]" if "key r s b = k" using AddBBA pk(1) that by (auto simp: signs_def)
    then have "signed_in k (ps @ [p]) (key r s b, v, pk)" using assms(2) AddBBA by (auto simp: signs_snoc plain_def)
    then show ?thesis using fair_mono [OF assms(1), of p] 2 by (simp add: fair_def voters_def)
  qed
next
  case (AddGC r s b v pk)
  then obtain q where q: "cast_gc t (key r s b, v, q) x = (a, x')" using assms(3) by auto
  have "apart k (key r s b, v, q)" using assms(2) AddGC by (auto simp: plain_def)
  then show ?thesis using cast_gc_cases [OF q] fair_mono [OF assms(1), of p] by (auto simp: fair_def)
next
  case (SetRound r)
  then show ?thesis using fair_next_round [OF fair_mono [OF assms(1), of p], of r] assms(3) by simp
next
  case (SetThreshold u)
  then show ?thesis using fair_mono [OF assms(1), of p] assms(3) by simp
qed

lemma fair_run:
  "fair k qs x \<Longrightarrow> list_all (clean k) ps \<Longrightarrow> run_box ps t x = Some (as, x') \<Longrightarrow> fair k (qs @ ps) x'"
proof (induction ps arbitrary: qs t x as)
  case Nil
  then show ?case by simp
next
  case (Cons p ps)
  then obtain a y bs where s: "box_step t p x = Some (a, y)" "run_box ps (op_threshold t p) y = Some (bs, x')"
    by (auto split: option.splits)
  then show ?case using Cons.IH [of "qs @ [p]" y "op_threshold t p" bs] fair_step [of k qs x p t a y] Cons.prems by simp
qed

lemma votes_for_apart:
  "list_all (\<lambda>(k', v, pk). k' \<noteq> k) bs \<Longrightarrow> votes_for k v bs = 0"
  by (induction bs) auto

lemma votes_for_card:
  "distinct (map (\<lambda>(k, v, pk). (k, pk)) bs) \<Longrightarrow> votes_for k v bs = card {pk. (k, v, pk) \<in> set bs}"
proof (induction bs)
  case Nil
  then show ?case by simp
next
  case (Cons z bs)
  obtain k' v' pk' where z: "z = (k', v', pk')" by (cases z) auto
  have fin: "finite {pk. (k, v, pk) \<in> set bs}"
    by (rule finite_subset [of _ "(\<lambda>(k, v, pk). pk) ` set bs"]) force+
  show ?case
  proof (cases "k' = k \<and> v' = v")
    case True
    have "(k, v, pk') \<notin> set bs" using Cons.prems z True by (force simp: image_iff)
    moreover have "{pk. (k, v, pk) \<in> set (z # bs)} = insert pk' {pk. (k, v, pk) \<in> set bs}" using z True by auto
    ultimately show ?thesis using Cons z True fin by simp
  next
    case False
    then have "{pk. (k, v, pk) \<in> set (z # bs)} = {pk. (k, v, pk) \<in> set bs}" using z by auto
    then show ?thesis using Cons z False by auto
  qed
qed

lemma fair_total:
  assumes "fair k ps x"
  shows "total_for k v (ballots x) = card {pk. (k, v, pk) \<in> set (bba x)}"
proof -
  have pl: "list_all (\<lambda>(k', v, pk). plain k k') (ballots x)"
    using assms by (force simp: fair_def ballots_def list_all_iff)
  have "votes_for (k\<lparr>vk_step := - i\<rparr>) v (ballots x) = 0" if "i \<ge> 4" for i
    by (rule votes_for_apart, use pl that in \<open>force simp: list_all_iff plain_def\<close>)
  then have "(\<Sum>i\<leftarrow>before (vk_step k). votes_for (k\<lparr>vk_step := - i\<rparr>) v (ballots x)) = 0"
    by (simp add: before_def)
  moreover have "votes_for k v (gc x @ gcOld x) = 0"
    by (rule votes_for_apart, use assms in \<open>force simp: fair_def list_all_iff\<close>)
  ultimately have "total_for k v (ballots x) = votes_for k v (bba x)" by (simp add: total_for_def ballots_def)
  then show ?thesis using votes_for_card assms by (simp add: fair_def)
qed

lemma run_box_snoc:
  "run_box (ps @ [p]) t x = Some (as, x') \<Longrightarrow>
     \<exists>bs y a. as = bs @ [a] \<and> run_box ps t x = Some (bs, y) \<and> box_step (foldl op_threshold t ps) p y = Some (a, x')"
proof (induction ps arbitrary: t x as)
  case Nil
  then show ?case by (auto split: option.splits)
next
  case (Cons q ps)
  then obtain a y bs where s: "box_step t q x = Some (a, y)" "run_box (ps @ [p]) (op_threshold t q) y = Some (bs, x')" "as = a # bs"
    by (auto split: option.splits)
  show ?case using Cons.IH [OF s(2)] s(1,3) by auto
qed

lemma run_voter_threshold:
  "box_of bv x \<Longrightarrow> run_voter ps bv = Some (as, bv') \<Longrightarrow> threshold bv' = foldl op_threshold (threshold bv) ps"
proof (induction ps arbitrary: bv x as)
  case Nil
  then show ?case by simp
next
  case (Cons p ps)
  then obtain a by1 bs where s: "voter_step p bv = Some (a, by1)" "run_voter ps by1 = Some (bs, bv')" by (auto split: option.splits)
  then obtain y where "box_of by1 y" "threshold by1 = op_threshold (threshold bv) p" using voter_step_refines [OF Cons.prems(1) s(1)] by blast
  then show ?case using Cons.IH s(2) by fastforce
qed

lemma agreement_quorum:
  assumes run: "run_voter (ps @ [AddBBA r s 0 v m]) (newBinaryBAVoter r0 t) = Some (as @ [(k', totalAgreeOnZero, h)], bv)"
    and clean: "list_all (clean (key r s 0)) (ps @ [AddBBA r s 0 v m])"
  shows "\<exists>S. finite S \<and> threshold bv \<le> int (card S) \<and> (\<forall>pk \<in> S. (v, pk) \<in> signs (key r s 0) (ps @ [AddBBA r s 0 v m]))"
proof -
  let ?k = "key r s 0" and ?p = "AddBBA r s 0 v m"
  obtain x where x: "run_box (ps @ [?p]) t empty_box = Some (as @ [(k', totalAgreeOnZero, h)], x)"
    using run_voter_refines [OF box_of_new [of r0 t], of "ps @ [?p]"] run
    by (cases "run_box (ps @ [?p]) t empty_box") (auto simp: newBinaryBAVoter_def)
  then obtain y where y: "box_step (foldl op_threshold t ps) ?p y = Some ((k', totalAgreeOnZero, h), x)" using run_box_snoc by blast
  have thr: "threshold bv = foldl op_threshold t ps"
    using run_voter_threshold [OF box_of_new run] by (simp add: newBinaryBAVoter_def)
  obtain pk where pk: "cast_bba (threshold bv) (?k, v, pk) y = ((k', totalAgreeOnZero, h), x)" using y thr by auto
  then have "(k', totalAgreeOnZero, h) = decide (threshold bv) ?k v (ballots x)" by (auto simp: cast_bba_def Let_def split: if_splits)
  then have t: "threshold bv \<le> int (total_for ?k v (ballots x))" by (auto simp: decide_def split: if_splits)
  have f0: "fair ?k [] empty_box" by (simp add: fair_def empty_box_def)
  have f: "fair ?k (ps @ [?p]) x" using fair_run [OF f0 clean x] by simp
  have "finite {pk. (?k, v, pk) \<in> set (bba x)}"
    by (rule finite_subset [of _ "(\<lambda>(k, v, pk). pk) ` set (bba x)"]) force+
  moreover have "\<forall>pk \<in> {pk. (?k, v, pk) \<in> set (bba x)}. (v, pk) \<in> signs ?k (ps @ [?p])"
    using f by (force simp: fair_def list_all_iff)
  ultimately show ?thesis using t fair_total [OF f] by auto
qed

text \<open>Final votes of one voter at several steps.\<close>

lemma run_box_snocI:
  "run_box ps t x = Some (bs, y) \<Longrightarrow> box_step (foldl op_threshold t ps) p y = Some (a, z) \<Longrightarrow>
     run_box (ps @ [p]) t x = Some (bs @ [a], z)"
proof (induction ps arbitrary: t x bs)
  case Nil
  then show ?case by simp
next
  case (Cons q ps)
  then obtain c w cs where "box_step t q x = Some (c, w)" "run_box ps (op_threshold t q) w = Some (cs, y)" "bs = c # cs"
    by (auto split: option.splits)
  then show ?case using Cons.IH [of "op_threshold t q" w cs] Cons.prems(2) by simp
qed

lemma run_box_fins:
  assumes "voter_pk m = Some pk"
  shows "distinct is \<Longrightarrow> (\<forall>i \<in> set is. (key r (- i) 0, pk) \<notin> voters (bba x)) \<Longrightarrow>
     \<exists>as. run_box (map (\<lambda>i. AddBBA r (- i) 0 v m) is) t x = Some (as, x\<lparr>bba := rev (map (\<lambda>i. (key r (- i) 0, v, pk)) is) @ bba x\<rparr>)"
proof (induction "is" arbitrary: x)
  case Nil
  then show ?case by simp
next
  case (Cons i js)
  let ?x = "x\<lparr>bba := (key r (- i) 0, v, pk) # bba x\<rparr>"
  have "cast_bba t (key r (- i) 0, v, pk) x = (decide t (key r (- i) 0) v (ballots ?x), ?x)"
    using Cons.prems by (simp add: cast_bba_def Let_def)
  moreover obtain as where "run_box (map (\<lambda>i. AddBBA r (- i) 0 v m) js) t ?x = Some (as, ?x\<lparr>bba := rev (map (\<lambda>i. (key r (- i) 0, v, pk)) js) @ bba ?x\<rparr>)"
    using Cons.IH [of ?x] Cons.prems by auto
  ultimately show ?case using assms by simp
qed

lemma votes_for_fins: "distinct is \<Longrightarrow> votes_for (key r (- j) 0) v (map (\<lambda>i. (key r (- i) 0, v, pk)) is) = (if j \<in> set is then 1 else 0)"
  by (induction "is") auto

lemma votes_for_rev: "votes_for k v (rev bs) = votes_for k v bs"
  by (induction bs) auto

lemma sum_list_ones: "(\<And>i. i \<in> set xs \<Longrightarrow> f i = (1 :: nat)) \<Longrightarrow> (\<Sum>i\<leftarrow>xs. f i) = length xs"
  by (induction xs) auto

lemma length_upto4: "length [4..t + 2] = nat (t - 1)"
  by simp

lemma foldl_op_threshold_AddBBA: "foldl op_threshold t (map (\<lambda>i. AddBBA r (- i) 0 v m) is) = t"
  by (induction "is") auto

lemma single_box:
  assumes "voter_pk m = Some pk" "1 \<le> t"
  shows "\<exists>as x. run_box (map (\<lambda>i. AddBBA r (- i) 0 v m) [4..t + 2] @ [AddBBA r (t + 3) 0 v m]) t empty_box =
     Some (as @ [(Some (key r (t + 3) 0), totalAgreeOnZero, False)], x)"
proof -
  let ?fins = "map (\<lambda>i. (key r (- i) 0, v, pk)) [4..t + 2]" and ?k = "key r (t + 3) 0"
  obtain as where as: "run_box (map (\<lambda>i. AddBBA r (- i) 0 v m) [4..t + 2]) t empty_box = Some (as, empty_box\<lparr>bba := rev ?fins\<rparr>)"
    using run_box_fins [OF assms(1), of "[4..t + 2]" r empty_box v t] by (auto simp: empty_box_def)
  let ?x = "empty_box\<lparr>bba := (?k, v, pk) # rev ?fins\<rparr>"
  have b: "ballots ?x = (?k, v, pk) # rev ?fins" by (simp add: ballots_def empty_box_def)
  have k0: "votes_for ?k v ?fins = 0"
    using assms(2) votes_for_fins [of "[4..t + 2]" r "- (t + 3)" v pk] by (simp add: add.commute)
  have "votes_for (?k\<lparr>vk_step := - i\<rparr>) v (ballots ?x) = 1" if "i \<in> set [4..t + 2]" for i
    unfolding b using that assms(2) votes_for_fins [of "[4..t + 2]" r i v pk] by (simp add: votes_for_rev)
  then have "(\<Sum>i\<leftarrow>[4..t + 2]. votes_for (?k\<lparr>vk_step := - i\<rparr>) v (ballots ?x)) = length [4..t + 2]"
    by (rule sum_list_ones)
  moreover have "before (vk_step ?k) = [4..t + 2]" by (simp add: before_def add.commute)
  ultimately have "total_for ?k v (ballots ?x) = 1 + nat (t - 1)"
    using k0 unfolding total_for_def b by (simp add: votes_for_rev)
  then have "decide t ?k v (ballots ?x) = (Some ?k, totalAgreeOnZero, False)" using assms(2) by (simp add: decide_def)
  moreover have "(?k, pk) \<notin> voters (rev ?fins)" using assms(2) by (auto simp: voters_def)
  ultimately have "cast_bba t (?k, v, pk) (empty_box\<lparr>bba := rev ?fins\<rparr>) = ((Some ?k, totalAgreeOnZero, False), ?x)"
    by (simp add: cast_bba_def Let_def)
  then have "box_step (foldl op_threshold t (map (\<lambda>i. AddBBA r (- i) 0 v m) [4..t + 2])) (AddBBA r (t + 3) 0 v m) (empty_box\<lparr>bba := rev ?fins\<rparr>)
      = Some ((Some ?k, totalAgreeOnZero, False), ?x)"
    using assms(1) by (simp add: foldl_op_threshold_AddBBA)
  from run_box_snocI [OF as this] show ?thesis by blast
qed

lemma run_voter_of_box:
  assumes "run_box ps t empty_box = Some (as, x)"
  shows "\<exists>bv. run_voter ps (newBinaryBAVoter r t) = Some (as, bv) \<and> threshold bv = foldl op_threshold t ps"
proof -
  obtain bv where "run_voter ps (newBinaryBAVoter r t) = Some (as, bv)"
    using run_voter_refines [OF box_of_new [of r t], of ps] assms
    by (cases "run_voter ps (newBinaryBAVoter r t)") (auto simp: newBinaryBAVoter_def)
  then show ?thesis using run_voter_threshold [OF box_of_new [of r t]] by (simp add: newBinaryBAVoter_def)
qed

lemmas box_simps = cast_bba_def Let_def decide_def total_for_def total_at_def before_def ballots_def empty_box_def

section \<open>Properties\<close>

text \<open>C9. The voter implements the ballot box: for every sequence of operations on a new voter, duplicates, changes of the
  round and of the threshold included, it panics exactly when a public key is missing or shorter than 32 bytes, and
  otherwise each answer is the decision on the ballots cast so far, and its counters and histories are those of the
  ballots.\<close>

theorem voter_implements_box:
  "rel_option (\<lambda>(as, bv) (as', x). as = as' \<and> box_of bv x)
     (run_voter ps (newBinaryBAVoter r t)) (run_box ps t empty_box)"
  using run_voter_refines [OF box_of_new, of ps r t] by (simp add: newBinaryBAVoter_def)


definition vote_msg :: "byte \<Rightarrow> MsgBinaryBA" where
  "vote_msg i = \<lparr>bba_InShardProof = [], SignedCredentialWithBA = Some \<lparr>Pk = replicate 32 i, Signature = [], Message = no_msg\<rparr>\<rparr>"

lemma voter_pk_vote_msg [simp]: "voter_pk (vote_msg i) = Some (replicate 32 i)"
  by (simp add: voter_pk_def vote_msg_def pkToPKKey_def)

definition votes_of :: "ByzAgreementValue \<Rightarrow> byte list \<Rightarrow> voter_op list" where
  "votes_of v is = map (\<lambda>i. AddBBA 7 4 0 v (vote_msg i)) is"

lemma three_votes_run:
  assumes "i \<noteq> j" "i \<noteq> l" "j \<noteq> l"
  shows "\<exists>bv. run_voter (votes_of v [i, j] @ [AddBBA 7 4 0 v (vote_msg l)]) (newBinaryBAVoter 7 3) =
     Some ([(None, notAgree, False), (None, notAgree, False)] @ [(Some (key 7 4 0), totalAgreeOnZero, False)], bv) \<and> threshold bv = 3"
proof -
  have "\<exists>x. run_box (votes_of v [i, j] @ [AddBBA 7 4 0 v (vote_msg l)]) 3 empty_box =
     Some ([(None, notAgree, False), (None, notAgree, False)] @ [(Some (key 7 4 0), totalAgreeOnZero, False)], x)"
    using assms by (simp add: votes_of_def box_simps)
  then show ?thesis using run_voter_of_box by (fastforce simp: votes_of_def)
qed


text \<open>C35. One miner alone can reach any threshold: the votes of final steps are added up over the steps without regard to who
  sent them. With a message for each of the steps \<open>-4\<close> down to \<open>-(t + 2)\<close> and one for the step \<open>t + 3\<close>, all signed with the same
  key, a voter with threshold \<open>t\<close> reports total agreement on zero.\<close>

theorem single_voter_agreement:
  assumes "voter_pk m = Some pk" "1 \<le> t"
  shows "\<exists>as bv. run_voter (map (\<lambda>i. AddBBA r (- i) 0 v m) [4..t + 2] @ [AddBBA r (t + 3) 0 v m]) (newBinaryBAVoter r0 t) =
     Some (as @ [(Some (key r (t + 3) 0), totalAgreeOnZero, False)], bv)"
proof -
  let ?ps = "map (\<lambda>i. AddBBA r (- i) 0 v m) [4..t + 2] @ [AddBBA r (t + 3) 0 v m]"
  obtain as x where "run_box ?ps t empty_box = Some (as @ [(Some (key r (t + 3) 0), totalAgreeOnZero, False)], x)"
    using single_box [OF assms] by blast
  then show ?thesis
    using run_voter_refines [OF box_of_new [of r0 t], of ?ps] by (cases "run_voter ?ps (newBinaryBAVoter r0 t)") (auto simp: newBinaryBAVoter_def)
qed

theorem single_voter_agreement_witness:
  "\<exists>as bv. run_voter (map (\<lambda>i. AddBBA 7 (- i) 0 sample_value (vote_msg 1)) [4..7] @ [AddBBA 7 8 0 sample_value (vote_msg 1)]) (newBinaryBAVoter 7 5) =
     Some (as @ [(Some (key 7 8 0), totalAgreeOnZero, False)], bv)"
  using single_voter_agreement [of "vote_msg 1" "replicate 32 1" 5 7 sample_value 7] by simp

text \<open>C36. An agreement can be reported as already broadcast although it was never reported before. With threshold 2, a first
  vote at step 7, a final vote of another miner, and a second vote at step 7: the count passes from 1 to 3, and the executor,
  which drops such reports, never acts on the agreement.\<close>

theorem agreement_skipped:
  assumes "voter_pk m1 = Some p1" "voter_pk m2 = Some p2" "voter_pk m3 = Some p3" "p1 \<noteq> p3"
  shows "\<exists>bv. run_voter [AddBBA r 7 0 v m1, AddBBA r (- 4) 0 v m2, AddBBA r 7 0 v m3] (newBinaryBAVoter r0 2) =
     Some ([(None, notAgree, False), (None, notAgree, False), (Some (key r 7 0), totalAgreeOnZero, True)], bv)"
proof -
  have "\<exists>x. run_box [AddBBA r 7 0 v m1, AddBBA r (- 4) 0 v m2, AddBBA r 7 0 v m3] 2 empty_box =
     Some ([(None, notAgree, False), (None, notAgree, False), (Some (key r 7 0), totalAgreeOnZero, True)], x)"
    using assms by (simp add: box_simps)
  then show ?thesis using run_voter_of_box by fastforce
qed

theorem agreement_skipped_witness:
  "\<exists>bv. run_voter [AddBBA 3 7 0 sample_value (vote_msg 1), AddBBA 3 (- 4) 0 sample_value (vote_msg 2), AddBBA 3 7 0 sample_value (vote_msg 3)]
       (newBinaryBAVoter 3 2) =
     Some ([(None, notAgree, False), (None, notAgree, False), (Some (key 3 7 0), totalAgreeOnZero, True)], bv)"
  using agreement_skipped [of "vote_msg 1" "replicate 32 1" "vote_msg 2" "replicate 32 2" "vote_msg 3" "replicate 32 3" 3 sample_value 3] by simp

end
