(* ===== verification/PbftVoter.thy ===== *)
theory PbftVoter
  imports Wire "HOL-Library.Multiset"
begin

text \<open>
  The voter of the graded consensus (\<^verbatim>\<open>src/processor/miner/consensus/pbft_voter.go\<close>): proposals are kept by the public
  key of their proposer, with the one of the smallest seed under a key of its own, and commit votes are counted for each
  value. Go visits the entries of a map in an unspecified order, so that the operation that stops at the first value with
  enough votes takes the order as an argument: a list of keys, of which those in the map are visited.
\<close>

section \<open>The voter\<close>

datatype voteType = leaderProposalVoteType | leaderCommitVoteType | otherVoteType byte

text \<open>The string \<^verbatim>\<open>MinSeed\<close>.\<close>

definition minSeedKey :: bytes where
  "minSeedKey = [77, 105, 110, 83, 101, 101, 100]"

record vote =
  vt_round :: int
  voteSignature :: bytes
  votePublicKey :: bytes
  blockHash :: bytes
  vt_seed :: bytes
  leader :: bytes

record pbftVoter =
  pv_round :: int
  voteThreshold :: int
  voteType :: voteType
  preVotes :: "bytes \<rightharpoonup> vote"
  preCommits :: "bytes \<rightharpoonup> vote"

definition newPbftVoter :: "int \<Rightarrow> voteType \<Rightarrow> int \<Rightarrow> pbftVoter" where
  "newPbftVoter round vtype thr =
     \<lparr>pv_round = round, voteThreshold = thr, voteType = vtype, preVotes = (\<lambda>_. None), preCommits = (\<lambda>_. None)\<rparr>"

definition pbft_setThreshold :: "int \<Rightarrow> pbftVoter \<Rightarrow> pbftVoter" where
  "pbft_setThreshold thr voter = voter\<lparr>voteThreshold := thr\<rparr>"

text \<open>\<^verbatim>\<open>bytes.Compare\<close> orders byte strings lexicographically; for two of the same length that is the order of the
  numbers they spell.\<close>

fun bytes_less :: "bytes \<Rightarrow> bytes \<Rightarrow> bool" where
  "bytes_less [] ys = (ys \<noteq> [])"
| "bytes_less (x # xs) [] = False"
| "bytes_less (x # xs) (y # ys) = (if x < y then True else if y < x then False else bytes_less xs ys)"

definition addPreVote :: "vote \<Rightarrow> pbftVoter \<Rightarrow> pbftVoter" where
  "addPreVote v voter =
     (if preVotes voter (votePublicKey v) = None then
        (let pre = (preVotes voter)(votePublicKey v \<mapsto> v) in
         case pre minSeedKey of
           Some minSeed \<Rightarrow>
             if bytes_less (vt_seed v) (vt_seed minSeed) then voter\<lparr>preVotes := pre(minSeedKey \<mapsto> v)\<rparr>
             else voter\<lparr>preVotes := pre\<rparr>
         | None \<Rightarrow> voter\<lparr>preVotes := pre(minSeedKey \<mapsto> v)\<rparr>)
      else voter)"

definition addPreCommit :: "vote \<Rightarrow> pbftVoter \<Rightarrow> pbftVoter" where
  "addPreCommit v voter =
     (if preCommits voter (votePublicKey v) = None
      then voter\<lparr>preCommits := (preCommits voter)(votePublicKey v \<mapsto> v)\<rparr> else voter)"

definition pbft_addVote :: "vote \<Rightarrow> pbftVoter \<Rightarrow> pbftVoter" where
  "pbft_addVote v voter =
     (if voteType voter = leaderProposalVoteType then addPreVote v voter else addPreCommit v voter)"

definition generatePreVoteResult :: "pbftVoter \<Rightarrow> vote option" where
  "generatePreVoteResult voter = preVotes voter minSeedKey"

definition value_key :: "vote \<Rightarrow> ByzAgreementValue" where
  "value_key v = \<lparr>BlockHash = blockHash v, Leader = leader v\<rparr>"

definition selected :: "pbftVoter \<Rightarrow> vote \<Rightarrow> vote" where
  "selected voter v =
     \<lparr>vt_round = pv_round voter, voteSignature = [], votePublicKey = [], blockHash = blockHash v, vt_seed = replicate 32 0,
      leader = leader v\<rparr>"

fun countCommits :: "pbftVoter \<Rightarrow> vote list \<Rightarrow> (ByzAgreementValue \<Rightarrow> int) \<Rightarrow> vote option" where
  "countCommits voter [] counts = None"
| "countCommits voter (v # vs) counts =
     (let k = value_key v; counts = counts(k := counts k + 1)
      in if counts k \<ge> voteThreshold voter then Some (selected voter v) else countCommits voter vs counts)"

definition generatePreCommitResult :: "bytes list \<Rightarrow> pbftVoter \<Rightarrow> vote option" where
  "generatePreCommitResult order voter = countCommits voter (List.map_filter (preCommits voter) order) (\<lambda>_. 0)"

definition generateVoteResult :: "bytes list \<Rightarrow> pbftVoter \<Rightarrow> vote option" where
  "generateVoteResult order voter =
     (case voteType voter of
        leaderProposalVoteType \<Rightarrow> generatePreVoteResult voter
      | leaderCommitVoteType \<Rightarrow> generatePreCommitResult order voter
      | otherVoteType _ \<Rightarrow> None)"

definition pbft_setCurrentRound :: "int \<Rightarrow> pbftVoter \<Rightarrow> pbftVoter" where
  "pbft_setCurrentRound round voter =
     voter\<lparr>pv_round := round, preCommits := (\<lambda>_. None), preVotes := (\<lambda>_. None)\<rparr>"

section \<open>Proposals\<close>

text \<open>The votes a voter counts: the first of each public key, in the order of arrival.\<close>

fun firsts :: "vote list \<Rightarrow> vote list" where
  "firsts [] = []"
| "firsts (v # vs) = v # filter (\<lambda>u. votePublicKey u \<noteq> votePublicKey v) (firsts vs)"

definition run_pbft :: "int \<Rightarrow> voteType \<Rightarrow> int \<Rightarrow> vote list \<Rightarrow> pbftVoter" where
  "run_pbft r vtype t vs = fold pbft_addVote vs (newPbftVoter r vtype t)"

lemma set_firsts: "votePublicKey ` set (firsts vs) = votePublicKey ` set vs" "set (firsts vs) \<subseteq> set vs"
proof (induction vs)
  case (Cons v vs)
  have "votePublicKey ` {u \<in> set (firsts vs). votePublicKey u \<noteq> votePublicKey v} = votePublicKey ` set vs - {votePublicKey v}"
    unfolding Cons.IH(1) [symmetric] by auto
  then show "votePublicKey ` set (firsts (v # vs)) = votePublicKey ` set (v # vs)" by simp
  show "set (firsts (v # vs)) \<subseteq> set (v # vs)" using Cons.IH(2) by auto
qed simp_all

lemma firsts_snoc: "firsts (vs @ [v]) = firsts vs @ (if votePublicKey v \<in> votePublicKey ` set vs then [] else [v])"
  by (induction vs) auto

lemma firsts_nonempty: "vs \<noteq> [] \<Longrightarrow> firsts vs \<noteq> []"
  by (cases vs) auto

lemma distinct_firsts: "distinct (map votePublicKey (firsts vs))"
proof (induction vs)
  case (Cons v vs)
  then show ?case by (auto simp: distinct_map intro: inj_on_subset)
qed simp

lemma bytes_less_irrefl [simp]: "\<not> bytes_less xs xs"
  by (induction xs) auto

lemma bytes_less_trans: "bytes_less xs ys \<Longrightarrow> bytes_less ys zs \<Longrightarrow> bytes_less xs zs"
proof (induction xs ys arbitrary: zs rule: bytes_less.induct)
  case (1 ys)
  then show ?case by (cases ys; cases zs) auto
next
  case (3 x xs y ys)
  then show ?case by (cases zs) (auto split: if_splits)
qed auto

lemma run_pbft_snoc: "run_pbft r vtype t (vs @ [v]) = pbft_addVote v (run_pbft r vtype t vs)"
  by (simp add: run_pbft_def)

lemma addVote_frame [simp]:
  "voteType (pbft_addVote v p) = voteType p" "pv_round (pbft_addVote v p) = pv_round p" "voteThreshold (pbft_addVote v p) = voteThreshold p"
  by (simp_all add: pbft_addVote_def addPreVote_def addPreCommit_def Let_def split: option.splits)

lemma run_pbft_frame [simp]:
  "voteType (run_pbft r vtype t vs) = vtype \<and> pv_round (run_pbft r vtype t vs) = r \<and> voteThreshold (run_pbft r vtype t vs) = t"
proof (induction vs rule: rev_induct)
  case Nil
  then show ?case by (simp add: run_pbft_def newPbftVoter_def)
next
  case (snoc v vs)
  then show ?case by (simp add: run_pbft_snoc)
qed

definition smallest :: "vote list \<Rightarrow> vote option \<Rightarrow> bool" where
  "smallest vs w \<longleftrightarrow>
     (case w of None \<Rightarrow> vs = [] | Some w \<Rightarrow> w \<in> set vs \<and> list_all (\<lambda>u. \<not> bytes_less (vt_seed u) (vt_seed w)) vs)"

lemma smallest_snoc:
  "smallest vs (Some w) \<Longrightarrow> smallest (vs @ [v]) (Some (if bytes_less (vt_seed v) (vt_seed w) then v else w))"
  by (auto simp: smallest_def list_all_iff dest: bytes_less_trans)

lemma preVotes_run:
  assumes "\<forall>v \<in> set vs. votePublicKey v \<noteq> minSeedKey"
  shows "smallest (firsts vs) (preVotes (run_pbft r leaderProposalVoteType t vs) minSeedKey) \<and>
    (\<forall>p. p \<noteq> minSeedKey \<longrightarrow> (preVotes (run_pbft r leaderProposalVoteType t vs) p \<noteq> None \<longleftrightarrow> p \<in> votePublicKey ` set vs))"
  using assms
proof (induction vs rule: rev_induct)
  case Nil
  then show ?case by (simp add: run_pbft_def newPbftVoter_def smallest_def)
next
  case (snoc v vs)
  let ?p = "run_pbft r leaderProposalVoteType t vs"
  have ih: "smallest (firsts vs) (preVotes ?p minSeedKey)" "\<And>p. p \<noteq> minSeedKey \<Longrightarrow> preVotes ?p p \<noteq> None \<longleftrightarrow> p \<in> votePublicKey ` set vs"
    using snoc by auto
  have v: "votePublicKey v \<noteq> minSeedKey" using snoc.prems by simp
  show ?case
  proof (cases "votePublicKey v \<in> votePublicKey ` set vs")
    case True
    then have "preVotes ?p (votePublicKey v) \<noteq> None" using ih(2) v by blast
    then have "pbft_addVote v ?p = ?p" by (auto simp: pbft_addVote_def addPreVote_def)
    then show ?thesis using ih True by (simp add: run_pbft_snoc firsts_snoc insert_absorb)
  next
    case False
    then have n: "preVotes ?p (votePublicKey v) = None" using ih(2) v by blast
    show ?thesis
    proof (cases "preVotes ?p minSeedKey")
      case None
      then have "firsts vs = []" using ih(1) by (simp add: smallest_def)
      then show ?thesis using None n False v ih(2)
        by (auto simp: run_pbft_snoc firsts_snoc pbft_addVote_def addPreVote_def Let_def smallest_def)
    next
      case (Some w)
      then show ?thesis using smallest_snoc [of "firsts vs" w v] n False v ih
        by (auto simp: run_pbft_snoc firsts_snoc pbft_addVote_def addPreVote_def Let_def)
    qed
  qed
qed

section \<open>Commits\<close>

definition tally :: "ByzAgreementValue \<Rightarrow> vote list \<Rightarrow> nat" where
  "tally k vs = length (filter (\<lambda>v. value_key v = k) vs)"

lemma countCommits_None:
  "\<forall>k. c k < voteThreshold voter \<Longrightarrow> countCommits voter vs c = None \<longleftrightarrow> (\<forall>k. c k + int (tally k vs) < voteThreshold voter)"
proof (induction vs arbitrary: c)
  case (Cons v vs)
  let ?c = "c(value_key v := c (value_key v) + 1)"
  have s: "?c k + int (tally k vs) = c k + int (tally k (v # vs))" for k by (simp add: tally_def)
  show ?case
  proof (cases "c (value_key v) + 1 < voteThreshold voter")
    case True
    then have "\<forall>k. ?c k < voteThreshold voter" using Cons.prems by simp
    then have "countCommits voter vs ?c = None \<longleftrightarrow> (\<forall>k. ?c k + int (tally k vs) < voteThreshold voter)" by (rule Cons.IH)
    moreover have "countCommits voter (v # vs) c = countCommits voter vs ?c" using True by (simp add: Let_def)
    ultimately show ?thesis by (simp only: s)
  next
    case False
    then have "\<not> c (value_key v) + int (tally (value_key v) (v # vs)) < voteThreshold voter" by (simp add: tally_def)
    then show ?thesis using False by (auto simp: Let_def)
  qed
qed (simp add: tally_def)

lemma countCommits_Some:
  "countCommits voter vs c = Some w \<Longrightarrow>
     (\<exists>v \<in> set vs. w = selected voter v) \<and> voteThreshold voter \<le> c (value_key w) + int (tally (value_key w) vs)"
proof (induction vs arbitrary: c)
  case (Cons v vs)
  let ?c = "c(value_key v := c (value_key v) + 1)"
  have s: "?c k + int (tally k vs) = c k + int (tally k (v # vs))" for k by (simp add: tally_def)
  show ?case
  proof (cases "c (value_key v) + 1 < voteThreshold voter")
    case True
    then have "countCommits voter vs ?c = Some w" using Cons.prems by (simp add: Let_def)
    from Cons.IH [OF this] show ?thesis by (simp only: s) auto
  next
    case False
    then show ?thesis using Cons.prems by (auto simp: Let_def tally_def selected_def value_key_def)
  qed
qed simp

lemma find_snoc: "find P (xs @ [y]) = (case find P xs of None \<Rightarrow> if P y then Some y else None | Some z \<Rightarrow> Some z)"
  by (induction xs) auto

lemma preCommits_run:
  "preCommits (run_pbft r leaderCommitVoteType t vs) p = find (\<lambda>v. votePublicKey v = p) (firsts vs)"
proof (induction vs arbitrary: p rule: rev_induct)
  case Nil
  then show ?case by (simp add: run_pbft_def newPbftVoter_def)
next
  case (snoc v vs)
  let ?p = "run_pbft r leaderCommitVoteType t vs"
  have n: "preCommits ?p (votePublicKey v) = None \<longleftrightarrow> votePublicKey v \<notin> votePublicKey ` set vs"
    unfolding snoc find_None_iff set_firsts(1) [of vs, symmetric] by (auto simp: image_iff)
  show ?case
  proof (cases "votePublicKey v \<in> votePublicKey ` set vs")
    case True
    then show ?thesis using n snoc by (simp add: run_pbft_snoc pbft_addVote_def addPreCommit_def firsts_snoc)
  next
    case False
    then show ?thesis using n snoc [of p] snoc [of "votePublicKey v"]
      by (cases "p = votePublicKey v") (auto simp: run_pbft_snoc pbft_addVote_def addPreCommit_def firsts_snoc find_snoc split: option.splits)
  qed
qed

lemma find_key:
  "distinct (map votePublicKey us) \<Longrightarrow> find (\<lambda>v. votePublicKey v = p) us = Some u \<longleftrightarrow> u \<in> set us \<and> votePublicKey u = p"
  by (induction us) (auto simp: image_iff)

text \<open>In whatever order the map is visited, the votes counted are the first votes of the keys.\<close>

lemma commits_visited:
  assumes "distinct order" "set order = votePublicKey ` set vs"
  shows "mset (List.map_filter (preCommits (run_pbft r leaderCommitVoteType t vs)) order) = mset (firsts vs)"
proof -
  let ?f = "preCommits (run_pbft r leaderCommitVoteType t vs)"
  note f = find_key [OF distinct_firsts [of vs], folded preCommits_run [of r t vs]]
  have mem: "u \<in> set (List.map_filter ?f xs) \<longleftrightarrow> (\<exists>p \<in> set xs. ?f p = Some u)" for u xs
    by (induction xs) (auto simp: List.map_filter_simps split: option.splits)
  have "distinct (List.map_filter ?f xs)" if "distinct xs" for xs
    using that by (induction xs) (auto simp: List.map_filter_simps mem f split: option.splits)
  then have "distinct (List.map_filter ?f order)" using assms(1) .
  moreover have "distinct (firsts vs)" using distinct_firsts [of vs] by (simp add: distinct_map)
  moreover have "u \<in> set (List.map_filter ?f order) \<longleftrightarrow> u \<in> set (firsts vs)" for u
    unfolding mem f assms(2) set_firsts(1) [of vs, symmetric] by auto
  ultimately show ?thesis by (simp add: set_eq_iff_mset_eq_distinct [symmetric] set_eq_iff)
qed

lemma tally_mset: "mset xs = mset ys \<Longrightarrow> tally k xs = tally k ys"
  unfolding tally_def by (metis mset_filter size_mset)

lemma commit_result:
  assumes "distinct order" "set order = votePublicKey ` set vs" "0 < t"
  shows "generateVoteResult order (run_pbft r leaderCommitVoteType t vs) = None \<longleftrightarrow> (\<forall>k. int (tally k (firsts vs)) < t)"
    "generateVoteResult order (run_pbft r leaderCommitVoteType t vs) = Some w \<Longrightarrow>
       t \<le> int (tally (value_key w) (firsts vs)) \<and> (\<exists>v \<in> set (firsts vs). w = selected (run_pbft r leaderCommitVoteType t vs) v)"
proof -
  note m = commits_visited [OF assms(1,2), of r t]
  let ?p = "run_pbft r leaderCommitVoteType t vs"
  show "generateVoteResult order ?p = None \<longleftrightarrow> (\<forall>k. int (tally k (firsts vs)) < t)"
    using countCommits_None [of "\<lambda>_. 0" ?p] assms(3) by (simp add: generateVoteResult_def generatePreCommitResult_def tally_mset [OF m])
  show "t \<le> int (tally (value_key w) (firsts vs)) \<and> (\<exists>v \<in> set (firsts vs). w = selected ?p v)" if "generateVoteResult order ?p = Some w"
    using countCommits_Some [of ?p "List.map_filter (preCommits ?p) order" "\<lambda>_. 0" w] that mset_eq_setD [OF m]
    by (simp add: generateVoteResult_def generatePreCommitResult_def tally_mset [OF m])
qed

lemma tally_two: "k \<noteq> k' \<Longrightarrow> tally k vs + tally k' vs \<le> length vs"
  by (induction vs) (auto simp: tally_def)

section \<open>Properties\<close>

text \<open>C13. The leader a node votes for: of the first proposals of all proposers it has received in the round, the voter selects
  one whose seed no other undercuts, in whatever order they arrived; with none it reports no leader. No proposer may have the
  key under which the smallest seed is kept.\<close>

theorem prevote_smallest_seed:
  assumes "\<forall>v \<in> set vs. votePublicKey v \<noteq> minSeedKey"
  shows "case generateVoteResult order (run_pbft r leaderProposalVoteType t vs) of
      None \<Rightarrow> vs = []
    | Some w \<Rightarrow> w \<in> set (firsts vs) \<and> list_all (\<lambda>u. \<not> bytes_less (vt_seed u) (vt_seed w)) (firsts vs)"
  using preVotes_run [OF assms, of r t] firsts_nonempty [of vs]
  by (auto simp: generateVoteResult_def generatePreVoteResult_def smallest_def split: option.splits)

definition sample_vote :: "byte \<Rightarrow> byte \<Rightarrow> vote" where
  "sample_vote p s = \<lparr>vt_round = 7, voteSignature = [], votePublicKey = [p], blockHash = [s], vt_seed = [s], leader = []\<rparr>"

theorem prevote_smallest_seed_witness:
  "\<exists>w. generateVoteResult [] (run_pbft 7 leaderProposalVoteType 2 [sample_vote 1 5, sample_vote 2 3, sample_vote 2 1]) = Some w \<and>
     list_all (\<lambda>u. \<not> bytes_less (vt_seed u) (vt_seed w)) [sample_vote 1 5, sample_vote 2 3]"
proof -
  let ?vs = "[sample_vote 1 5, sample_vote 2 3, sample_vote 2 1]"
  have "\<forall>v \<in> set ?vs. votePublicKey v \<noteq> minSeedKey" by (simp add: sample_vote_def minSeedKey_def)
  from prevote_smallest_seed [OF this, of "[]" 7 2] show ?thesis by (auto simp: sample_vote_def split: option.splits)
qed

text \<open>C12. The graded consensus commits to a value exactly when some value has as many commit votes as the threshold, each
  miner counted once with its first vote, and then to a value that has; and if the threshold is more than half of
  the votes, the value does not depend on the order in which Go visits the map of votes.\<close>

theorem commit_by_threshold:
  assumes "distinct order" "set order = votePublicKey ` set vs" "distinct order'" "set order' = votePublicKey ` set vs" "0 < t"
  shows "(case generateVoteResult order (run_pbft r leaderCommitVoteType t vs) of
            None \<Rightarrow> \<forall>k. int (tally k (firsts vs)) < t
          | Some w \<Rightarrow> t \<le> int (tally (value_key w) (firsts vs)) \<and> vt_round w = r) \<and>
    (int (length (firsts vs)) < 2 * t \<longrightarrow>
       generateVoteResult order (run_pbft r leaderCommitVoteType t vs) = generateVoteResult order' (run_pbft r leaderCommitVoteType t vs))"
proof -
  let ?p = "run_pbft r leaderCommitVoteType t vs"
  note a = commit_result [OF assms(1,2,5), of r] and b = commit_result [OF assms(3,4,5), of r]
  have same: "w = w'" if eq: "generateVoteResult order ?p = Some w" "generateVoteResult order' ?p = Some w'" "int (length (firsts vs)) < 2 * t" for w w'
  proof -
    have "value_key w = value_key w'"
      using a(2) [OF eq(1)] b(2) [OF eq(2)] tally_two [of "value_key w" "value_key w'" "firsts vs"] eq(3) by (cases "value_key w = value_key w'") auto
    moreover obtain v v' where "w = selected ?p v" "w' = selected ?p v'" using a(2) [OF eq(1)] b(2) [OF eq(2)] by blast
    ultimately show ?thesis by (simp add: selected_def value_key_def)
  qed
  have "generateVoteResult order ?p = generateVoteResult order' ?p" if "int (length (firsts vs)) < 2 * t"
  proof (cases "generateVoteResult order ?p")
    case None
    then show ?thesis using a(1) b(1) by simp
  next
    case (Some w)
    moreover obtain w' where "generateVoteResult order' ?p = Some w'" using a(1) b(1) Some by (cases "generateVoteResult order' ?p") auto
    ultimately show ?thesis using same that by simp
  qed
  moreover have "case generateVoteResult order ?p of None \<Rightarrow> \<forall>k. int (tally k (firsts vs)) < t
          | Some w \<Rightarrow> t \<le> int (tally (value_key w) (firsts vs)) \<and> vt_round w = r"
  proof (cases "generateVoteResult order ?p")
    case None
    then show ?thesis using a(1) by simp
  next
    case (Some w)
    then show ?thesis using a(2) [OF Some] by (auto simp: selected_def)
  qed
  ultimately show ?thesis by blast
qed

theorem commit_by_threshold_witness:
  "generateVoteResult [[1], [2], [3]] (run_pbft 7 leaderCommitVoteType 2 [sample_vote 1 5, sample_vote 2 3, sample_vote 3 5]) =
   generateVoteResult [[3], [2], [1]] (run_pbft 7 leaderCommitVoteType 2 [sample_vote 1 5, sample_vote 2 3, sample_vote 3 5])"
  by (rule mp [OF conjunct2 [OF commit_by_threshold]]) (auto simp: sample_vote_def)

end
