(* ===== verification/ConsensusState.thy ===== *)
theory ConsensusState
  imports Prelude
begin

text \<open>
  The state of the consensus of a shard (\<^verbatim>\<open>src/processor/miner/consensus/consensus_state.go\<close>): the round and step it is
  in, the smallest credential seen in the round, the seeds of the last ten rounds in a ring buffer, and the status of the
  shard while the network is re-sharded. Every method takes the lock and is one function. The ring buffer is indexed with
  Go's remainder, which is negative for a negative round: the index is then out of range, and \<^verbatim>\<open>setRoundSeed\<close> panics.
\<close>

definition initialRound :: int where "initialRound = -1"

definition startRound :: int where "startRound = 0"

definition emptySeed :: bytes where
  "emptySeed = replicate 32 0"

definition maxCred :: bytes where
  "maxCred = replicate 32 0xFF"

datatype syncStatus = unSynced | upToDate | waitForBlockConfirm

datatype shardStatus = shardDisabled | shardPreparation | shardEnabled

record pre =
  pre_round :: int
  pre_seed :: bytes

record consensusState =
  cs_round :: int
  cs_step :: int
  running :: bool
  smallestCred :: bytes
  prevRoundSeed :: bytes
  preRoundS :: "pre option list"
  inShardProof :: bytes
  myDepositCache :: "32 word"
  isStartNewRound :: bool
  shardStartRound :: int
  shardStopRound :: int
  syncStatus :: syncStatus
  shardStatus :: shardStatus
  listeners :: nat

definition newConsensusState :: consensusState where
  "newConsensusState =
     \<lparr>cs_round = initialRound, cs_step = 0, running = True, smallestCred = maxCred, prevRoundSeed = emptySeed,
      preRoundS = replicate 10 None, inShardProof = replicate 32 0, myDepositCache = 0, isStartNewRound = False,
      shardStartRound = 0, shardStopRound = -2, syncStatus = unSynced, shardStatus = shardDisabled, listeners = 0\<rparr>"

definition setStepInRound :: "int \<Rightarrow> int \<Rightarrow> consensusState \<Rightarrow> consensusState" where
  "setStepInRound round newStep cs =
     (if newStep > cs_step cs \<and> cs_round cs = round then cs\<lparr>cs_step := newStep\<rparr> else cs)"

definition setRound :: "int \<Rightarrow> consensusState \<Rightarrow> consensusState" where
  "setRound round cs = cs\<lparr>cs_round := round, cs_step := 1, smallestCred := maxCred\<rparr>"

definition setNextStepInRound :: "int \<Rightarrow> int \<Rightarrow> consensusState \<Rightarrow> bool \<times> consensusState" where
  "setNextStepInRound round step cs =
     (if cs_step cs = step - 1 \<and> cs_round cs = round then (True, cs\<lparr>cs_step := cs_step cs + 1\<rparr>) else (False, cs))"

text \<open>The error of \<^verbatim>\<open>updateShardStatus\<close> names the status it was refused from and the round.\<close>

definition updateShardStatus :: "shardStatus \<Rightarrow> consensusState \<Rightarrow> (shardStatus \<times> int) option \<times> consensusState" where
  "updateShardStatus status cs =
     (case status of
        shardEnabled \<Rightarrow> (None, cs\<lparr>shardStatus := status\<rparr>)
      | shardDisabled \<Rightarrow>
          if shardStatus cs = shardEnabled then (None, cs\<lparr>shardStatus := status\<rparr>)
          else (Some (shardStatus cs, cs_round cs), cs)
      | shardPreparation \<Rightarrow>
          if shardStatus cs = shardDisabled then (None, cs\<lparr>shardStatus := status\<rparr>)
          else (Some (shardStatus cs, cs_round cs), cs))"

fun getSyncStatusString :: "syncStatus \<Rightarrow> string" where
  "getSyncStatusString unSynced = ''unSynced''"
| "getSyncStatusString upToDate = ''upToDate''"
| "getSyncStatusString waitForBlockConfirm = ''WaitForBlockConfirm''"

fun getShardStatusString :: "shardStatus \<Rightarrow> string" where
  "getShardStatusString shardEnabled = ''ShardEnabled''"
| "getShardStatusString shardDisabled = ''ShardDisabled''"
| "getShardStatusString shardPreparation = ''ShardPreparation''"

definition updateShardStartRound :: "int \<Rightarrow> consensusState \<Rightarrow> consensusState" where
  "updateShardStartRound round cs = cs\<lparr>shardStartRound := round\<rparr>"

definition updateShardStopRound :: "int \<Rightarrow> consensusState \<Rightarrow> consensusState" where
  "updateShardStopRound round cs = cs\<lparr>shardStopRound := round\<rparr>"

definition isShardEnable :: "consensusState \<Rightarrow> bool" where
  "isShardEnable cs = running cs"

definition registerCEShardStateListener :: "consensusState \<Rightarrow> consensusState" where
  "registerCEShardStateListener cs = cs\<lparr>listeners := listeners cs + 1\<rparr>"

text \<open>The number returned is that of the listeners that are notified.\<close>

definition setShardAndListenerDisabled :: "consensusState \<Rightarrow> nat \<times> consensusState" where
  "setShardAndListenerDisabled cs = (listeners cs, cs\<lparr>shardStatus := shardDisabled\<rparr>)"

definition setSmallestCredInRound :: "int \<Rightarrow> bytes \<Rightarrow> consensusState \<Rightarrow> consensusState" where
  "setSmallestCredInRound round cred cs = (if round = cs_round cs then cs\<lparr>smallestCred := cred\<rparr> else cs)"

definition setRoundSeed :: "int \<Rightarrow> bytes \<Rightarrow> consensusState \<Rightarrow> consensusState option" where
  "setRoundSeed round seed cs =
     (if round < 0 \<and> round mod 10 \<noteq> 0 then None
      else
        let i = nat (round mod 10) in
        Some (case preRoundS cs ! i of
                None \<Rightarrow> cs\<lparr>preRoundS := (preRoundS cs)[i := Some \<lparr>pre_round = round, pre_seed = seed\<rparr>]\<rparr>
              | Some p \<Rightarrow>
                  if pre_round p < round
                  then cs\<lparr>preRoundS := (preRoundS cs)[i := Some \<lparr>pre_round = round, pre_seed = seed\<rparr>]\<rparr> else cs))"

definition getRoundSeed :: "int \<Rightarrow> consensusState \<Rightarrow> bytes" where
  "getRoundSeed round cs =
     (if round \<le> 0 then emptySeed
      else
        case preRoundS cs ! nat (round mod 10) of
          None \<Rightarrow> emptySeed
        | Some cd \<Rightarrow> if pre_round cd = round then pre_seed cd else emptySeed)"

definition setInShardProof :: "bytes \<Rightarrow> consensusState \<Rightarrow> consensusState" where
  "setInShardProof proof cs = cs\<lparr>inShardProof := proof\<rparr>"

definition setDepositCache :: "32 word \<Rightarrow> consensusState \<Rightarrow> consensusState" where
  "setDepositCache cache cs = cs\<lparr>myDepositCache := cache\<rparr>"

section \<open>The ring buffer of seeds\<close>

fun setRoundSeeds :: "(int \<times> bytes) list \<Rightarrow> consensusState \<Rightarrow> consensusState option" where
  "setRoundSeeds [] cs = Some cs"
| "setRoundSeeds ((r, s) # ss) cs = Option.bind (setRoundSeed r s cs) (setRoundSeeds ss)"

text \<open>The slot of a residue holds the latest round with that residue, with the first seed given for it.\<close>

definition slot_ok :: "(int \<times> bytes) list \<Rightarrow> int \<Rightarrow> pre option \<Rightarrow> bool" where
  "slot_ok ss i p \<longleftrightarrow>
     (case p of
        None \<Rightarrow> \<forall>q \<in> fst ` set ss. q mod 10 \<noteq> i
      | Some p \<Rightarrow> pre_round p mod 10 = i \<and> map_of ss (pre_round p) = Some (pre_seed p) \<and>
                  (\<forall>q \<in> fst ` set ss. q mod 10 = i \<longrightarrow> q \<le> pre_round p))"

definition seeds_ok :: "(int \<times> bytes) list \<Rightarrow> consensusState \<Rightarrow> bool" where
  "seeds_ok ss cs \<longleftrightarrow> length (preRoundS cs) = 10 \<and> (\<forall>i. 0 \<le> i \<and> i < 10 \<longrightarrow> slot_ok ss i (preRoundS cs ! nat i))"

lemma slot_ok_snoc_other: "r mod 10 \<noteq> i \<Longrightarrow> slot_ok ss i p \<Longrightarrow> slot_ok (ss @ [(r, s)]) i p"
  by (auto simp: slot_ok_def map_add_Some_iff split: option.splits)

lemma slot_ok_snoc_new:
  "slot_ok ss (r mod 10) p \<Longrightarrow> (\<And>p'. p = Some p' \<Longrightarrow> pre_round p' < r) \<Longrightarrow>
     slot_ok (ss @ [(r, s)]) (r mod 10) (Some \<lparr>pre_round = r, pre_seed = s\<rparr>)"
proof -
  assume a: "slot_ok ss (r mod 10) p" "\<And>p'. p = Some p' \<Longrightarrow> pre_round p' < r"
  have lt: "q < r" if "q \<in> fst ` set ss" "q mod 10 = r mod 10" for q
    using a that by (cases p) (fastforce simp: slot_ok_def)+
  then have "map_of ss r = None" by (auto simp: map_of_eq_None_iff)
  then show ?thesis using lt by (force simp: slot_ok_def map_add_def)
qed

lemma slot_ok_snoc_old:
  "slot_ok ss (r mod 10) (Some p) \<Longrightarrow> \<not> pre_round p < r \<Longrightarrow> slot_ok (ss @ [(r, s)]) (r mod 10) (Some p)"
  by (auto simp: slot_ok_def map_add_Some_iff)

lemma setRoundSeed_ok:
  assumes "seeds_ok ss cs" "0 \<le> r"
  shows "\<exists>cs'. setRoundSeed r s cs = Some cs' \<and> seeds_ok (ss @ [(r, s)]) cs'"
proof -
  let ?i = "nat (r mod 10)"
  have l: "length (preRoundS cs) = 10" and ok: "\<And>i. 0 \<le> i \<Longrightarrow> i < 10 \<Longrightarrow> slot_ok ss i (preRoundS cs ! nat i)"
    using assms(1) by (auto simp: seeds_ok_def)
  have i: "?i < 10" "int ?i = r mod 10" by simp_all
  have upd: "seeds_ok (ss @ [(r, s)]) (cs\<lparr>preRoundS := (preRoundS cs)[?i := x]\<rparr>)" if "slot_ok (ss @ [(r, s)]) (r mod 10) x" for x
    unfolding seeds_ok_def
  proof (intro conjI allI impI)
    fix j :: int
    assume j: "0 \<le> j \<and> j < 10"
    show "slot_ok (ss @ [(r, s)]) j (preRoundS (cs\<lparr>preRoundS := (preRoundS cs)[?i := x]\<rparr>) ! nat j)"
    proof (cases "j = r mod 10")
      case True
      then show ?thesis using that i(1) l by simp
    next
      case False
      then have "nat j \<noteq> ?i" using j i(2) by linarith
      then show ?thesis using slot_ok_snoc_other [of r j] ok [of j] j False by simp
    qed
  qed (simp add: l)
  have c: "slot_ok ss (r mod 10) (preRoundS cs ! ?i)" using ok [of "r mod 10"] by simp
  show ?thesis
  proof (cases "preRoundS cs ! ?i")
    case None
    then show ?thesis using upd slot_ok_snoc_new [OF c] assms(2) by (simp add: setRoundSeed_def Let_def)
  next
    case (Some p)
    show ?thesis
    proof (cases "pre_round p < r")
      case True
      then show ?thesis using upd slot_ok_snoc_new [OF c] Some assms(2) by (simp add: setRoundSeed_def Let_def)
    next
      case False
      then have "seeds_ok (ss @ [(r, s)]) (cs\<lparr>preRoundS := (preRoundS cs)[?i := preRoundS cs ! ?i]\<rparr>)"
        using upd [of "preRoundS cs ! ?i"] slot_ok_snoc_old [of ss r p s] c False unfolding Some by simp
      moreover have "cs\<lparr>preRoundS := (preRoundS cs)[?i := preRoundS cs ! ?i]\<rparr> = cs" by simp
      ultimately have "seeds_ok (ss @ [(r, s)]) cs" by simp
      then show ?thesis using False Some assms(2) by (simp add: setRoundSeed_def Let_def)
    qed
  qed
qed

lemma setRoundSeeds_ok:
  "seeds_ok ss0 cs \<Longrightarrow> \<forall>(r, s) \<in> set ss. 0 \<le> r \<Longrightarrow> \<exists>cs'. setRoundSeeds ss cs = Some cs' \<and> seeds_ok (ss0 @ ss) cs'"
proof (induction ss arbitrary: ss0 cs)
  case (Cons rs ss)
  obtain r s where rs: "rs = (r, s)" by (cases rs)
  then obtain cs1 where "setRoundSeed r s cs = Some cs1" "seeds_ok (ss0 @ [(r, s)]) cs1" using setRoundSeed_ok [OF Cons.prems(1), of r s] Cons.prems(2) by auto
  then show ?case using Cons.IH [of "ss0 @ [(r, s)]" cs1] Cons.prems(2) rs by auto
qed simp

lemma seeds_ok_new: "seeds_ok [] newConsensusState"
  by (auto simp: seeds_ok_def newConsensusState_def slot_ok_def)

text \<open>C15. The ring buffer of ten seeds. After seeds of any rounds from 0 on have been set in any order, the seed of a positive round is
  the first one that was set for it, unless a later round with the same last digit was set: then, and for a round that was
  never set, it is the empty seed. The seeds of the last ten rounds are always found.\<close>

theorem getRoundSeed_latest:
  assumes "\<forall>(q, s) \<in> set ss. 0 \<le> q" "0 < r"
  shows "\<exists>cs. setRoundSeeds ss newConsensusState = Some cs \<and>
    getRoundSeed r cs =
      (case map_of ss r of
         None \<Rightarrow> emptySeed
       | Some s \<Rightarrow> if \<exists>q \<in> fst ` set ss. r < q \<and> q mod 10 = r mod 10 then emptySeed else s)"
proof -
  obtain cs where cs: "setRoundSeeds ss newConsensusState = Some cs" "seeds_ok ss cs" using setRoundSeeds_ok [OF seeds_ok_new assms(1)] by auto
  have ok: "slot_ok ss (r mod 10) (preRoundS cs ! nat (r mod 10))" using cs(2) by (simp add: seeds_ok_def)
  have m: "r \<in> fst ` set ss" if "map_of ss r = Some s" for s using that by (metis domI dom_map_of_conv_image_fst)
  show ?thesis
  proof (cases "preRoundS cs ! nat (r mod 10)")
    case None
    then have "map_of ss r = None" using ok by (auto simp: slot_ok_def map_of_eq_None_iff)
    then show ?thesis using cs(1) None assms(2) by (simp add: getRoundSeed_def)
  next
    case (Some p)
    then have p: "pre_round p mod 10 = r mod 10" "map_of ss (pre_round p) = Some (pre_seed p)"
        "\<And>q. q \<in> fst ` set ss \<Longrightarrow> q mod 10 = r mod 10 \<Longrightarrow> q \<le> pre_round p" using ok by (auto simp: slot_ok_def)
    have pin: "pre_round p \<in> fst ` set ss" using p(2) by (metis domI dom_map_of_conv_image_fst)
    show ?thesis
    proof (cases "pre_round p = r")
      case True
      then have "\<not> (\<exists>q \<in> fst ` set ss. r < q \<and> q mod 10 = r mod 10)" using p(3) by fastforce
      moreover have "getRoundSeed r cs = pre_seed p" "map_of ss r = Some (pre_seed p)" using Some p(2) True assms(2) by (simp_all add: getRoundSeed_def)
      ultimately show ?thesis using cs(1) by (auto simp del: bex_simps)
    next
      case False
      then have "getRoundSeed r cs = emptySeed" using Some assms(2) by (simp add: getRoundSeed_def)
      moreover have "\<exists>q \<in> fst ` set ss. r < q \<and> q mod 10 = r mod 10" if "map_of ss r = Some s" for s
        using p(1) p(3) [OF m [OF that] refl] False pin by (intro bexI [of _ "pre_round p"]) auto
      ultimately show ?thesis using cs(1) by (auto split: option.splits)
    qed
  qed
qed

theorem getRoundSeed_latest_witness:
  "\<exists>cs. setRoundSeeds [(3, [1]), (4, [2]), (13, [3]), (4, [9])] newConsensusState = Some cs \<and> getRoundSeed 4 cs = [2]"
  using getRoundSeed_latest [of "[(3, [1]), (4, [2]), (13, [3]), (4, [9])]" 4] by simp

end
