(* ===== verification/ConsensusData.thy ===== *)
theory ConsensusData
  imports Wire
begin

text \<open>
  The data an executor keeps about a round (\<^verbatim>\<open>src/processor/miner/consensus/util.go\<close>): the seeds and blocks it has received,
  the blocks cached while the shard is prepared, and the messages of later rounds that wait to be replayed. A map of maps is
  a function of two arguments whose first level may be missing. \<open>calcRoundSeed\<close> is \<^verbatim>\<open>sha256\<close> of the last seed's signature and
  the round.
\<close>

section \<open>Seeds\<close>

text \<open>An \<^verbatim>\<open>int\<close> round is converted to \<^verbatim>\<open>int64\<close>; the write of the variable-length integer may panic.\<close>

definition calcRoundSeed :: "hash_fun \<Rightarrow> bytes \<Rightarrow> int \<Rightarrow> bytes option" where
  "calcRoundSeed H lastSeedSig round = map_option H (seedBuf lastSeedSig (word_of_int round))"

section \<open>Received seeds and blocks\<close>

record 'body receivedData =
  receivedSeed :: "int \<rightharpoonup> bytes \<rightharpoonup> bytes"
  receivedBlock :: "int \<rightharpoonup> bytes \<rightharpoonup> 'body MsgBlock"
  cacheBlockForPrep :: "bytes \<rightharpoonup> 'body MsgBlock"

definition newReceivedData :: "'body receivedData" where
  "newReceivedData = \<lparr>receivedSeed = (\<lambda>_. None), receivedBlock = (\<lambda>_. None), cacheBlockForPrep = (\<lambda>_. None)\<rparr>"

definition rd_cleanUnusedData :: "int \<Rightarrow> 'body receivedData \<Rightarrow> 'body receivedData" where
  "rd_cleanUnusedData round rd =
     rd\<lparr>receivedBlock := drop_keys (\<lambda>r. r < round) (receivedBlock rd), receivedSeed := drop_keys (\<lambda>r. r < round) (receivedSeed rd)\<rparr>"

definition cleanCacheBlock :: "'body receivedData \<Rightarrow> 'body receivedData" where
  "cleanCacheBlock rd = rd\<lparr>cacheBlockForPrep := (\<lambda>_. None)\<rparr>"

definition upd2 :: "('k \<rightharpoonup> 'l \<rightharpoonup> 'v) \<Rightarrow> 'k \<Rightarrow> 'l \<Rightarrow> 'v \<Rightarrow> ('k \<rightharpoonup> 'l \<rightharpoonup> 'v)" where
  "upd2 m k l v = m(k \<mapsto> (case m k of None \<Rightarrow> (\<lambda>_. None) | Some m1 \<Rightarrow> m1)(l \<mapsto> v))"

definition get2 :: "('k \<rightharpoonup> 'l \<rightharpoonup> 'v) \<Rightarrow> 'k \<Rightarrow> 'l \<Rightarrow> 'v option" where
  "get2 m k l = Option.bind (m k) (\<lambda>m1. m1 l)"

definition saveSeed :: "int \<Rightarrow> bytes \<Rightarrow> bytes \<Rightarrow> 'body receivedData \<Rightarrow> 'body receivedData" where
  "saveSeed round sender seed rd = rd\<lparr>receivedSeed := upd2 (receivedSeed rd) round sender seed\<rparr>"

definition getSeed :: "int \<Rightarrow> bytes \<Rightarrow> 'body receivedData \<Rightarrow> bytes option" where
  "getSeed round sender rd = get2 (receivedSeed rd) round sender"

definition saveBlock :: "int \<Rightarrow> bytes \<Rightarrow> 'body MsgBlock \<Rightarrow> 'body receivedData \<Rightarrow> 'body receivedData" where
  "saveBlock round hash block rd = rd\<lparr>receivedBlock := upd2 (receivedBlock rd) round hash block\<rparr>"

definition getBlock :: "int \<Rightarrow> bytes \<Rightarrow> 'body receivedData \<Rightarrow> 'body MsgBlock option" where
  "getBlock round hash rd = get2 (receivedBlock rd) round hash"

definition cacheBlock :: "bytes \<Rightarrow> 'body MsgBlock \<Rightarrow> 'body receivedData \<Rightarrow> 'body receivedData" where
  "cacheBlock hash block rd = rd\<lparr>cacheBlockForPrep := (cacheBlockForPrep rd)(hash \<mapsto> block)\<rparr>"

definition reloadBlock :: "bytes \<Rightarrow> 'body receivedData \<Rightarrow> 'body MsgBlock option" where
  "reloadBlock hash rd = cacheBlockForPrep rd hash"

section \<open>Pending messages\<close>

record 'body pendingData =
  pendingMsg :: "int \<rightharpoonup> int \<rightharpoonup> 'body wire_msg list"
  pendingMsgMaxStep :: "int \<rightharpoonup> int"
  pendingMsgBySender :: "int \<rightharpoonup> bytes \<rightharpoonup> bool"

definition newPendingData :: "'body pendingData" where
  "newPendingData = \<lparr>pendingMsg = (\<lambda>_. None), pendingMsgMaxStep = (\<lambda>_. None), pendingMsgBySender = (\<lambda>_. None)\<rparr>"

definition saveMsg :: "int \<Rightarrow> int \<Rightarrow> bytes \<Rightarrow> 'body wire_msg \<Rightarrow> 'body pendingData \<Rightarrow> 'body pendingData" where
  "saveMsg round step sender msg pd =
     (let pd = (if pendingMsg pd round = None
                then pd\<lparr>pendingMsg := (pendingMsg pd)(round \<mapsto> (\<lambda>_. None)), pendingMsgBySender := (pendingMsgBySender pd)(round \<mapsto> (\<lambda>_. None))\<rparr>
                else pd);
          old = (case get2 (pendingMsg pd) round step of None \<Rightarrow> [] | Some ms \<Rightarrow> ms);
          pd = pd\<lparr>pendingMsg := upd2 (pendingMsg pd) round step (old @ [msg])\<rparr>;
          pd = (if step > (case pendingMsgMaxStep pd round of None \<Rightarrow> 0 | Some s \<Rightarrow> s)
                then pd\<lparr>pendingMsgMaxStep := (pendingMsgMaxStep pd)(round \<mapsto> step)\<rparr> else pd)
      in pd\<lparr>pendingMsgBySender := upd2 (pendingMsgBySender pd) round sender True\<rparr>)"

definition getPendingMsg :: "int \<Rightarrow> 'body pendingData \<Rightarrow> ((int \<rightharpoonup> 'body wire_msg list) \<times> int) option" where
  "getPendingMsg round pd =
     (case pendingMsg pd round of
        None \<Rightarrow> None
      | Some ms \<Rightarrow> (case pendingMsgMaxStep pd round of None \<Rightarrow> None | Some maxStep \<Rightarrow> Some (ms, maxStep)))"

definition deletePendingMsg :: "int \<Rightarrow> 'body pendingData \<Rightarrow> 'body pendingData" where
  "deletePendingMsg round pd =
     pd\<lparr>pendingMsg := drop_keys (\<lambda>r. r < round) (pendingMsg pd),
        pendingMsgMaxStep := drop_keys (\<lambda>r. r < round) (pendingMsgMaxStep pd),
        pendingMsgBySender := drop_keys (\<lambda>r. r < round) (pendingMsgBySender pd)\<rparr>"

section \<open>The contract of a store by rounds\<close>

text \<open>What the executor relies on when it keeps seeds and blocks: a value is found under the round and key it was saved with, until
  the data of its round is cleaned.\<close>

locale round_store =
  fixes save :: "int \<Rightarrow> 'k \<Rightarrow> 'v \<Rightarrow> 's \<Rightarrow> 's"
    and lookup :: "int \<Rightarrow> 'k \<Rightarrow> 's \<Rightarrow> 'v option"
    and clean_before :: "int \<Rightarrow> 's \<Rightarrow> 's"
    and fresh :: 's
  assumes lookup_fresh: "lookup r k fresh = None"
    and lookup_save: "lookup r k (save r' k' v s) = (if r = r' \<and> k = k' then Some v else lookup r k s)"
    and lookup_clean: "lookup r k (clean_before q s) = (if r < q then None else lookup r k s)"
begin

lemma all_fresh: "lookup r k fresh = Some v \<Longrightarrow> P r k v"
  by (simp add: lookup_fresh)

lemma all_save:
  "(\<And>r k v. lookup r k s = Some v \<Longrightarrow> P r k v) \<Longrightarrow> P r k v \<Longrightarrow> lookup r' k' (save r k v s) = Some v' \<Longrightarrow> P r' k' v'"
  by (auto simp: lookup_save split: if_splits)

lemma all_clean: "(\<And>r k v. lookup r k s = Some v \<Longrightarrow> P r k v) \<Longrightarrow> lookup r k (clean_before q s) = Some v \<Longrightarrow> P r k v"
  by (auto simp: lookup_clean split: if_splits)

lemma saved_until_cleaned: "q \<le> r \<Longrightarrow> lookup r k (clean_before q (save r k v s)) = Some v"
  by (simp add: lookup_save lookup_clean)

end

lemma get2_upd2: "get2 (upd2 m k l v) k' l' = (if k' = k \<and> l' = l then Some v else get2 m k' l')"
  by (auto simp: get2_def upd2_def split: option.splits)

lemma get2_drop_keys: "get2 (drop_keys P m) k l = (if P k then None else get2 m k l)"
  by (simp add: get2_def)

interpretation blocks: round_store saveBlock getBlock rd_cleanUnusedData newReceivedData
  by unfold_locales
    (auto simp: getBlock_def saveBlock_def rd_cleanUnusedData_def newReceivedData_def get2_upd2 get2_drop_keys, simp add: get2_def)

interpretation seeds: round_store saveSeed getSeed rd_cleanUnusedData newReceivedData
  by unfold_locales
    (auto simp: getSeed_def saveSeed_def rd_cleanUnusedData_def newReceivedData_def get2_upd2 get2_drop_keys, simp add: get2_def)

end
