(* ===== verification/Sortition.thy ===== *)
theory Sortition
  imports Prelude
begin

text \<open>
  The sortition of leaders and committee members (\<^verbatim>\<open>src/processor/miner/consensus/sortition.go\<close>) and the vote threshold that
  the executor derives from the number of miners (\<^verbatim>\<open>setThreshold\<close> in \<^verbatim>\<open>consensus_executor.go\<close>). Both compute with Go's
  \<^verbatim>\<open>float64\<close>: a product or quotient is rounded to 53 bits, to even in case of a tie. The rounding is written out on
  integers: \<open>fround a b\<close> is the double nearest to the rational \<open>a / b\<close>, as a numerator and a binary exponent.

  \<^verbatim>\<open>math.Pow\<close> is used with the exponent 1 by the threshold, where its documentation gives the base; the committee test
  takes the value it computes from it as an argument.
\<close>

unbundle bit_operations_syntax

section \<open>Doubles\<close>

function bitlen :: "int \<Rightarrow> nat" where
  "bitlen n = (if n \<le> 0 then 0 else Suc (bitlen (n div 2)))"
  by pat_completeness auto
termination by (relation "measure nat") auto

declare bitlen.simps [simp del]

text \<open>The integer nearest to \<open>x / y\<close>, to even in case of a tie.\<close>

definition rne :: "int \<Rightarrow> int \<Rightarrow> int" where
  "rne x y = (let q = x div y; r = x mod y in if 2 * r > y \<or> (2 * r = y \<and> odd q) then q + 1 else q)"

text \<open>\<open>float64(n)\<close> of a non-negative \<^verbatim>\<open>int\<close>.\<close>

definition float64 :: "int \<Rightarrow> int" where
  "float64 n = (let s = bitlen n - 53 in rne n (2 ^ s) * 2 ^ s)"

text \<open>The double nearest to \<open>a / b\<close>, for \<open>1 / 2 \<le> a / b\<close>: the pair \<open>(m, k)\<close> stands for \<open>m / 2 ^ k\<close>. From \<open>2 ^ 53\<close> on the quotients
  that occur are integers.\<close>

definition fround :: "int \<Rightarrow> int \<Rightarrow> int \<times> nat" where
  "fround a b = (let k = 53 - bitlen (a div b) in (rne (a * 2 ^ k) b, k))"

definition ceil_of :: "int \<times> nat \<Rightarrow> int" where
  "ceil_of = (\<lambda>(m, k). - ((- m) div 2 ^ k))"

definition trunc_of :: "int \<times> nat \<Rightarrow> int" where
  "trunc_of = (\<lambda>(m, k). m div 2 ^ k)"

text \<open>The constants \<^verbatim>\<open>0.666666667\<close> and \<^verbatim>\<open>0.8\<close> as doubles, times \<open>2 ^ 53\<close>. \<^verbatim>\<open>1 - math.Pow(1 - SecurityLevel, 1)\<close> is the
  double \<^verbatim>\<open>0.8\<close> again.\<close>

definition proportion53 :: int where
  "proportion53 = 6004799506163061"

definition level53 :: int where
  "level53 = 7205759403792794"

section \<open>The threshold\<close>

definition maxInt :: int where
  "maxInt = 2 ^ 63 - 1"

definition threshold_of :: "int \<Rightarrow> int" where
  "threshold_of n =
     (let t = ceil_of (if n = 0 then (0, 0) else fround (float64 n * proportion53) (2 ^ 53));
          t = (if t \<le> 1 then maxInt else t)
      in trunc_of (fround (float64 t * level53) (2 ^ 53)))"

section \<open>Sortition\<close>

definition GenesisNumberOfShards :: nat where
  "GenesisNumberOfShards = 4"

definition LeaderRateBase :: int where
  "LeaderRateBase = 20"

record Sortitionor =
  expNumShard :: "32 word"
  leaderRates :: "32 word list"

definition NewSortitionor :: "32 word \<Rightarrow> 32 word \<Rightarrow> Sortitionor option" where
  "NewSortitionor exp leaderRate =
     (if unat exp < 1 \<or> unat exp > GenesisNumberOfShards then None
      else Some \<lparr>expNumShard = exp, leaderRates = replicate GenesisNumberOfShards leaderRate\<rparr>)"

definition leader_rate :: "int \<Rightarrow> 32 word" where
  "leader_rate n =
     (let n = ceil_of (if n = 0 then (0, 0) else fround (float64 n * level53) (2 ^ 53))
      in if n \<le> LeaderRateBase then word_of_int n
         else word_of_int (ceil_of (fround (float64 n) LeaderRateBase)))"

definition SetLeaderRate :: "int \<Rightarrow> 32 word \<Rightarrow> Sortitionor \<Rightarrow> Sortitionor option" where
  "SetLeaderRate n index ds =
     (if unat index < length (leaderRates ds)
      then Some (ds\<lparr>leaderRates := (leaderRates ds)[unat index := leader_rate n]\<rparr>) else None)"

text \<open>The FNV-1 hash of 32 bits (\<^verbatim>\<open>hash/fnv\<close>).\<close>

definition fnv32 :: "bytes \<Rightarrow> 32 word" where
  "fnv32 bs = foldl (\<lambda>h b. (h * 16777619) XOR ucast b) 2166136261 bs"

text \<open>The division panics when the rate is zero.\<close>

definition IsLeader :: "bytes \<Rightarrow> 32 word \<Rightarrow> Sortitionor \<Rightarrow> bool option" where
  "IsLeader seed index ds =
     (if unat index < length (leaderRates ds) then
        (let num = leaderRates ds ! unat index
         in if num = 0 then None else Some (fnv32 seed < 0xFFFFFFFF div num))
      else None)"

text \<open>\<open>h / 2 ^ 32\<close> is exact; it is compared with the double \<open>1 - Pow(1 - 0.8, depositUnit)\<close>, a multiple of \<open>2 ^ -53\<close>. The
  argument \<open>bound53\<close> is that multiple: \<^const>\<open>level53\<close> for the unit 1, the only one in use, where \<^verbatim>\<open>math.Pow\<close> returns its base.\<close>

definition IsInShard :: "(nat \<Rightarrow> int) \<Rightarrow> bytes \<Rightarrow> 32 word \<Rightarrow> bool" where
  "IsInShard bound53 prf depositUnit \<longleftrightarrow> uint (fnv32 prf) * 2 ^ 21 < bound53 (unat depositUnit)"

section \<open>Bounds of the threshold\<close>

lemma rne_bounds: "0 < y \<Longrightarrow> 2 * x - y \<le> 2 * y * rne x y \<and> 2 * y * rne x y \<le> 2 * x + y"
proof -
  assume "0 < y"
  define q r where "q = x div y" and "r = x mod y"
  then have "0 \<le> r" "r < y" "x = y * q + r" "x div y = q" "x mod y = r" using \<open>0 < y\<close> by simp_all
  then show ?thesis unfolding rne_def Let_def by (simp add: algebra_simps)
qed

lemma bitlen_bounds: "0 < n \<Longrightarrow> n < 2 ^ bitlen n \<and> 2 ^ bitlen n \<le> 2 * n"
proof (induction n rule: bitlen.induct)
  case (1 n)
  show ?case
  proof (cases "n = 1")
    case True
    then show ?thesis by (simp add: bitlen.simps)
  next
    case False
    then have "n div 2 < 2 ^ bitlen (n div 2) \<and> 2 ^ bitlen (n div 2) \<le> 2 * (n div 2)" using 1 by auto
    moreover have "bitlen n = Suc (bitlen (n div 2))" using 1(2) by (simp add: bitlen.simps [of n])
    ultimately show ?thesis by auto
  qed
qed

lemma bitlen_le: "n < 2 ^ k \<Longrightarrow> bitlen n \<le> k"
proof (rule ccontr)
  assume n: "n < 2 ^ k" "\<not> bitlen n \<le> k"
  then have "0 < n" by (cases "n \<le> 0") (simp_all add: bitlen.simps)
  then have "2 ^ bitlen n \<le> 2 * n" using bitlen_bounds by blast
  moreover have "(2 :: int) ^ Suc k \<le> 2 ^ bitlen n" using n(2) by (intro power_increasing) auto
  ultimately show False using n(1) by simp
qed

lemma float64_small: "n < 2 ^ 53 \<Longrightarrow> float64 n = n"
  using bitlen_le [of n 53] by (simp add: float64_def rne_def)

text \<open>The scale of a quotient keeps at least 52 bits of it.\<close>

lemma scale_bound:
  assumes "0 < n" "q < n" "n \<le> 2 ^ 31"
  shows "2 ^ 52 \<le> 2 ^ (53 - bitlen q) * n" "(4 :: int) \<le> 2 ^ (53 - bitlen q)"
proof -
  have b: "bitlen q \<le> 31" using assms by (intro bitlen_le) simp
  have "(2 :: int) ^ 53 = 2 ^ (53 - bitlen q) * 2 ^ bitlen q" using b by (simp flip: power_add)
  also have "2 ^ (53 - bitlen q) * 2 ^ bitlen q \<le> 2 ^ (53 - bitlen q) * (2 * n)"
  proof (cases "0 < q")
    case True
    then have "2 ^ bitlen q \<le> 2 * n" using bitlen_bounds [of q] assms(2) by linarith
    then show ?thesis by (rule mult_left_mono) simp
  next
    case False
    then show ?thesis using assms(1) by (simp add: bitlen.simps)
  qed
  finally show "2 ^ 52 \<le> 2 ^ (53 - bitlen q) * n" by (simp add: mult.commute)
  show "(4 :: int) \<le> 2 ^ (53 - bitlen q)" using power_increasing [of 2 "53 - bitlen q" "2 :: int"] b by simp
qed

lemma ceil_two_thirds:
  assumes "1 \<le> n" "n \<le> 10 ^ 9"
  shows "ceil_of (fround (n * proportion53) (2 ^ 53)) = 2 * n div 3 + 1"
proof -
  let ?D = "2 ^ 53 :: int" and ?X = "n * proportion53" and ?c = "2 * n div 3 + 1"
  define k where "k = 53 - bitlen (?X div ?D)"
  define m where "m = rne (?X * 2 ^ k) ?D"
  define s :: int where "s = 2 ^ k"
  have q: "?X div ?D < n" using assms(1) by (simp add: proportion53_def)
  have s: "2 ^ 52 \<le> s * n" "0 < s" using scale_bound(1) [OF _ q] assms by (simp_all add: s_def k_def)
  have X: "3 * ?X = 2 * n * ?D + 9007199 * n" by (simp add: proportion53_def)
  have c: "3 * (?c - 1) \<le> 2 * n" "2 * n + 1 \<le> 3 * ?c" by presburger+
  have b: "2 * (?X * s) - ?D \<le> 2 * ?D * m" "2 * ?D * m \<le> 2 * (?X * s) + ?D" using rne_bounds [of ?D "?X * s"] by (simp_all add: m_def s_def)
  have "3 * (?c - 1) * ?D + 9007199 * n \<le> 3 * ?X" unfolding X using c(1) by simp
  then have "(3 * (?c - 1) * ?D + 9007199 * n) * s \<le> 3 * ?X * s" using s(2) by (intro mult_right_mono) auto
  then have lo: "(?c - 1) * s < m" using b(1) s(1) by (simp add: algebra_simps)
  have "3 * ?X \<le> 3 * ?c * ?D" unfolding X using c(2) assms(2) by simp
  then have "3 * ?X * s \<le> 3 * ?c * ?D * s" using s(2) by (intro mult_right_mono) auto
  then have hi: "m \<le> ?c * s" using b(2) by (simp add: algebra_simps)
  have "(- m) div s = - ?c"
    by (rule int_div_pos_eq [of _ _ _ "?c * s - m"]) (use lo hi in \<open>simp_all add: algebra_simps\<close>)
  then show ?thesis by (simp add: ceil_of_def fround_def Let_def s_def m_def k_def)
qed

lemma trunc_four_fifths:
  assumes "1 \<le> t" "t \<le> 10 ^ 9"
  shows "trunc_of (fround (t * level53) (2 ^ 53)) = 4 * t div 5"
proof -
  let ?D = "2 ^ 53 :: int" and ?Y = "t * level53" and ?e = "4 * t div 5"
  define k where "k = 53 - bitlen (?Y div ?D)"
  define m where "m = rne (?Y * 2 ^ k) ?D"
  define s :: int where "s = 2 ^ k"
  have q: "?Y div ?D < t" using assms by (simp add: level53_def)
  have s: "4 \<le> s" using scale_bound(2) [OF _ q] assms by (simp add: s_def k_def)
  have Y: "5 * ?Y = 4 * t * ?D + 2 * t" by (simp add: level53_def)
  have e: "5 * ?e \<le> 4 * t" "4 * t \<le> 5 * ?e + 4" by presburger+
  have b: "2 * (?Y * s) - ?D \<le> 2 * ?D * m" "2 * ?D * m \<le> 2 * (?Y * s) + ?D" using rne_bounds [of ?D "?Y * s"] by (simp_all add: m_def s_def)
  have "5 * ?e * ?D \<le> 5 * ?Y" unfolding Y using e(1) assms by simp
  then have "5 * ?e * ?D * s \<le> 5 * ?Y * s" using s by (intro mult_right_mono) auto
  then have lo: "?e * s \<le> m" using b(1) by (simp add: algebra_simps)
  have "5 * ?Y + (?D - 2 * 10 ^ 9) \<le> 5 * (?e + 1) * ?D" unfolding Y using e(2) assms(2) by simp
  then have "(5 * ?Y + (?D - 2 * 10 ^ 9)) * s \<le> 5 * (?e + 1) * ?D * s" using s by (intro mult_right_mono) auto
  then have hi: "m < (?e + 1) * s" using b(2) s by (simp add: algebra_simps)
  have "m div s = ?e"
    by (rule int_div_pos_eq [of _ _ _ "m - ?e * s"]) (use lo hi in \<open>simp_all add: algebra_simps\<close>)
  then show ?thesis by (simp add: trunc_of_def fround_def Let_def s_def m_def k_def)
qed

lemma threshold_of_eq:
  assumes "2 \<le> n" "n \<le> 10 ^ 9"
  shows "threshold_of n = 4 * (2 * n div 3 + 1) div 5"
proof -
  have "2 \<le> 2 * n div 3 + 1" "2 * n div 3 + 1 \<le> 10 ^ 9" using assms by presburger+
  then show ?thesis using ceil_two_thirds [of n] trunc_four_fifths [of "2 * n div 3 + 1"] assms
    by (simp add: threshold_of_def Let_def float64_small)
qed

lemma four_fifths_bounds:
  fixes n :: int
  shows "8 * n - 8 \<le> 15 * (4 * (2 * n div 3 + 1) div 5)" "15 * (4 * (2 * n div 3 + 1) div 5) \<le> 8 * n + 12"
proof -
  define a where "a = 2 * n div 3"
  define e where "e = 4 * (a + 1) div 5"
  have a: "3 * a \<le> 2 * n" "2 * n \<le> 3 * a + 2" unfolding a_def by presburger+
  have e: "5 * e \<le> 4 * (a + 1)" "4 * (a + 1) \<le> 5 * e + 4" unfolding e_def by presburger+
  have "8 * n - 8 \<le> 15 * e" using a e by (simp add: algebra_simps)
  moreover have "15 * e \<le> 8 * n + 12" using a e by (simp add: algebra_simps)
  ultimately show "8 * n - 8 \<le> 15 * (4 * (2 * n div 3 + 1) div 5)" "15 * (4 * (2 * n div 3 + 1) div 5) \<le> 8 * n + 12" by (simp_all add: a_def e_def)
qed

lemma majority_small:
  assumes "2 \<le> n" "n \<le> (16 :: int)"
  shows "n \<le> 2 * (4 * (2 * n div 3 + 1) div 5) \<and> (n = 2 * (4 * (2 * n div 3 + 1) div 5) \<longleftrightarrow> n \<in> {2, 4, 8, 10, 16})"
proof -
  have "n \<in> set [2..16]" unfolding set_upto using assms by simp
  moreover have "\<forall>n \<in> set [2..16]. n \<le> 2 * (4 * (2 * n div 3 + 1) div 5) \<and> (n = 2 * (4 * (2 * n div 3 + 1) div 5) \<longleftrightarrow> n \<in> {2, 4, 8, 10, 16 :: int})"
    by code_simp
  ultimately show ?thesis by blast
qed

lemma threshold_unreachable: "2 ^ 62 < threshold_of 0" "2 ^ 62 < threshold_of 1"
  by code_simp+

text \<open>C14. The vote threshold in doubles. For 2 to a billion miners it is four fifths of the least integer above two thirds of their number,
  rounded down, whatever the rounding of the doubles. It is more than half of the miners, so that two quorums always
  meet, except for 2, 4, 8, 10 and 16 miners, where it is exactly half; and there is a miner to spare for every fifteen: two quorums
  have at least \<open>(n - 16) / 15\<close> miners in common. With no miner or a single one, it is above 2^62 and never reached.\<close>

theorem threshold_bounds:
  "(2 \<le> n \<and> n \<le> 10 ^ 9 \<longrightarrow>
      threshold_of n = 4 * (2 * n div 3 + 1) div 5 \<and> threshold_of n \<le> n \<and> n \<le> 2 * threshold_of n \<and>
      (n = 2 * threshold_of n \<longleftrightarrow> n \<in> {2, 4, 8, 10, 16}) \<and> n - 16 \<le> 15 * (2 * threshold_of n - n)) \<and>
   2 ^ 62 < threshold_of 0 \<and> 2 ^ 62 < threshold_of 1"
proof -
  define e where "e = 4 * (2 * n div 3 + 1) div 5"
  note b = four_fifths_bounds [of n, folded e_def]
  have "e \<le> n \<and> n \<le> 2 * e \<and> (n = 2 * e \<longleftrightarrow> n \<in> {2, 4, 8, 10, 16}) \<and> n - 16 \<le> 15 * (2 * e - n)" if "2 \<le> n"
  proof (cases "n \<le> 16")
    case True
    moreover have "e \<le> n" using b that by linarith
    moreover have "n - 16 \<le> 15 * (2 * e - n)" using b(1) by (simp add: algebra_simps)
    ultimately show ?thesis using majority_small [OF that True, folded e_def] by blast
  next
    case False
    then have "e \<le> n" "n < 2 * e" "n - 16 \<le> 15 * (2 * e - n)" "n \<notin> {2, 4, 8, 10, 16}" using b by auto
    then show ?thesis by (auto simp del: One_nat_def)
  qed
  then show ?thesis using threshold_of_eq [of n, folded e_def] threshold_unreachable unfolding e_def [symmetric] by simp
qed

theorem threshold_bounds_witness: "threshold_of 100 = 53 \<and> threshold_of 4 = 2"
  using threshold_bounds [of 100] threshold_bounds [of 4] by simp

end
