(* ===== verification/Executor.thy ===== *)
theory Executor
  imports BinaryBA PbftVoter ConsensusState ConsensusData Sortition "HOL-Library.Monad_Syntax"
begin

text \<open>
  The consensus executor (\<^verbatim>\<open>src/processor/miner/consensus\<close>: \<^verbatim>\<open>consensus_executor.go\<close>, \<^verbatim>\<open>msgfliter.go\<close>, \<^verbatim>\<open>msghandler.go\<close>,
  \<^verbatim>\<open>sync_listener.go\<close> and what it uses of \<^verbatim>\<open>consensus_timer.go\<close>). The record \<open>executor\<close> has the fields of the Go
  struct; the effects that leave it (broadcasts, timers, events) are appended to the field \<open>out\<close>, and the messages that
  are replayed to the field \<open>msgQueue\<close>. A handler returns \<^const>\<open>None\<close> where the Go code panics.

  The record \<open>env\<close> holds what the executor calls through Go interfaces: the VRF, the block chain \<^verbatim>\<open>iabci.AppBlockChain\<close>
  with a state of its own, the heartbeat manager, and the unspecified iteration orders of Go maps. It is an argument of
  every handler, so that it may change from one event to the next.
\<close>

section \<open>Environment and state\<close>

datatype accept_error = BlockMayBeAccepted | AcceptError

record ('c, 'body) env =
  hash :: hash_fun
  vrf :: VRF
  bound53 :: "nat \<Rightarrow> int"
  VerifyBlock :: "'body MsgBlock \<Rightarrow> 'c \<Rightarrow> bool"
  ProposeBlock :: "bytes \<Rightarrow> bytes \<Rightarrow> 'c \<Rightarrow> 'body MsgBlock option \<times> 'c"
  AcceptBlock :: "'body MsgBlock \<Rightarrow> 'c \<Rightarrow> accept_error option \<times> 'c"
  ProposeAndAcceptEmptyBlock :: "64 word \<Rightarrow> 'c \<Rightarrow> BlockHeader option \<times> 'c"
  PerceivedCount :: int
  Has :: "bytes \<Rightarrow> bool"
  randBit :: byte
  commitOrder :: "bytes list"
  valueOrder :: "ByzAgreementValue list"
  IsOneOfFirstMiners :: bool

datatype toNode = ToMinerNode | ToAllNode

text \<open>\<^const>\<open>None\<close> is \<^verbatim>\<open>connection.ToAllShard\<close>.\<close>

record BroadcastParams =
  ToNode :: toNode
  ToShard :: "32 word option"
  IncludeSelf :: bool

record SimpleBlockInfo =
  sb_round :: "32 word"
  sb_leader :: bytes
  prevHash :: bytes
  curHash :: bytes

datatype 'body effect =
    Broadcast "'body wire_msg" BroadcastParams
  | StartTimer int
  | GCTimeout int int
  | BBATimeout int int
  | FallBehind
  | NotifyDisabled nat
  | ReportBlock SimpleBlockInfo

record ('c, 'body) executor =
  shardIndex :: "32 word"
  cstate :: consensusState
  sortitionor :: Sortitionor
  gcPreVoter :: pbftVoter
  gcCommitVoter :: pbftVoter
  bbaVoter :: binaryBAVoter
  blockchain :: 'c
  pk :: bytes
  sk :: bytes
  recvData :: "'body receivedData"
  pendData :: "'body pendingData"
  msgQueue :: "'body wire_msg list"
  out :: "'body effect list"

definition emit :: "'body effect \<Rightarrow> ('c, 'body) executor \<Rightarrow> ('c, 'body) executor" where
  "emit e ce = ce\<lparr>out := out ce @ [e]\<rparr>"

definition GetDepositUnit :: "32 word" where
  "GetDepositUnit = 1"

definition newExecutor :: "'c \<Rightarrow> Sortitionor \<Rightarrow> bytes \<Rightarrow> bytes \<Rightarrow> int \<Rightarrow> 32 word \<Rightarrow> ('c, 'body) executor" where
  "newExecutor abci selector pk0 sk0 thr index =
     \<lparr>shardIndex = index, cstate = setDepositCache GetDepositUnit newConsensusState, sortitionor = selector,
      gcPreVoter = newPbftVoter 1 leaderProposalVoteType thr, gcCommitVoter = newPbftVoter 1 leaderCommitVoteType thr,
      bbaVoter = newBinaryBAVoter 1 thr, blockchain = abci, pk = pk0, sk = sk0, recvData = newReceivedData,
      pendData = newPendingData, msgQueue = [], out = []\<rparr>"

section \<open>Rounds\<close>

definition ce_setThreshold :: "('c, 'body) env \<Rightarrow> ('c, 'body) executor \<Rightarrow> ('c, 'body) executor option" where
  "ce_setThreshold env ce =
     (let thr = threshold_of (PerceivedCount env) in
      case SetLeaderRate (PerceivedCount env) (shardIndex ce) (sortitionor ce) of
        None \<Rightarrow> None
      | Some s \<Rightarrow>
          Some (ce\<lparr>sortitionor := s, gcPreVoter := pbft_setThreshold thr (gcPreVoter ce),
                   gcCommitVoter := pbft_setThreshold thr (gcCommitVoter ce), bbaVoter := bba_setThreshold thr (bbaVoter ce)\<rparr>))"

definition ce_setCurrentRound :: "('c, 'body) env \<Rightarrow> int \<Rightarrow> ('c, 'body) executor \<Rightarrow> ('c, 'body) executor option" where
  "ce_setCurrentRound env round ce =
     ce_setThreshold env
       (ce\<lparr>gcPreVoter := pbft_setCurrentRound round (gcPreVoter ce), gcCommitVoter := pbft_setCurrentRound round (gcCommitVoter ce),
           bbaVoter := bba_setCurrentRound round (bbaVoter ce), cstate := setRound round (cstate ce)\<rparr>)"

definition shouldSkipProposal :: "bytes \<Rightarrow> ('c, 'body) executor \<Rightarrow> bool" where
  "shouldSkipProposal seed ce =
     (smallestCred (cstate ce) \<noteq> maxCred \<and> bytes_less (smallestCred (cstate ce)) seed)"

text \<open>The inner \<^const>\<open>None\<close> is the error of the signature.\<close>

definition generateNewRoundSeed :: "('c, 'body) env \<Rightarrow> int \<Rightarrow> ('c, 'body) executor \<Rightarrow> (bytes \<times> bytes) option option" where
  "generateNewRoundSeed env round ce =
     (case Generate (vrf env) (pk ce) (sk ce) (getRoundSeed (round - 1) (cstate ce)) of
        None \<Rightarrow> Some None
      | Some lastSeedSig \<Rightarrow> map_option (\<lambda>seed. Some (lastSeedSig, seed)) (calcRoundSeed (hash env) lastSeedSig round))"

text \<open>On a failure of the VRF the block keeps the public key and has no signature; the caller goes on with it.\<close>

definition signBlock :: "('c, 'body) env \<Rightarrow> 'body MsgBlock \<Rightarrow> ('c, 'body) executor \<Rightarrow> 'body MsgBlock option" where
  "signBlock env block ce =
     (let h = (Header block)\<lparr>hd_Pk := pk ce\<rparr> in
      map_option
        (\<lambda>hh. case Generate (vrf env) (pk ce) (sk ce) hh of
                None \<Rightarrow> block\<lparr>Header := h\<rparr>
              | Some sig \<Rightarrow> block\<lparr>Header := h\<lparr>HeaderSig := sig\<rparr>\<rparr>)
        (BlockHeaderHash (hash env) h))"

definition isPotentialLeader :: "bytes \<Rightarrow> ('c, 'body) executor \<Rightarrow> bool option" where
  "isPotentialLeader seed ce = IsLeader seed (shardIndex ce) (sortitionor ce)"

definition isCommitteeVerifier :: "('c, 'body) env \<Rightarrow> bytes \<Rightarrow> 32 word \<Rightarrow> bool" where
  "isCommitteeVerifier env proofs depositUnit = IsInShard (bound53 env) proofs depositUnit"

text \<open>The gossip node reads the command of the message first, so that a nil message panics.\<close>

definition broadcastMessage ::
    "'body wire_msg option \<Rightarrow> BroadcastParams option \<Rightarrow> ('c, 'body) executor \<Rightarrow> ('c, 'body) executor option" where
  "broadcastMessage msg par ce =
     map_option
       (\<lambda>m. emit (Broadcast m (case par of
                                 None \<Rightarrow> \<lparr>ToNode = ToMinerNode, ToShard = Some (shardIndex ce), IncludeSelf = True\<rparr>
                               | Some p \<Rightarrow> p)) ce) msg"

text \<open>A message is broadcast if it could be signed.\<close>

definition broadcastSigned ::
    "('m \<Rightarrow> 'body wire_msg) \<Rightarrow> (wire_error + 'm) option \<Rightarrow> ('c, 'body) executor \<Rightarrow> ('c, 'body) executor option" where
  "broadcastSigned wrap r ce =
     (case r of
        None \<Rightarrow> None
      | Some (Inl _) \<Rightarrow> Some ce
      | Some (Inr m) \<Rightarrow> broadcastMessage (Some (wrap m)) None ce)"

definition checkVerifierAndGenerateSignedMessage ::
    "('c, 'body) env \<Rightarrow> byte \<Rightarrow> ByzAgreementValue \<Rightarrow> int \<Rightarrow> int \<Rightarrow> ('c, 'body) executor \<Rightarrow> 'body wire_msg option option" where
  "checkVerifierAndGenerateSignedMessage env b v curRound finStep ce =
     (let prf = inShardProof (cstate ce) in
      if \<not> isCommitteeVerifier env prf GetDepositUnit then Some None
      else
        (let cred = NewCredentialWithBA (shardIndex ce) (word_of_int curRound) (word_of_int finStep) b v;
             bbaMsg = \<lparr>bba_InShardProof = prf, SignedCredentialWithBA =
                         Some \<lparr>Pk = pk ce, Signature = [], Message = no_msg\<lparr>cm_CredentialWithBA := Some cred\<rparr>\<rparr>\<rparr>
         in case bba_Sign (vrf env) (sk ce) bbaMsg of
              None \<Rightarrow> None
            | Some (Inl _) \<Rightarrow> Some None
            | Some (Inr m) \<Rightarrow> Some (Some (if finStep < 0 then BinaryBAFin m else BinaryBA m))))"

text \<open>The part of \<^verbatim>\<open>startAtRound\<close> for a potential leader. The flag tells whether the next step is entered.\<close>

definition proposeAtRound ::
    "('c, 'body) env \<Rightarrow> int \<Rightarrow> bytes \<Rightarrow> bytes \<Rightarrow> ('c, 'body) executor \<Rightarrow> (bool \<times> ('c, 'body) executor) option" where
  "proposeAtRound env round lastSeedSig seed ce =
     (let (blk, ch) = ProposeBlock env (pk ce) (sk ce) (blockchain ce); ce = ce\<lparr>blockchain := ch\<rparr> in
      case blk of
        None \<Rightarrow> Some (True, ce)
      | Some block \<Rightarrow> do {
          block \<leftarrow> signBlock env (block\<lparr>Header := (Header block)\<lparr>LastSeedSig := lastSeedSig, Seed := seed\<rparr>\<rparr>) ce;
          if Height (Header block) \<noteq> word_of_int round + 2 then Some (True, ce)
          else do {
            blkHash \<leftarrow> BlockHeaderHash (hash env) (Header block);
            case Generate (vrf env) (pk ce) (sk ce) blkHash of
              None \<Rightarrow> Some (False, ce)
            | Some signedHash \<Rightarrow>
                if shouldSkipProposal seed ce then Some (True, ce)
                else do {
                  let ce = ce\<lparr>cstate := setSmallestCredInRound round seed (cstate ce)\<rparr>;
                  let cred = Some \<lparr>Pk = pk ce, Signature = [], Message = no_msg\<lparr>cm_Credential := Some (NewCredential (word_of_int round) 1)\<rparr>\<rparr>;
                  ce \<leftarrow> broadcastSigned SeedMsg (sd_Sign (vrf env) (sk ce)
                    \<lparr>sd_ShardIndex = shardIndex ce, sd_SignedCredential = cred, sd_LastSeedSig = lastSeedSig, sd_InShardProof = inShardProof (cstate ce)\<rparr>) ce;
                  ce \<leftarrow> broadcastSigned LeaderProposal (lp_Sign (vrf env) (sk ce)
                    \<lparr>lp_ShardIndex = shardIndex ce, lp_InShardProof = inShardProof (cstate ce), lp_Block = Some block, lp_BlockHash = blkHash,
                     lp_SignedHash = signedHash, lp_LastSeedSig = lastSeedSig, lp_SignedCredential = cred\<rparr>) ce;
                  Some (True, ce)
                }
          }
        })"

text \<open>The body of \<^verbatim>\<open>startAtRound\<close>, without the deferred calls.\<close>

definition startBody :: "('c, 'body) env \<Rightarrow> int \<Rightarrow> ('c, 'body) executor \<Rightarrow> ('c, 'body) executor option" where
  "startBody env round ce =
     (if \<not> isShardEnable (cstate ce) then ce_setCurrentRound env round ce
      else if round = shardStopRound (cstate ce) then do {
        ce \<leftarrow> ce_setCurrentRound env round ce;
        let (n, cs) = setShardAndListenerDisabled (cstate ce);
        Some (emit (NotifyDisabled n) (ce\<lparr>cstate := cs\<rparr>))
      }
      else if shardStatus (cstate ce) \<noteq> shardEnabled then ce_setCurrentRound env round ce
      else do {
        ce \<leftarrow> ce_setCurrentRound env round (emit (StartTimer round) ce);
        r \<leftarrow> generateNewRoundSeed env round ce;
        case r of
          None \<Rightarrow> Some ce
        | Some (lastSeedSig, seed) \<Rightarrow> do {
            lead \<leftarrow> isPotentialLeader seed ce;
            (next, ce) \<leftarrow> (if lead then proposeAtRound env round lastSeedSig seed ce else Some (True, ce));
            Some (if next then ce\<lparr>cstate := snd (setNextStepInRound round 2 (cstate ce))\<rparr> else ce)
          }
      })"

text \<open>The pending messages of the round are put into the queue, by step and then by arrival.\<close>

definition pending_of :: "int \<Rightarrow> ('c, 'body) executor \<Rightarrow> 'body wire_msg list" where
  "pending_of round ce =
     (case getPendingMsg round (pendData ce) of
        None \<Rightarrow> []
      | Some (ms, maxStep) \<Rightarrow> concat (map (\<lambda>step. case ms step of None \<Rightarrow> [] | Some l \<Rightarrow> l) [1..maxStep]))"

definition replayPendingMessage :: "int \<Rightarrow> ('c, 'body) executor \<Rightarrow> ('c, 'body) executor" where
  "replayPendingMessage round ce = ce\<lparr>msgQueue := msgQueue ce @ pending_of round ce\<rparr>"

definition ce_cleanUnusedData :: "int \<Rightarrow> ('c, 'body) executor \<Rightarrow> ('c, 'body) executor" where
  "ce_cleanUnusedData round ce =
     ce\<lparr>pendData := deletePendingMsg round (pendData ce), recvData := rd_cleanUnusedData round (recvData ce)\<rparr>"

definition startAtRound :: "('c, 'body) env \<Rightarrow> int \<Rightarrow> ('c, 'body) executor \<Rightarrow> ('c, 'body) executor option" where
  "startAtRound env round ce =
     map_option (\<lambda>ce. ce_cleanUnusedData round (replayPendingMessage round ce)) (startBody env round ce)"

definition ce_updateShardStatus :: "shardStatus \<Rightarrow> ('c, 'body) executor \<Rightarrow> ('c, 'body) executor" where
  "ce_updateShardStatus status ce = ce\<lparr>cstate := snd (updateShardStatus status (cstate ce))\<rparr>"

definition Start :: "('c, 'body) env \<Rightarrow> ('c, 'body) executor \<Rightarrow> ('c, 'body) executor option" where
  "Start env ce =
     (let ce = ce_updateShardStatus shardEnabled ce in
      if cs_round (cstate ce) = initialRound then startAtRound env startRound ce else Some ce)"

definition StopConsensusAtRound :: "int \<Rightarrow> ('c, 'body) executor \<Rightarrow> ('c, 'body) executor" where
  "StopConsensusAtRound round ce = ce\<lparr>cstate := updateShardStopRound round (cstate ce)\<rparr>"

definition StartConsensusAtRound :: "int \<Rightarrow> ('c, 'body) executor \<Rightarrow> ('c, 'body) executor" where
  "StartConsensusAtRound round ce = ce\<lparr>cstate := updateShardStartRound round (cstate ce)\<rparr>"

definition UpdateInShardProof :: "bytes \<Rightarrow> ('c, 'body) executor \<Rightarrow> ('c, 'body) executor" where
  "UpdateInShardProof prf ce = ce\<lparr>cstate := setInShardProof prf (cstate ce)\<rparr>"

definition ce_RegisterCEShardStateListener :: "('c, 'body) executor \<Rightarrow> ('c, 'body) executor" where
  "ce_RegisterCEShardStateListener ce = ce\<lparr>cstate := registerCEShardStateListener (cstate ce)\<rparr>"

definition startNewRound :: "('c, 'body) env \<Rightarrow> BlockHeader \<Rightarrow> ('c, 'body) executor \<Rightarrow> ('c, 'body) executor option" where
  "startNewRound env header ce = do {
     let round = sint (Height header - 2);
     let lead = (if IsEmptyBlock header then [] else hexEncode (rev (hash env (hd_Pk header))));
     hh \<leftarrow> BlockHeaderHash (hash env) header;
     let ce = emit (ReportBlock \<lparr>sb_round = word_of_int round, sb_leader = lead, prevHash = PrevBlockHeader header, curHash = hh\<rparr>) ce;
     cs \<leftarrow> setRoundSeed round (Seed header) (cstate ce);
     startAtRound env (round + 1) (ce\<lparr>cstate := cs\<rparr>)
   }"

section \<open>Messages of the present round\<close>

definition onReceiveLeaderProposal ::
    "('c, 'body) env \<Rightarrow> int \<Rightarrow> 'body LeaderProposalMessage \<Rightarrow> ('c, 'body) executor \<Rightarrow> ('c, 'body) executor option" where
  "onReceiveLeaderProposal env curRound m ce =
     (if cs_step (cstate ce) > 2 then Some ce
      else do {
        block \<leftarrow> lp_Block m;
        if \<not> VerifyBlock env block (blockchain ce) \<and> sint (Height (Header block)) < curRound + 2 then Some ce
        else do {
          r \<leftarrow> lp_GetRound m;
          let ce = ce\<lparr>recvData := saveBlock r (lp_BlockHash m) block (recvData ce)\<rparr>;
          seed \<leftarrow> calcRoundSeed (hash env) (lp_LastSeedSig m) r;
          if shouldSkipProposal seed ce then Some ce
          else do {
            let ce = ce\<lparr>cstate := setSmallestCredInRound curRound seed (cstate ce)\<rparr>;
            if isCommitteeVerifier env (inShardProof (cstate ce)) (myDepositCache (cstate ce)) then do {
              sc \<leftarrow> lp_SignedCredential m;
              Some (ce\<lparr>gcPreVoter := pbft_addVote
                \<lparr>vt_round = r, voteSignature = Signature sc, votePublicKey = Pk sc, blockHash = lp_BlockHash m, vt_seed = seed, leader = []\<rparr>
                (gcPreVoter ce)\<rparr>)
            } else Some ce
          }
        }
      })"

definition cacheLeaderProposal ::
    "'body LeaderProposalMessage \<Rightarrow> ('c, 'body) executor \<Rightarrow> ('c, 'body) executor option" where
  "cacheLeaderProposal m ce = do {
     block \<leftarrow> lp_Block m;
     r \<leftarrow> lp_GetRound m;
     Some (ce\<lparr>recvData := saveBlock r (lp_BlockHash m) block (cacheBlock (lp_BlockHash m) block (recvData ce))\<rparr>)
   }"

text \<open>The GC message of a node for a value, before it is signed.\<close>

definition gcMessage :: "int \<Rightarrow> ByzAgreementValue \<Rightarrow> ('c, 'body) executor \<Rightarrow> 'body GCMessage" where
  "gcMessage round v ce =
     \<lparr>gc_ShardIndex = shardIndex ce, gc_Seed = [],
      gc_SignedCredential = Some \<lparr>Pk = pk ce, Signature = [], Message = no_msg\<lparr>cm_Credential := Some (NewCredential (word_of_int round) 3)\<rparr>\<rparr>,
      gc_SignedVal = Some \<lparr>Pk = pk ce, Signature = [], Message = no_msg\<lparr>cm_ByzAgreementValue := Some v\<rparr>\<rparr>,
      gc_Block = None, gc_InShardProof = inShardProof (cstate ce)\<rparr>"

definition onReceiveLeaderVote ::
    "('c, 'body) env \<Rightarrow> int \<Rightarrow> 'body LeaderVoteMessage \<Rightarrow> ('c, 'body) executor \<Rightarrow> ('c, 'body) executor option" where
  "onReceiveLeaderVote env curRound m ce =
     (if cs_step (cstate ce) > 3 then Some ce
      else if isCommitteeVerifier env (inShardProof (cstate ce)) (myDepositCache (cstate ce)) then do {
        r \<leftarrow> lv_GetRound m;
        v \<leftarrow> lv_GetByzAgreementValue m;
        v \<leftarrow> v;
        sc \<leftarrow> lv_SignedCredential m;
        let ce = ce\<lparr>gcCommitVoter := pbft_addVote
          \<lparr>vt_round = r, voteSignature = Signature sc, votePublicKey = Pk sc, blockHash = BlockHash v, vt_seed = replicate 32 0, leader = Leader v\<rparr>
          (gcCommitVoter ce)\<rparr>;
        if shardStatus (cstate ce) = shardPreparation then Some ce
        else
          (case generateVoteResult (commitOrder env) (gcCommitVoter ce) of
             None \<Rightarrow> Some ce
           | Some w \<Rightarrow> do {
               ce \<leftarrow> broadcastSigned GC (gc_Sign (vrf env) (sk ce) (gcMessage curRound \<lparr>BlockHash = blockHash w, Leader = leader w\<rparr> ce)) ce;
               Some (emit (GCTimeout curRound 4) (ce\<lparr>cstate := setStepInRound curRound 4 (cstate ce)\<rparr>))
             })
      } else Some ce)"

text \<open>A nil value panics in the voter unless the sender's vote is a duplicate.\<close>

definition onGCMessage ::
    "('c, 'body) env \<Rightarrow> int \<Rightarrow> 'body GCMessage \<Rightarrow> ('c, 'body) executor \<Rightarrow> ('c, 'body) executor option" where
  "onGCMessage env curRound m ce = do {
     msgRound \<leftarrow> gc_GetRound m;
     msgStep \<leftarrow> gc_GetStep m;
     v \<leftarrow> gc_GetByzAgreementValue m;
     let curStep = cs_step (cstate ce);
     if curStep > 4 then Some ce
     else do {
       sc \<leftarrow> gc_SignedCredential m;
       case v of
         None \<Rightarrow> (case pkToPKKey (Pk sc) of None \<Rightarrow> None | Some q \<Rightarrow> if gcHistory (bbaVoter ce) q \<noteq> None then Some ce else None)
       | Some v \<Rightarrow> do {
           ((_, agreeType, haveBroadcast), bv) \<leftarrow> addGCVote msgRound msgStep 0 v (Pk sc) (bbaVoter ce);
           let ce = ce\<lparr>bbaVoter := bv\<rparr>;
           if agreeType \<noteq> totalAgreeOnZero \<or> haveBroadcast then Some ce
           else do {
             let nextB = (if BlockHash v \<noteq> emptyBlockHash then 0 else 1);
             let ce = ce\<lparr>bbaVoter := setResultValue msgRound v (bbaVoter ce), cstate := setStepInRound curRound 4 (cstate ce)\<rparr>;
             msg \<leftarrow> checkVerifierAndGenerateSignedMessage env nextB v curRound 4 ce;
             let ce = ce\<lparr>cstate := snd (setNextStepInRound curRound (curStep + 1) (cstate ce))\<rparr>;
             ce \<leftarrow> broadcastMessage msg None ce;
             Some (emit (BBATimeout curRound (curStep + 1)) ce)
           }
         }
     }
   }"

definition cacheSeed :: "('c, 'body) env \<Rightarrow> MsgSeed \<Rightarrow> ('c, 'body) executor \<Rightarrow> (bytes \<times> ('c, 'body) executor) option" where
  "cacheSeed env m ce = do {
     recvRound \<leftarrow> sd_GetRound m;
     seed \<leftarrow> calcRoundSeed (hash env) (sd_LastSeedSig m) recvRound;
     sender \<leftarrow> GetSender m;
     Some (seed, ce\<lparr>recvData := saveSeed recvRound (hexEncode sender) seed (recvData ce)\<rparr>)
   }"

definition onSeed :: "('c, 'body) env \<Rightarrow> int \<Rightarrow> MsgSeed \<Rightarrow> ('c, 'body) executor \<Rightarrow> ('c, 'body) executor option" where
  "onSeed env curRound m ce = do {
     (seed, ce) \<leftarrow> cacheSeed env m ce;
     Some (if shouldSkipProposal seed ce then ce else ce\<lparr>cstate := setSmallestCredInRound curRound seed (cstate ce)\<rparr>)
   }"

definition toAll :: BroadcastParams where
  "toAll = \<lparr>ToNode = ToAllNode, ToShard = None, IncludeSelf = True\<rparr>"

definition broadcastBBAFinMsg ::
    "('c, 'body) env \<Rightarrow> int \<Rightarrow> int \<Rightarrow> byte \<Rightarrow> BlockHeader \<Rightarrow> ('c, 'body) executor \<Rightarrow> ('c, 'body) executor option" where
  "broadcastBBAFinMsg env round step b blockHeader ce =
     (case (if b = 1 then Some empty_value else getResultValue round (bbaVoter ce)) of
        None \<Rightarrow> Some ce
      | Some v \<Rightarrow> do {
          msg \<leftarrow> checkVerifierAndGenerateSignedMessage env b v round (- step) ce;
          let ce = ce\<lparr>cstate := snd (setNextStepInRound round (step + 1) (cstate ce))\<rparr>;
          ce \<leftarrow> broadcastMessage (Some (HeaderMsg blockHeader)) (Some toAll) ce;
          broadcastMessage msg (Some toAll) ce
        })"

definition maybeBehind :: "('c, 'body) executor \<Rightarrow> ('c, 'body) executor" where
  "maybeBehind ce = (if shardStatus (cstate ce) \<noteq> shardEnabled then ce else emit FallBehind ce)"

definition behindInRound :: "int \<Rightarrow> ('c, 'body) executor \<Rightarrow> ('c, 'body) executor" where
  "behindInRound curRound ce = (if curRound = cs_round (cstate ce) then maybeBehind ce else ce)"

text \<open>The three outcomes of an agreement: the block is accepted, the empty block is, or the next step is voted on.\<close>

definition endOnZero ::
    "('c, 'body) env \<Rightarrow> int \<Rightarrow> int \<Rightarrow> ByzAgreementValue \<Rightarrow> ('c, 'body) executor \<Rightarrow> ('c, 'body) executor option" where
  "endOnZero env curRound step v ce =
     (if getSeed curRound (Leader v) (recvData ce) \<noteq> None \<or> BlockHash v = emptyBlockHash then
        (case getBlock curRound (BlockHash v) (recvData ce) of
           Some block \<Rightarrow>
             (let (err, ch) = AcceptBlock env block (blockchain ce); ce = ce\<lparr>blockchain := ch\<rparr> in
              case err of
                Some e \<Rightarrow> Some (if curRound = cs_round (cstate ce) \<and> e \<noteq> BlockMayBeAccepted then maybeBehind ce else ce)
              | None \<Rightarrow> do {
                  ce \<leftarrow> broadcastBBAFinMsg env curRound step 0 (Header block) ce;
                  startNewRound env (Header block) ce
                })
         | None \<Rightarrow> Some (behindInRound curRound ce))
      else Some (behindInRound curRound ce))"

definition endOnOne :: "('c, 'body) env \<Rightarrow> int \<Rightarrow> int \<Rightarrow> ('c, 'body) executor \<Rightarrow> ('c, 'body) executor option" where
  "endOnOne env curRound step ce =
     (let (header, ch) = ProposeAndAcceptEmptyBlock env (word_of_int (curRound + 2)) (blockchain ce); ce = ce\<lparr>blockchain := ch\<rparr> in
      case header of
        None \<Rightarrow> Some ce
      | Some emptyBlockHeader \<Rightarrow> do {
          ce \<leftarrow> broadcastBBAFinMsg env curRound step 1 emptyBlockHeader ce;
          startNewRound env emptyBlockHeader ce
        })"

definition voteNextStep ::
    "('c, 'body) env \<Rightarrow> int \<Rightarrow> int \<Rightarrow> int \<Rightarrow> resultType \<Rightarrow> ('c, 'body) executor \<Rightarrow> ('c, 'body) executor option" where
  "voteNextStep env curRound step keyStep agreeType ce =
     (let newB = (if agreeType = agreeOnOne then 1 else 0) in
      case getResultValue curRound (bbaVoter ce) of
        None \<Rightarrow> Some ce
      | Some bbaValue \<Rightarrow> do {
          msg \<leftarrow> checkVerifierAndGenerateSignedMessage env newB bbaValue curRound (keyStep + 1) ce;
          let ce = ce\<lparr>cstate := snd (setNextStepInRound curRound (step + 1) (cstate ce))\<rparr>;
          ce \<leftarrow> broadcastMessage msg None ce;
          Some (emit (BBATimeout curRound (step + 1)) ce)
        })"

definition bbaMaxStep :: int where
  "bbaMaxStep = 50"

definition onBinaryBA ::
    "('c, 'body) env \<Rightarrow> int \<Rightarrow> MsgBinaryBA \<Rightarrow> ('c, 'body) executor \<Rightarrow> ('c, 'body) executor option" where
  "onBinaryBA env curRound m ce = do {
     let curStep = cs_step (cstate ce);
     round \<leftarrow> bba_GetRound m;
     step \<leftarrow> bba_GetStep m;
     v \<leftarrow> bba_GetByzAgreementValue m;
     b \<leftarrow> bba_GetBValue m;
     let v = (if b = 1 then empty_value else v);
     ((vkey, agreeType, haveBroadcast), bv) \<leftarrow> addVoteWithBBAMsg round step b v m (bbaVoter ce);
     let ce = ce\<lparr>bbaVoter := bv\<rparr>;
     case vkey of
       None \<Rightarrow> Some ce
     | Some k \<Rightarrow>
         if haveBroadcast then Some ce
         else if (vk_step k - 1) smod 3 = 0 \<and> agreeType = totalAgreeOnZero then endOnZero env curRound step v ce
         else if curStep > bbaMaxStep \<or> ((vk_step k - 1) smod 3 = 1 \<and> agreeType = agreeOnOne) then endOnOne env curRound step ce
         else if vk_step k < 0 then Some ce
         else voteNextStep env curRound step (vk_step k) agreeType ce
   }"

section \<open>Timeouts\<close>

definition leaderVoteMessage :: "int \<Rightarrow> ByzAgreementValue \<Rightarrow> ('c, 'body) executor \<Rightarrow> 'body LeaderVoteMessage" where
  "leaderVoteMessage round v ce =
     \<lparr>lv_ShardIndex = shardIndex ce, lv_InShardProof = inShardProof (cstate ce),
      lv_SignedVal = Some \<lparr>Pk = pk ce, Signature = [], Message = no_msg\<lparr>cm_ByzAgreementValue := Some v\<rparr>\<rparr>,
      lv_Block = None,
      lv_SignedCredential = Some \<lparr>Pk = pk ce, Signature = [], Message = no_msg\<lparr>cm_Credential := Some (NewCredential (word_of_int round) 2)\<rparr>\<rparr>\<rparr>"

definition onTimeout :: "('c, 'body) env \<Rightarrow> int \<Rightarrow> int \<Rightarrow> ('c, 'body) executor \<Rightarrow> ('c, 'body) executor option" where
  "onTimeout env round step ce =
     (if round \<noteq> cs_round (cstate ce) then Some ce
      else if step = 1 then
        (let v = (case generateVoteResult (commitOrder env) (gcPreVoter ce) of
                    Some w \<Rightarrow> \<lparr>BlockHash = blockHash w, Leader = hexEncode (votePublicKey w)\<rparr>
                  | None \<Rightarrow> empty_value)
         in broadcastSigned LeaderVote (lv_Sign (vrf env) (sk ce) (leaderVoteMessage round v ce)) ce)
      else if step = 2 then
        (if cs_step (cstate ce) > 3 then Some ce
         else do {
           ce \<leftarrow> broadcastSigned GC (gc_Sign (vrf env) (sk ce) (gcMessage round empty_value ce)) ce;
           Some (emit (GCTimeout round 4) (ce\<lparr>cstate := setStepInRound round 4 (cstate ce)\<rparr>))
         })
      else Some ce)"

definition onGCLastStepTimeout :: "('c, 'body) env \<Rightarrow> int \<Rightarrow> int \<Rightarrow> ('c, 'body) executor \<Rightarrow> ('c, 'body) executor option" where
  "onGCLastStepTimeout env round step ce =
     (if cs_round (cstate ce) = round \<and> cs_step (cstate ce) = step then do {
        let v = (case getVoteKeyWithHalfThreshold (valueOrder env) (bbaVoter ce) of
                   None \<Rightarrow> \<lparr>BlockHash = emptyBlockHash, Leader = []\<rparr> | Some (_, v) \<Rightarrow> v);
        let ce = ce\<lparr>bbaVoter := setResultValue round v (bbaVoter ce)\<rparr>;
        msg \<leftarrow> checkVerifierAndGenerateSignedMessage env 1 v round step ce;
        let ce = ce\<lparr>cstate := snd (setNextStepInRound round (step + 1) (cstate ce))\<rparr>;
        ce \<leftarrow> broadcastMessage msg None ce;
        Some (emit (BBATimeout round (step + 1)) ce)
      } else Some ce)"

definition onBBATimeoutForNextStep :: "('c, 'body) env \<Rightarrow> int \<Rightarrow> int \<Rightarrow> ('c, 'body) executor \<Rightarrow> ('c, 'body) executor option" where
  "onBBATimeoutForNextStep env round step ce =
     (if cs_round (cstate ce) = round \<and> cs_step (cstate ce) = step then
        (let fixValue = (if (step - 1) smod 3 = 0 then 0 else if (step - 1) smod 3 = 1 then 1 else randBit env) in
         case getResultValue round (bbaVoter ce) of
           None \<Rightarrow> Some ce
         | Some bbaValue \<Rightarrow> do {
             msg \<leftarrow> checkVerifierAndGenerateSignedMessage env fixValue bbaValue round step ce;
             let ce = ce\<lparr>cstate := snd (setNextStepInRound round (step + 1) (cstate ce))\<rparr>;
             ce \<leftarrow> broadcastMessage msg None ce;
             Some (emit (BBATimeout round (step + 1)) ce)
           })
      else Some ce)"

section \<open>Other messages, filter and dispatch\<close>

text \<open>The comparison is of \<^verbatim>\<open>int(Height - 1)\<close> with the round.\<close>

definition onMsgBlockConfirmationInShardPreparation ::
    "('c, 'body) env \<Rightarrow> int \<Rightarrow> MsgBlockConfirmation \<Rightarrow> ('c, 'body) executor \<Rightarrow> ('c, 'body) executor option" where
  "onMsgBlockConfirmationInShardPreparation env curRound m ce = do {
     header \<leftarrow> bc_Header m;
     let nextRound = sint (Height header - 1);
     if curRound = nextRound then Some ce
     else do {
       (failed, ch) \<leftarrow>
         (if IsEmptyBlock header then
            (let (h, ch) = ProposeAndAcceptEmptyBlock env (Height header) (blockchain ce) in Some (h = None, ch))
          else do {
            hh \<leftarrow> BlockHeaderHash (hash env) header;
            case reloadBlock hh (recvData ce) of
              None \<Rightarrow> Some (True, blockchain ce)
            | Some block \<Rightarrow> (let (err, ch) = AcceptBlock env block (blockchain ce) in Some (err \<noteq> None, ch))
          });
       ce \<leftarrow> ce_setCurrentRound env (nextRound - 1) (ce\<lparr>blockchain := ch\<rparr>);
       if failed then Some ce
       else if nextRound \<ge> shardStartRound (cstate ce) then
         (let ce = ce_updateShardStatus shardEnabled ce
          in startNewRound env header (ce\<lparr>recvData := cleanCacheBlock (recvData ce)\<rparr>))
       else Some ce
     }
   }"

datatype handleType = ignore | handleMsg | handleOtherStateMsg

definition isStateValid :: "int \<Rightarrow> 'body wire_msg \<Rightarrow> ('c, 'body) executor \<Rightarrow> handleType option" where
  "isStateValid curRound msg ce =
     map_option
       (\<lambda>r. if r < curRound \<or> shardStatus (cstate ce) = shardDisabled then ignore
             else if r > curRound \<or> shardStatus (cstate ce) = shardPreparation then handleOtherStateMsg
             else handleMsg) (GetRound msg)"

definition verifyMiner :: "('c, 'body) env \<Rightarrow> bytes \<Rightarrow> bool" where
  "verifyMiner env pk0 = Has env pk0"

definition isInShard :: "('c, 'body) env \<Rightarrow> 'body wire_msg \<Rightarrow> ('c, 'body) executor \<Rightarrow> bool" where
  "isInShard env msg ce =
     (list_all (\<lambda>prf. IsInShard (bound53 env) prf (myDepositCache (cstate ce))) (GetInShardProofs msg) \<and> GetInShardProofs msg \<noteq> [])"

definition isValidated :: "('c, 'body) env \<Rightarrow> 'body wire_msg \<Rightarrow> bool option" where
  "isValidated env msg = do {
     miner \<leftarrow> (if Command msg \<noteq> CmdMsgBlockConfirmation
               then map_option (\<lambda>sc. verifyMiner env (Pk sc)) (GetSignedCredential msg) else Some True);
     if \<not> miner then Some False
     else map_option (\<lambda>r. r = Inr ()) (IsValidated (hash env) (vrf env) msg)
   }"

definition msgFilter :: "('c, 'body) env \<Rightarrow> int \<Rightarrow> 'body wire_msg \<Rightarrow> ('c, 'body) executor \<Rightarrow> handleType option" where
  "msgFilter env curRound msg ce = do {
     msgType \<leftarrow> isStateValid curRound msg ce;
     if msgType = ignore then Some ignore
     else if \<not> isInShard env msg ce then Some ignore
     else do {
       valid \<leftarrow> isValidated env msg;
       Some (if valid then msgType else ignore)
     }
   }"

fun handleNewMessage :: "('c, 'body) env \<Rightarrow> int \<Rightarrow> 'body wire_msg \<Rightarrow> ('c, 'body) executor \<Rightarrow> ('c, 'body) executor option" where
  "handleNewMessage env curRound (LeaderProposal m) ce = onReceiveLeaderProposal env curRound m ce"
| "handleNewMessage env curRound (LeaderVote m) ce = onReceiveLeaderVote env curRound m ce"
| "handleNewMessage env curRound (GC m) ce = onGCMessage env curRound m ce"
| "handleNewMessage env curRound (BinaryBA m) ce = onBinaryBA env curRound m ce"
| "handleNewMessage env curRound (SeedMsg m) ce = onSeed env curRound m ce"
| "handleNewMessage env curRound (BinaryBAFin _) ce = Some ce"
| "handleNewMessage env curRound (BlockConfirmation _) ce = Some ce"
| "handleNewMessage env curRound (HeaderMsg _) ce = Some ce"

definition savePending :: "'body wire_msg \<Rightarrow> ('c, 'body) executor \<Rightarrow> ('c, 'body) executor option" where
  "savePending msg ce = do {
     r \<leftarrow> GetRound msg;
     s \<leftarrow> GetStep msg;
     sc \<leftarrow> GetSignedCredential msg;
     Some (ce\<lparr>pendData := saveMsg r s (Pk sc) msg (pendData ce)\<rparr>)
   }"

fun handleOtherStateMessage ::
    "('c, 'body) env \<Rightarrow> int \<Rightarrow> 'body wire_msg \<Rightarrow> ('c, 'body) executor \<Rightarrow> ('c, 'body) executor option" where
  "handleOtherStateMessage env curRound (BlockConfirmation m) ce = onMsgBlockConfirmationInShardPreparation env curRound m ce"
| "handleOtherStateMessage env curRound (SeedMsg m) ce = map_option snd (cacheSeed env m ce)"
| "handleOtherStateMessage env curRound (LeaderProposal m) ce = cacheLeaderProposal m ce"
| "handleOtherStateMessage env curRound (LeaderVote m) ce = savePending (LeaderVote m) ce"
| "handleOtherStateMessage env curRound (GC m) ce = savePending (GC m) ce"
| "handleOtherStateMessage env curRound (BinaryBA m) ce = savePending (BinaryBA m) ce"
| "handleOtherStateMessage env curRound (BinaryBAFin m) ce = savePending (BinaryBAFin m) ce"
| "handleOtherStateMessage env curRound (HeaderMsg h) ce = savePending (HeaderMsg h) ce"

definition dispatchHandleMessage :: "('c, 'body) env \<Rightarrow> 'body wire_msg \<Rightarrow> ('c, 'body) executor \<Rightarrow> ('c, 'body) executor option" where
  "dispatchHandleMessage env msg ce = do {
     let curRound = cs_round (cstate ce);
     t \<leftarrow> msgFilter env curRound msg ce;
     case t of
       ignore \<Rightarrow> Some ce
     | handleMsg \<Rightarrow> handleNewMessage env curRound msg ce
     | handleOtherStateMsg \<Rightarrow> handleOtherStateMessage env curRound msg ce
   }"

text \<open>The subscriber to the end of the ledger's initialization (\<^verbatim>\<open>sync_listener.go\<close>).\<close>

definition onInitFinished :: "('c, 'body) env \<Rightarrow> int \<Rightarrow> ('c, 'body) executor \<Rightarrow> ('c, 'body) executor option" where
  "onInitFinished env shardHeight ce =
     (let curRound = cs_round (cstate ce); nextRnd = shardHeight - 1 in
      if shardStatus (cstate ce) = shardDisabled then
        (if IsOneOfFirstMiners env \<and> shardHeight = 1 then Some (ce_updateShardStatus shardEnabled ce)
         else if curRound > nextRnd then Some ce
         else ce_setCurrentRound env nextRnd (ce_updateShardStatus shardPreparation ce))
      else Some ce)"

end
