(* ===== verification/ExecutorSafety.thy ===== *)
theory ExecutorSafety
imports Executor
begin

text \<open>
  Safety of the consensus executor. \<open>post\<close> is partial correctness for the handlers, which may panic; \<open>ce_inv\<close> is the invariant
  that every handler keeps; \<open>node_step\<close> interleaves the handler threads, the timers and the control calls of a node; and
  \<open>reachable\<close> are the nodes that the steps lead to from a new executor. The properties say what holds of every reachable node,
  and which blocks it hands to its chain.
\<close>

section \<open>The invariant\<close>

text \<open>The rounds of the three voters and of the state are the same once the first round has begun; the ring buffer keeps
  a seed in the slot of its round; a received block is stored under the hash of its header.\<close>

definition synced :: "('c, 'body) executor \<Rightarrow> bool" where
  "synced ce \<longleftrightarrow>
     (let r = cs_round (cstate ce) in
      (bbv_round (bbaVoter ce) = r \<and> pv_round (gcPreVoter ce) = r \<and> pv_round (gcCommitVoter ce) = r) \<or>
      (r = initialRound \<and> bbv_round (bbaVoter ce) = 1 \<and> pv_round (gcPreVoter ce) = 1 \<and> pv_round (gcCommitVoter ce) = 1))"

definition ring_ok :: "consensusState \<Rightarrow> bool" where
  "ring_ok cs \<longleftrightarrow>
     length (preRoundS cs) = 10 \<and>
     (\<forall>i < 10. case preRoundS cs ! i of None \<Rightarrow> True | Some p \<Rightarrow> nat (pre_round p mod 10) = i)"

definition blocks_ok :: "hash_fun \<Rightarrow> 'body receivedData \<Rightarrow> bool" where
  "blocks_ok H rd \<longleftrightarrow>
     (\<forall>r h b. getBlock r h rd = Some b \<longrightarrow> BlockHeaderHash H (Header b) = Some h) \<and>
     (\<forall>h b. reloadBlock h rd = Some b \<longrightarrow> BlockHeaderHash H (Header b) = Some h)"

definition kinds_ok :: "('c, 'body) executor \<Rightarrow> bool" where
  "kinds_ok ce \<longleftrightarrow>
     voteType (gcPreVoter ce) = leaderProposalVoteType \<and> voteType (gcCommitVoter ce) = leaderCommitVoteType \<and>
     length (leaderRates (sortitionor ce)) = GenesisNumberOfShards"

text \<open>A ballot of the voter comes from a message that the node received and that passed the filter. \<open>casts msg z\<close> says that the
  message casts the ballot \<open>z\<close>; \<open>sound ms x\<close> says that the ballots of a box were cast by messages of \<open>ms\<close>, and that no voter
  has two of them at one key, nor two in the graded consensus of the round.\<close>

fun casts :: "'body wire_msg \<Rightarrow> ballot \<Rightarrow> bool" where
  "casts (BinaryBA m) (k, v, q) \<longleftrightarrow>
     voter_pk m = Some q \<and> bba_GetRound m = Some (vk_round k) \<and> bba_GetStep m = Some (vk_step k) \<and> bba_GetBValue m = Some (vk_b k) \<and>
     (if vk_b k = 1 then v = empty_value else bba_GetByzAgreementValue m = Some v)"
| "casts (GC m) (k, v, q) \<longleftrightarrow>
     Option.bind (gc_SignedCredential m) (\<lambda>sc. pkToPKKey (Pk sc)) = Some q \<and> gc_GetRound m = Some (vk_round k) \<and>
     gc_GetStep m = Some (vk_step k) \<and> vk_b k = 0 \<and> gc_GetByzAgreementValue m = Some (Some v)"
| "casts _ _ \<longleftrightarrow> False"

definition sound :: "'body wire_msg list \<Rightarrow> box \<Rightarrow> bool" where
  "sound ms x \<longleftrightarrow>
     list_all (\<lambda>z. list_ex (\<lambda>m. casts m z) ms) (ballots x) \<and>
     distinct (map (\<lambda>(k, v, q). (k, q)) (bba x)) \<and> distinct (map (\<lambda>(k, v, q). q) (gc x))"

definition boxed :: "'body wire_msg list \<Rightarrow> binaryBAVoter \<Rightarrow> bool" where
  "boxed ms bv \<longleftrightarrow> (\<exists>x. box_of bv x \<and> sound ms x)"

definition ce_inv :: "hash_fun \<Rightarrow> 'body wire_msg list \<Rightarrow> ('c, 'body) executor \<Rightarrow> bool" where
  "ce_inv H ms ce \<longleftrightarrow>
     synced ce \<and> ring_ok (cstate ce) \<and> blocks_ok H (recvData ce) \<and> kinds_ok ce \<and> boxed ms (bbaVoter ce)"

text \<open>\<open>keeps ce ce'\<close>: a part of a handler that leaves alone what the invariant speaks of.\<close>

definition keeps :: "('c, 'body) executor \<Rightarrow> ('c, 'body) executor \<Rightarrow> bool" where
  "keeps ce ce' \<longleftrightarrow>
     cs_round (cstate ce') = cs_round (cstate ce) \<and> preRoundS (cstate ce') = preRoundS (cstate ce) \<and>
     bbv_round (bbaVoter ce') = bbv_round (bbaVoter ce) \<and> pv_round (gcPreVoter ce') = pv_round (gcPreVoter ce) \<and>
     pv_round (gcCommitVoter ce') = pv_round (gcCommitVoter ce) \<and> voteType (gcPreVoter ce') = voteType (gcPreVoter ce) \<and>
     voteType (gcCommitVoter ce') = voteType (gcCommitVoter ce) \<and> sortitionor ce' = sortitionor ce \<and> recvData ce' = recvData ce \<and>
     result (bbaVoter ce') = result (bbaVoter ce) \<and> bbaHistory (bbaVoter ce') = bbaHistory (bbaVoter ce) \<and>
     gcHistory (bbaVoter ce') = gcHistory (bbaVoter ce)"

lemma box_of_cong:
  "result bv' = result bv \<Longrightarrow> bbaHistory bv' = bbaHistory bv \<Longrightarrow> gcHistory bv' = gcHistory bv \<Longrightarrow> box_of bv' x = box_of bv x"
  by (simp add: box_of_def voted_def)

lemma boxed_cong:
  "result bv' = result bv \<Longrightarrow> bbaHistory bv' = bbaHistory bv \<Longrightarrow> gcHistory bv' = gcHistory bv \<Longrightarrow> boxed ms bv' = boxed ms bv"
  using box_of_cong [of bv' bv] by (simp add: boxed_def)

lemma sound_mono: "sound ms x \<Longrightarrow> set ms \<subseteq> set ms' \<Longrightarrow> sound ms' x"
  unfolding sound_def list_all_iff list_ex_iff by blast

lemma sound_next_round: "sound ms x \<Longrightarrow> sound ms (next_round r x)"
  by (auto simp: sound_def next_round_def Let_def list_all_iff ballots_def distinct_map intro: inj_on_subset)

lemma boxed_setCurrentRound: "boxed ms bv \<Longrightarrow> boxed ms (bba_setCurrentRound r bv)"
  using SetRound_refines sound_next_round unfolding boxed_def by blast

lemma boxed_new: "boxed ms (newBinaryBAVoter r t)"
  using box_of_new [of r t] by (force simp: boxed_def sound_def empty_box_def ballots_def)

text \<open>What a vote does to the box, and the agreement it reports.\<close>

lemma addVoteWithBBAMsg_box:
  assumes "boxed ms bv" "addVoteWithBBAMsg r s b v m bv = Some (a, bv')" "BinaryBA m \<in> set ms"
    and "\<And>q. voter_pk m = Some q \<Longrightarrow> casts (BinaryBA m :: 'body wire_msg) (key r s b, v, q)"
  shows "\<exists>x. box_of bv' x \<and> sound (ms :: 'body wire_msg list) x \<and> (a = (None, notAgree, False) \<or> a = decide (threshold bv) (key r s b) v (ballots x))"
proof -
  obtain x where x: "box_of bv x" "sound ms x" using assms(1) by (auto simp: boxed_def)
  obtain x' where x': "box_step (threshold bv) (AddBBA r s b v m) x = Some (a, x')" "box_of bv' x'" using AddBBA_refines [OF x(1) assms(2)] by blast
  then obtain q where q: "voter_pk m = Some q" "cast_bba (threshold bv) (key r s b, v, q) x = (a, x')" by auto
  show ?thesis
  proof (cases "(key r s b, q) \<in> voters (bba x)")
    case True
    then show ?thesis using q x x'(2) by (auto simp: cast_bba_def)
  next
    case False
    then have "x' = x\<lparr>bba := (key r s b, v, q) # bba x\<rparr>" "a = decide (threshold bv) (key r s b) v (ballots x')"
      using q(2) by (auto simp: cast_bba_def Let_def)
    moreover have "list_ex (\<lambda>m. casts m (key r s b, v, q)) ms" using assms(3,4) q(1) unfolding list_ex_iff by blast
    ultimately have "sound ms x'" using x(2) False by (auto simp: sound_def ballots_def voters_def)
    then show ?thesis using x'(2) \<open>a = _\<close> by blast
  qed
qed

lemma addGCVote_box:
  assumes "boxed ms bv" "addGCVote r s 0 v p bv = Some (a, bv')" "GC m \<in> set ms"
    and "\<And>q. pkToPKKey p = Some q \<Longrightarrow> casts (GC m :: 'body wire_msg) (key r s 0, v, q)"
  shows "boxed (ms :: 'body wire_msg list) bv'"
proof -
  obtain x where x: "box_of bv x" "sound ms x" using assms(1) by (auto simp: boxed_def)
  obtain x' where x': "box_step (threshold bv) (AddGC r s 0 v p) x = Some (a, x')" "box_of bv' x'" using AddGC_refines [OF x(1) assms(2)] by blast
  then obtain q where q: "pkToPKKey p = Some q" "cast_gc (threshold bv) (key r s 0, v, q) x = (a, x')" by auto
  show ?thesis
  proof (cases "q \<in> snd ` voters (gc x)")
    case True
    then show ?thesis using q x x'(2) by (auto simp: cast_gc_def boxed_def)
  next
    case False
    then have "x' = x\<lparr>gc := (key r s 0, v, q) # gc x\<rparr>" using q(2) by (auto simp: cast_gc_def Let_def)
    moreover have "list_ex (\<lambda>m. casts m (key r s 0, v, q)) ms" using assms(3,4) q(1) unfolding list_ex_iff by blast
    moreover have "q \<notin> (\<lambda>(k, v, q). q) ` set (gc x)" using False by (force simp: voters_def)
    ultimately have "sound ms x'" using x(2) by (auto simp: sound_def ballots_def)
    then show ?thesis using x'(2) by (auto simp: boxed_def)
  qed
qed

lemma keeps_refl [simp]: "keeps ce ce"
  by (simp add: keeps_def)

lemma keeps_trans [trans]: "keeps a b \<Longrightarrow> keeps b c \<Longrightarrow> keeps a c"
  by (simp add: keeps_def)

lemma keeps_inv: "keeps ce ce' \<Longrightarrow> ce_inv H ms ce \<Longrightarrow> ce_inv H ms ce'"
  using boxed_cong [of "bbaVoter ce'" "bbaVoter ce" ms] by (simp add: keeps_def ce_inv_def synced_def ring_ok_def kinds_ok_def Let_def)

lemma bba_addVote_frame [frame]:
  "bba_addVote r s b v bv = (a, bv') \<Longrightarrow> bbv_round bv' = bbv_round bv \<and> resRound bv' = resRound bv \<and> resultValue bv' = resultValue bv"
  by (auto simp: bba_addVote_def Let_def)

lemma addVoteWithBBAMsg_frame [frame]:
  "addVoteWithBBAMsg r s b v m bv = Some (a, bv') \<Longrightarrow> bbv_round bv' = bbv_round bv \<and> resRound bv' = resRound bv \<and> resultValue bv' = resultValue bv"
  by (auto simp: addVoteWithBBAMsg_eq record_vote_def dest!: bba_addVote_frame split: if_splits)

lemma addGCVote_frame [frame]:
  "addGCVote r s b v q bv = Some (a, bv') \<Longrightarrow> bbv_round bv' = bbv_round bv \<and> resRound bv' = resRound bv \<and> resultValue bv' = resultValue bv"
  by (auto simp: addGCVote_def dest!: bba_addVote_frame split: option.splits if_splits)

lemma setResultValue_frame [simp]: "bbv_round (setResultValue r v bv) = bbv_round bv" "result (setResultValue r v bv) = result bv"
  "bbaHistory (setResultValue r v bv) = bbaHistory bv" "gcHistory (setResultValue r v bv) = gcHistory bv" "threshold (setResultValue r v bv) = threshold bv"
  by (simp_all add: setResultValue_def)

lemma pbft_addVote_frame [simp]:
  "pv_round (pbft_addVote v voter) = pv_round voter" "voteType (pbft_addVote v voter) = voteType voter"
  by (simp_all add: pbft_addVote_def addPreVote_def addPreCommit_def Let_def split: option.splits)

lemma step_frame [simp]:
  "cs_round (setStepInRound r s cs) = cs_round cs" "preRoundS (setStepInRound r s cs) = preRoundS cs"
  "cs_round (snd (setNextStepInRound r s cs)) = cs_round cs" "preRoundS (snd (setNextStepInRound r s cs)) = preRoundS cs"
  "cs_round (setSmallestCredInRound r c cs) = cs_round cs" "preRoundS (setSmallestCredInRound r c cs) = preRoundS cs"
  by (simp_all add: setStepInRound_def setNextStepInRound_def setSmallestCredInRound_def)

lemma keeps_emit [simp]: "keeps ce (emit e ce)"
  by (simp add: keeps_def emit_def)

lemma keeps_broadcastMessage: "broadcastMessage m par ce = Some ce' \<Longrightarrow> keeps ce ce'"
  by (auto simp: broadcastMessage_def)

lemma keeps_broadcastSigned: "broadcastSigned w r ce = Some ce' \<Longrightarrow> keeps ce ce'"
  by (auto simp: broadcastSigned_def split: option.splits sum.splits dest: keeps_broadcastMessage)

lemma keeps_updates [simp]:
  "keeps ce (ce\<lparr>cstate := setStepInRound r s (cstate ce)\<rparr>)"
  "keeps ce (ce\<lparr>cstate := snd (setNextStepInRound r s (cstate ce))\<rparr>)"
  "keeps ce (ce\<lparr>cstate := setSmallestCredInRound r c (cstate ce)\<rparr>)"
  "keeps ce (ce\<lparr>gcPreVoter := pbft_addVote v (gcPreVoter ce)\<rparr>)"
  "keeps ce (ce\<lparr>gcCommitVoter := pbft_addVote v (gcCommitVoter ce)\<rparr>)"
  "keeps ce (ce\<lparr>bbaVoter := setResultValue r w (bbaVoter ce)\<rparr>)"
  "keeps ce (ce\<lparr>blockchain := ch\<rparr>)"
  "keeps ce (ce\<lparr>pendData := pd\<rparr>)"
  "keeps ce (ce\<lparr>msgQueue := q\<rparr>)"
  by (simp_all add: keeps_def)

lemma keeps_maybeBehind [simp]: "keeps ce (maybeBehind ce)" "keeps ce (behindInRound r ce)"
  by (simp_all add: maybeBehind_def behindInRound_def)

section \<open>Starting rounds\<close>

definition at_round :: "int \<Rightarrow> ('c, 'body) executor \<Rightarrow> bool" where
  "at_round r ce \<longleftrightarrow> cs_round (cstate ce) = r \<and> bbv_round (bbaVoter ce) = r \<and> pv_round (gcPreVoter ce) = r \<and> pv_round (gcCommitVoter ce) = r"

lemma keeps_at_round: "keeps ce ce' \<Longrightarrow> at_round r ce \<Longrightarrow> at_round r ce'"
  by (simp add: keeps_def at_round_def)

lemma at_round_synced: "at_round r ce \<Longrightarrow> synced ce"
  by (simp add: at_round_def synced_def)

lemma setCurrentRound_at:
  assumes "ce_setCurrentRound env r ce = Some ce'"
  shows "at_round r ce'" "cs_step (cstate ce') = 1" "preRoundS (cstate ce') = preRoundS (cstate ce)" "recvData ce' = recvData ce"
    "kinds_ok ce \<Longrightarrow> kinds_ok ce'" "blockchain ce' = blockchain ce" "threshold (bbaVoter ce') = threshold_of (PerceivedCount env)"
  using assms
  by (auto simp: ce_setCurrentRound_def ce_setThreshold_def at_round_def Let_def pbft_setThreshold_def pbft_setCurrentRound_def
      bba_setThreshold_def bba_setCurrentRound_def setRound_def kinds_ok_def SetLeaderRate_def split: if_splits)

lemma setCurrentRound_boxed:
  assumes "ce_setCurrentRound env r ce = Some ce'" "boxed ms (bbaVoter ce)"
  shows "boxed ms (bbaVoter ce')"
proof -
  have "bbaVoter ce' = bba_setThreshold (threshold_of (PerceivedCount env)) (bba_setCurrentRound r (bbaVoter ce))"
    using assms(1) by (auto simp: ce_setCurrentRound_def ce_setThreshold_def Let_def split: option.splits)
  then show ?thesis using boxed_setCurrentRound [OF assms(2), of r] boxed_cong [of "bbaVoter ce'" "bba_setCurrentRound r (bbaVoter ce)" ms]
    by (simp add: bba_setThreshold_def)
qed

lemma setCurrentRound_inv:
  assumes "ce_setCurrentRound env r ce = Some ce'" "ce_inv H ms ce"
  shows "ce_inv H ms ce' \<and> at_round r ce'"
  using setCurrentRound_at [OF assms(1)] setCurrentRound_boxed [OF assms(1), of ms] assms(2) at_round_synced [of r ce'] by (simp add: ce_inv_def ring_ok_def)

lemma keeps_proposeAtRound: "post (proposeAtRound env r sig seed ce) (\<lambda>(n, ce'). keeps ce ce')"
  unfolding proposeAtRound_def Let_def
  by (intro post_rules) (auto dest!: keeps_broadcastSigned simp: keeps_def)

lemma ce_inv_status: "ce_inv H ms ce \<Longrightarrow> ce_inv H ms (ce\<lparr>cstate := (cstate ce)\<lparr>shardStatus := s\<rparr>\<rparr>)"
  by (rule keeps_inv [rotated]) (simp_all add: keeps_def)

lemma startBody_inv:
  fixes ce :: "('c, 'body) executor"
  assumes "ce_inv H ms ce"
  shows "post (startBody env r ce) (\<lambda>ce'. ce_inv H ms ce' \<and> at_round r ce')"
proof -
  have a: "ce_inv H ms ce' \<and> at_round r ce'" if "ce_setCurrentRound env r (emit e ce) = Some ce1" "keeps ce1 ce'" for e ce1 ce'
    using setCurrentRound_inv [OF that(1) keeps_inv [OF keeps_emit assms]] that(2) keeps_inv keeps_at_round by blast
  have b: "ce_inv H ms ce' \<and> at_round r ce'" if "ce_setCurrentRound env r ce = Some ce1" "keeps ce1 ce'" for ce1 ce'
    using setCurrentRound_inv [OF that(1) assms] that(2) keeps_inv keeps_at_round by blast
  have d: "keeps ce1 (emit e (ce1\<lparr>cstate := (cstate ce1)\<lparr>shardStatus := s\<rparr>\<rparr>))" for e s and ce1 :: "('c, 'body) executor"
    by (simp add: keeps_def emit_def)
  have p: "post (if lead then proposeAtRound env r sig seed ce1 else Some (True, ce1))
             (\<lambda>(n, ce2). keeps ce1 (if n then ce2\<lparr>cstate := snd (setNextStepInRound r 2 (cstate ce2))\<rparr> else ce2))" for lead sig seed ce1
    using keeps_proposeAtRound [of env r sig seed ce1] by (auto simp: post_def keeps_def)
  show ?thesis
    unfolding startBody_def Let_def setShardAndListenerDisabled_def prod.case
    apply (intro post_rules)
    subgoal by (rule postI, erule b) simp
    subgoal by (erule b, rule d)
    subgoal by (rule postI, erule b) simp
    subgoal by (erule a, rule keeps_refl)
    subgoal by (erule a, drule postD [OF p]) simp
    done
qed

lemma blocks_ok_clean:
  assumes "blocks_ok H rd"
  shows "blocks_ok H (rd_cleanUnusedData r rd)"
proof -
  have "reloadBlock h (rd_cleanUnusedData r rd) = reloadBlock h rd" for h by (simp add: reloadBlock_def rd_cleanUnusedData_def)
  moreover have "BlockHeaderHash H (Header b) = Some h" if "getBlock q h (rd_cleanUnusedData r rd) = Some b" for q h b
    by (rule blocks.all_clean [OF _ that]) (use assms in \<open>simp add: blocks_ok_def\<close>)
  ultimately show ?thesis using assms by (simp add: blocks_ok_def)
qed

lemma startAtRound_inv:
  assumes "ce_inv H ms ce"
  shows "post (startAtRound env r ce) (\<lambda>ce'. ce_inv H ms ce' \<and> at_round r ce')"
  unfolding startAtRound_def
  by (intro post_rules, drule postD [OF startBody_inv [OF assms]])
    (simp add: ce_inv_def ce_cleanUnusedData_def replayPendingMessage_def at_round_def synced_def kinds_ok_def blocks_ok_clean)

lemma setRoundSeed_ring:
  assumes "setRoundSeed r s cs = Some cs'" "ring_ok cs"
  shows "ring_ok cs'" "cs_round cs' = cs_round cs"
  using assms by (auto simp: setRoundSeed_def ring_ok_def Let_def nth_list_update split: if_splits option.splits)

lemma startNewRound_inv:
  assumes "ce_inv H ms ce"
  shows "post (startNewRound env h ce) (\<lambda>ce'. ce_inv H ms ce' \<and> at_round (sint (Height h - 2) + 1) ce')"
proof -
  have "ce_inv H ms ((emit e ce)\<lparr>cstate := cs\<rparr>)" if "setRoundSeed (sint (Height h - 2)) (Seed h) (cstate (emit e ce)) = Some cs" for e cs
    using assms setRoundSeed_ring [OF that] by (simp add: ce_inv_def emit_def synced_def kinds_ok_def)
  then show ?thesis unfolding startNewRound_def Let_def by (intro post_rules startAtRound_inv)
qed

section \<open>The handlers keep the invariant\<close>

lemma reload_frame [simp]: "reloadBlock h (saveBlock r h' b rd) = reloadBlock h rd" "getBlock r h (cacheBlock h' b rd) = getBlock r h rd"
  "getBlock r h (saveSeed r' p q rd) = getBlock r h rd" "reloadBlock h (saveSeed r' p q rd) = reloadBlock h rd"
  "getBlock r h (cleanCacheBlock rd) = getBlock r h rd" "reloadBlock h (cleanCacheBlock rd) = None"
  by (simp_all add: reloadBlock_def saveBlock_def getBlock_def cacheBlock_def saveSeed_def cleanCacheBlock_def)

lemma ce_inv_blocks: "ce_inv H ms ce \<Longrightarrow> blocks_ok H (recvData ce)"
  by (simp add: ce_inv_def)

lemma ce_inv_recvData: "ce_inv H ms ce \<Longrightarrow> blocks_ok H rd \<Longrightarrow> ce_inv H ms (ce\<lparr>recvData := rd\<rparr>)"
  by (simp add: ce_inv_def synced_def kinds_ok_def)

lemma blocks_ok_save: "blocks_ok H rd \<Longrightarrow> BlockHeaderHash H (Header b) = Some h \<Longrightarrow> blocks_ok H (saveBlock r h b rd)"
  by (simp add: blocks_ok_def blocks.lookup_save)

lemma blocks_ok_cache: "blocks_ok H rd \<Longrightarrow> BlockHeaderHash H (Header b) = Some h \<Longrightarrow> blocks_ok H (cacheBlock h b rd)"
  by (auto simp: blocks_ok_def reloadBlock_def cacheBlock_def getBlock_def)

lemma blocks_ok_seed: "blocks_ok H rd \<Longrightarrow> blocks_ok H (saveSeed r p q rd)" "blocks_ok H rd \<Longrightarrow> blocks_ok H (cleanCacheBlock rd)"
  by (simp_all add: blocks_ok_def)

definition lp_hashed :: "hash_fun \<Rightarrow> 'body LeaderProposalMessage \<Rightarrow> bool" where
  "lp_hashed H m \<longleftrightarrow> (\<forall>b. lp_Block m = Some b \<longrightarrow> BlockHeaderHash H (Header b) = Some (lp_BlockHash m))"

lemma lp_IsValidated_hashed: "lp_IsValidated H V m = Some (Inr ()) \<Longrightarrow> lp_hashed H m"
  by (auto simp: lp_IsValidated_def lp_hashed_def then_check_def split: option.splits sum.splits if_splits)

lemma saveBlock_inv:
  "ce_inv H ms ce \<Longrightarrow> lp_hashed H m \<Longrightarrow> lp_Block m = Some b \<Longrightarrow> ce_inv H ms (ce\<lparr>recvData := saveBlock r (lp_BlockHash m) b (recvData ce)\<rparr>)"
  by (simp add: lp_hashed_def ce_inv_recvData blocks_ok_save ce_inv_blocks)

lemma onReceiveLeaderProposal_inv:
  assumes "ce_inv H ms ce" "lp_hashed H m"
  shows "post (onReceiveLeaderProposal env r m ce) (ce_inv H ms)"
  unfolding onReceiveLeaderProposal_def Let_def
  apply (intro post_rules)
  subgoal by (rule assms(1))
  subgoal by (rule assms(1))
  subgoal by (rule saveBlock_inv [OF assms])
  subgoal by (erule keeps_inv [OF _ saveBlock_inv [OF assms], rotated]) (simp add: keeps_def)
  subgoal by (erule keeps_inv [OF _ saveBlock_inv [OF assms], rotated]) (simp add: keeps_def)
  done

lemma cacheLeaderProposal_inv:
  assumes "ce_inv H ms ce" "lp_hashed H m"
  shows "post (cacheLeaderProposal m ce) (ce_inv H ms)"
  unfolding cacheLeaderProposal_def
  by (intro post_rules ce_inv_recvData blocks_ok_save blocks_ok_cache) (use assms in \<open>auto simp: lp_hashed_def ce_inv_blocks\<close>)

lemma onReceiveLeaderVote_inv: "ce_inv H ms ce \<Longrightarrow> post (onReceiveLeaderVote env r m ce) (ce_inv H ms)"
proof -
  assume a: "ce_inv H ms ce"
  show ?thesis unfolding onReceiveLeaderVote_def Let_def
    by (intro post_rules) (auto intro!: keeps_inv [OF _ a] dest!: keeps_broadcastSigned simp: keeps_def emit_def)
qed

lemma cacheSeed_inv: "ce_inv H ms ce \<Longrightarrow> post (cacheSeed env m ce) (\<lambda>p. ce_inv H ms (snd p))"
  unfolding cacheSeed_def by (intro post_rules) (simp add: ce_inv_recvData blocks_ok_seed ce_inv_blocks)

lemma onSeed_inv: "ce_inv H ms ce \<Longrightarrow> post (onSeed env r m ce) (ce_inv H ms)"
  unfolding onSeed_def
  by (intro post_rules, drule postD [OF cacheSeed_inv], assumption) (simp add: keeps_inv [OF keeps_updates(3)])

lemma ce_inv_voter:
  "ce_inv H ms ce \<Longrightarrow> boxed ms bv \<Longrightarrow> bbv_round bv = bbv_round (bbaVoter ce) \<Longrightarrow> ce_inv H ms (ce\<lparr>bbaVoter := bv\<rparr>)"
  by (simp add: ce_inv_def synced_def kinds_ok_def)

lemma ce_inv_boxed: "ce_inv H ms ce \<Longrightarrow> boxed ms (bbaVoter ce)"
  by (simp add: ce_inv_def)

lemma gc_casts:
  "gc_GetRound m = Some r \<Longrightarrow> gc_GetStep m = Some s \<Longrightarrow> gc_GetByzAgreementValue m = Some (Some v) \<Longrightarrow> gc_SignedCredential m = Some sc \<Longrightarrow>
     pkToPKKey (Pk sc) = Some q \<Longrightarrow> casts (GC m) (key r s 0, v, q)"
  by simp

lemma onGCMessage_inv:
  assumes "ce_inv H ms ce" "GC m \<in> set ms"
  shows "post (onGCMessage env r m ce) (ce_inv H ms)"
proof -
  have g: "ce_inv H ms (ce\<lparr>bbaVoter := bv\<rparr>)"
    if "gc_GetRound m = Some q" "gc_GetStep m = Some s" "gc_GetByzAgreementValue m = Some (Some v)" "gc_SignedCredential m = Some sc"
      "addGCVote q s 0 v (Pk sc) (bbaVoter ce) = Some (a, bv)" for q s v sc a bv
    using addGCVote_box [OF ce_inv_boxed [OF assms(1)] that(5) assms(2) gc_casts [OF that(1-4)]] addGCVote_frame [OF that(5)] assms(1)
    by (simp add: ce_inv_voter)
  have k: "ce_inv H ms (emit (BBATimeout r t) ce3)"
    if "ce_inv H ms (ce\<lparr>bbaVoter := bv\<rparr>)" "broadcastMessage msg None (ce\<lparr>bbaVoter := setResultValue q v bv,
          cstate := snd (setNextStepInRound r t (setStepInRound r 4 (cstate ce)))\<rparr>) = Some ce3" for bv q v t ce3 msg
    by (rule keeps_inv [OF _ that(1)]) (use keeps_broadcastMessage [OF that(2)] in \<open>simp add: keeps_def emit_def\<close>)
  show ?thesis unfolding onGCMessage_def Let_def
    by (intro post_rules) (auto intro: assms(1) g k)
qed

lemma keeps_broadcastBBAFinMsg: "post (broadcastBBAFinMsg env r s b h ce) (keeps ce)"
  unfolding broadcastBBAFinMsg_def Let_def
proof (intro post_rules keeps_refl postI)
  fix v msg ce2 ce3
  assume "broadcastMessage (Some (HeaderMsg h)) (Some toAll) (ce\<lparr>cstate := snd (setNextStepInRound r (s + 1) (cstate ce))\<rparr>) = Some ce2"
    "broadcastMessage msg (Some toAll) ce2 = Some ce3"
  then show "keeps ce ce3" by (blast intro: keeps_trans keeps_updates(2) keeps_broadcastMessage)
qed

lemma endOnZero_inv:
  assumes "ce_inv H ms ce"
  shows "post (endOnZero env r s v ce) (ce_inv H ms)"
proof -
  have "post (startNewRound env h ce') (ce_inv H ms)" if "broadcastBBAFinMsg env r s 0 h (ce\<lparr>blockchain := ch\<rparr>) = Some ce'" for h ce' ch
    using startNewRound_inv [OF keeps_inv [OF postD [OF keeps_broadcastBBAFinMsg that] keeps_inv [OF keeps_updates(7) assms]]]
    by (simp add: post_def)
  then show ?thesis unfolding endOnZero_def Let_def
    by (intro post_rules) (auto intro!: keeps_inv [OF _ assms] simp: maybeBehind_def behindInRound_def keeps_def emit_def)
qed

lemma endOnOne_inv:
  assumes "ce_inv H ms ce"
  shows "post (endOnOne env r s ce) (ce_inv H ms)"
proof -
  have "post (startNewRound env h ce') (ce_inv H ms)" if "broadcastBBAFinMsg env r s 1 h (ce\<lparr>blockchain := ch\<rparr>) = Some ce'" for h ce' ch
    using startNewRound_inv [OF keeps_inv [OF postD [OF keeps_broadcastBBAFinMsg that] keeps_inv [OF keeps_updates(7) assms]]]
    by (simp add: post_def)
  then show ?thesis unfolding endOnOne_def Let_def
    by (intro post_rules) (auto intro!: keeps_inv [OF _ assms] simp: keeps_def)
qed

lemma voteNextStep_inv:
  assumes "ce_inv H ms ce"
  shows "post (voteNextStep env r s t a ce) (ce_inv H ms)"
  unfolding voteNextStep_def Let_def
  by (intro post_rules) (auto intro!: keeps_inv [OF _ assms] dest!: keeps_broadcastMessage simp: keeps_def emit_def)

lemma bba_casts:
  "bba_GetRound m = Some r \<Longrightarrow> bba_GetStep m = Some s \<Longrightarrow> bba_GetBValue m = Some b \<Longrightarrow> bba_GetByzAgreementValue m = Some v \<Longrightarrow>
     voter_pk m = Some q \<Longrightarrow> casts (BinaryBA m) (key r s b, if b = 1 then empty_value else v, q)"
  by simp

lemma onBinaryBA_inv:
  assumes "ce_inv H ms ce" "BinaryBA m \<in> set ms"
  shows "post (onBinaryBA env r m ce) (ce_inv H ms)"
proof -
  have g: "ce_inv H ms (ce\<lparr>bbaVoter := bv\<rparr>)"
    if "bba_GetRound m = Some q" "bba_GetStep m = Some s" "bba_GetByzAgreementValue m = Some v" "bba_GetBValue m = Some b"
      "addVoteWithBBAMsg q s b (if b = 1 then empty_value else v) m (bbaVoter ce) = Some (a, bv)" for q s v b a bv
    using addVoteWithBBAMsg_box [OF ce_inv_boxed [OF assms(1)] that(5) assms(2) bba_casts [OF that(1,2,4,3)]] addVoteWithBBAMsg_frame [OF that(5)] assms(1)
    by (auto intro!: ce_inv_voter simp: boxed_def)
  show ?thesis unfolding onBinaryBA_def Let_def
    by (intro post_rules endOnZero_inv endOnOne_inv voteNextStep_inv) (auto intro: g)
qed

lemma onTimeout_inv:
  assumes "ce_inv H ms ce"
  shows "post (onTimeout env r s ce) (ce_inv H ms)"
  unfolding onTimeout_def Let_def
  by (intro post_rules postI) (auto intro!: keeps_inv [OF _ assms] dest!: keeps_broadcastSigned simp: keeps_def emit_def)

lemma onGCLastStepTimeout_inv:
  assumes "ce_inv H ms ce"
  shows "post (onGCLastStepTimeout env r s ce) (ce_inv H ms)"
  unfolding onGCLastStepTimeout_def Let_def
  by (intro post_rules) (auto intro!: keeps_inv [OF _ assms] dest!: keeps_broadcastMessage simp: keeps_def emit_def)

lemma onBBATimeoutForNextStep_inv:
  assumes "ce_inv H ms ce"
  shows "post (onBBATimeoutForNextStep env r s ce) (ce_inv H ms)"
  unfolding onBBATimeoutForNextStep_def Let_def
  by (intro post_rules) (auto intro!: keeps_inv [OF _ assms] dest!: keeps_broadcastMessage simp: keeps_def emit_def)

lemma updateShardStatus_frame [simp]:
  "cs_round (snd (updateShardStatus s cs)) = cs_round cs" "preRoundS (snd (updateShardStatus s cs)) = preRoundS cs"
  by (simp_all add: updateShardStatus_def split: shardStatus.splits)

lemma keeps_controls [simp]:
  "keeps ce (ce_updateShardStatus s ce)" "keeps ce (StopConsensusAtRound r ce)" "keeps ce (StartConsensusAtRound r ce)"
  "keeps ce (UpdateInShardProof p ce)" "keeps ce (ce_RegisterCEShardStateListener ce)"
  by (simp_all add: keeps_def ce_updateShardStatus_def StopConsensusAtRound_def StartConsensusAtRound_def UpdateInShardProof_def
      ce_RegisterCEShardStateListener_def updateShardStopRound_def updateShardStartRound_def setInShardProof_def registerCEShardStateListener_def)

lemma onMsgBlockConfirmationInShardPreparation_inv:
  assumes "ce_inv H ms ce"
  shows "post (onMsgBlockConfirmationInShardPreparation env r m ce) (ce_inv H ms)"
proof -
  have c: "ce_inv H ms ce1" if "ce_setCurrentRound env q (ce\<lparr>blockchain := ch\<rparr>) = Some ce1" for q ch ce1
    using setCurrentRound_inv [OF that keeps_inv [OF keeps_updates(7) assms]] by blast
  have "ce_inv H ms ((ce_updateShardStatus s ce1)\<lparr>recvData := cleanCacheBlock (recvData (ce_updateShardStatus s ce1))\<rparr>)" if "ce_inv H ms ce1" for s ce1
  proof -
    have x: "ce_inv H ms (ce_updateShardStatus s ce1)" by (rule keeps_inv [OF keeps_controls(1) that])
    show ?thesis by (rule ce_inv_recvData [OF x blocks_ok_seed(2) [OF ce_inv_blocks [OF x]]])
  qed
  then have n: "post (startNewRound env h ((ce_updateShardStatus s ce1)\<lparr>recvData := cleanCacheBlock (recvData (ce_updateShardStatus s ce1))\<rparr>)) (ce_inv H ms)"
    if "ce_inv H ms ce1" for h s ce1
    using startNewRound_inv that by (fastforce simp: post_def)
  show ?thesis unfolding onMsgBlockConfirmationInShardPreparation_def Let_def
    by (intro post_rules n) (auto intro: assms c)
qed

lemma Start_inv: "ce_inv H ms ce \<Longrightarrow> post (Start env ce) (ce_inv H ms)"
  unfolding Start_def Let_def
  by (intro post_rules postI) (auto dest!: postD [OF startAtRound_inv, rotated] intro: keeps_inv [OF keeps_controls(1)])

lemma onInitFinished_inv: "ce_inv H ms ce \<Longrightarrow> post (onInitFinished env h ce) (ce_inv H ms)"
  unfolding onInitFinished_def Let_def
  by (intro post_rules postI) (auto dest!: setCurrentRound_inv intro: keeps_inv [OF keeps_controls(1)])

lemma savePending_inv: "ce_inv H ms ce \<Longrightarrow> post (savePending msg ce) (ce_inv H ms)"
  unfolding savePending_def by (intro post_rules) (rule keeps_inv [OF keeps_updates(8)])

lemma handleNewMessage_inv:
  assumes "ce_inv H ms ce" "msg \<in> set ms" "IsValidated H V msg = Some (Inr ())"
  shows "post (handleNewMessage env r msg ce) (ce_inv H ms)"
  using assms
  by (cases msg)
    (auto intro: post_Some onReceiveLeaderProposal_inv lp_IsValidated_hashed onReceiveLeaderVote_inv onGCMessage_inv onBinaryBA_inv onSeed_inv)

lemma handleOtherStateMessage_inv:
  assumes "ce_inv H ms ce" "IsValidated H V msg = Some (Inr ())"
  shows "post (handleOtherStateMessage env r msg ce) (ce_inv H ms)"
  using assms
  by (cases msg)
    (auto intro!: post_map intro: cacheLeaderProposal_inv lp_IsValidated_hashed savePending_inv onMsgBlockConfirmationInShardPreparation_inv
      dest: postD [OF cacheSeed_inv])

lemma newExecutor_inv: "length (leaderRates sel) = GenesisNumberOfShards \<Longrightarrow> ce_inv H ms (newExecutor abci sel p q thr i)"
  using boxed_new by (simp add: ce_inv_def newExecutor_def synced_def newPbftVoter_def newBinaryBAVoter_def newConsensusState_def setDepositCache_def
      initialRound_def ring_ok_def blocks_ok_def newReceivedData_def getBlock_def get2_def reloadBlock_def kinds_ok_def)

section \<open>A node and its threads\<close>

text \<open>The four handler threads of \<^verbatim>\<open>Init\<close> take messages from the queue: a thread reads the round, filters the message, and then
  handles it, while other threads and timers change the executor. A node is an executor, the messages that have passed the
  filter and are not yet handled, each with the round its thread has read, and all messages that ever passed. A handler is one
  step. The environment may be a different one at every step, with the same hash function and VRF. A message may be any
  message, since anyone may send it; the round may be any, since it was read earlier.\<close>

record ('c, 'body) node =
  exec :: "('c, 'body) executor"
  inflight :: "(int \<times> handleType \<times> 'body wire_msg) list"
  passed :: "'body wire_msg list"

inductive node_step :: "hash_fun \<Rightarrow> VRF \<Rightarrow> ('c, 'body) node \<Rightarrow> ('c, 'body) node \<Rightarrow> bool" for H V where
  filtered: "hash env = H \<Longrightarrow> vrf env = V \<Longrightarrow> msgFilter env r msg (exec n) = Some t \<Longrightarrow> t \<noteq> ignore \<Longrightarrow>
    node_step H V n (n\<lparr>inflight := inflight n @ [(r, t, msg)], passed := passed n @ [msg]\<rparr>)"
| handledNew: "hash env = H \<Longrightarrow> vrf env = V \<Longrightarrow> (r, handleMsg, msg) \<in> set (inflight n) \<Longrightarrow> handleNewMessage env r msg (exec n) = Some ce \<Longrightarrow>
    node_step H V n (n\<lparr>exec := ce, inflight := remove1 (r, handleMsg, msg) (inflight n)\<rparr>)"
| handledOther: "hash env = H \<Longrightarrow> vrf env = V \<Longrightarrow> (r, handleOtherStateMsg, msg) \<in> set (inflight n) \<Longrightarrow> handleOtherStateMessage env r msg (exec n) = Some ce \<Longrightarrow>
    node_step H V n (n\<lparr>exec := ce, inflight := remove1 (r, handleOtherStateMsg, msg) (inflight n)\<rparr>)"
| roundTimer: "hash env = H \<Longrightarrow> vrf env = V \<Longrightarrow> onTimeout env r s (exec n) = Some ce \<Longrightarrow> node_step H V n (n\<lparr>exec := ce\<rparr>)"
| gcTimer: "hash env = H \<Longrightarrow> vrf env = V \<Longrightarrow> onGCLastStepTimeout env r s (exec n) = Some ce \<Longrightarrow> node_step H V n (n\<lparr>exec := ce\<rparr>)"
| bbaTimer: "hash env = H \<Longrightarrow> vrf env = V \<Longrightarrow> onBBATimeoutForNextStep env r s (exec n) = Some ce \<Longrightarrow> node_step H V n (n\<lparr>exec := ce\<rparr>)"
| started: "hash env = H \<Longrightarrow> vrf env = V \<Longrightarrow> Start env (exec n) = Some ce \<Longrightarrow> node_step H V n (n\<lparr>exec := ce\<rparr>)"
| initialized: "hash env = H \<Longrightarrow> vrf env = V \<Longrightarrow> onInitFinished env h (exec n) = Some ce \<Longrightarrow> node_step H V n (n\<lparr>exec := ce\<rparr>)"
| stopAt: "node_step H V n (n\<lparr>exec := StopConsensusAtRound r (exec n)\<rparr>)"
| startAt: "node_step H V n (n\<lparr>exec := StartConsensusAtRound r (exec n)\<rparr>)"
| newProof: "node_step H V n (n\<lparr>exec := UpdateInShardProof p (exec n)\<rparr>)"
| newListener: "node_step H V n (n\<lparr>exec := ce_RegisterCEShardStateListener (exec n)\<rparr>)"

inductive reachable :: "hash_fun \<Rightarrow> VRF \<Rightarrow> ('c, 'body) node \<Rightarrow> bool" for H V where
  new: "NewSortitionor e l = Some sel \<Longrightarrow> reachable H V \<lparr>exec = newExecutor abci sel p q thr i, inflight = [], passed = []\<rparr>"
| step: "reachable H V n \<Longrightarrow> node_step H V n n' \<Longrightarrow> reachable H V n'"

definition node_inv :: "hash_fun \<Rightarrow> VRF \<Rightarrow> ('c, 'body) node \<Rightarrow> bool" where
  "node_inv H V n \<longleftrightarrow>
     ce_inv H (passed n) (exec n) \<and>
     list_all (\<lambda>(r, t, msg). msg \<in> set (passed n)) (inflight n) \<and>
     list_all (\<lambda>msg. IsValidated H V msg = Some (Inr ())) (passed n)"

lemma msgFilter_validated:
  "msgFilter env r msg ce = Some t \<Longrightarrow> t \<noteq> ignore \<Longrightarrow> IsValidated (hash env) (vrf env) msg = Some (Inr ())"
  by (auto simp: msgFilter_def isValidated_def Some_bind split: if_split_asm)

lemma ce_inv_mono: "ce_inv H ms ce \<Longrightarrow> set ms \<subseteq> set ms' \<Longrightarrow> ce_inv H ms' ce"
  by (auto simp: ce_inv_def boxed_def intro: sound_mono)

lemma node_inv_exec: "node_inv H V n \<Longrightarrow> ce_inv H (passed n) ce \<Longrightarrow> node_inv H V (n\<lparr>exec := ce\<rparr>)"
  by (simp add: node_inv_def)

lemma list_all_remove1: "list_all P xs \<Longrightarrow> list_all P (remove1 x xs)"
  by (simp add: list_all_iff) (meson notin_set_remove1)

lemma node_inv_handled: "node_inv H V n \<Longrightarrow> ce_inv H (passed n) ce \<Longrightarrow> node_inv H V (n\<lparr>exec := ce, inflight := remove1 x (inflight n)\<rparr>)"
  by (simp add: node_inv_def list_all_remove1)

lemma node_invD:
  assumes "node_inv H V n"
  shows "ce_inv H (passed n) (exec n)" "(r, t, msg) \<in> set (inflight n) \<Longrightarrow> msg \<in> set (passed n)"
    "(r, t, msg) \<in> set (inflight n) \<Longrightarrow> IsValidated H V msg = Some (Inr ())"
  using assms by (auto simp: node_inv_def list_all_iff)

lemma node_step_inv: "node_step H V n n' \<Longrightarrow> node_inv H V n \<Longrightarrow> node_inv H V n'"
proof (induction rule: node_step.induct)
  case (filtered env r msg n t)
  have "ce_inv H (passed n @ [msg]) (exec n)" by (rule ce_inv_mono [OF node_invD(1) [OF filtered(5)]]) auto
  moreover have "IsValidated H V msg = Some (Inr ())" using msgFilter_validated [OF filtered(3,4)] filtered(1,2) by simp
  ultimately show ?case using filtered(5) by (auto simp: node_inv_def list_all_iff)
next
  case (handledNew env r msg n ce)
  then show ?case by (intro node_inv_handled) (auto intro: postD [OF handleNewMessage_inv] node_invD)
next
  case (handledOther env r msg n ce)
  then show ?case by (intro node_inv_handled) (auto intro: postD [OF handleOtherStateMessage_inv] node_invD)
qed (auto intro!: node_inv_exec intro: node_invD(1) keeps_inv [OF keeps_controls(2)] keeps_inv [OF keeps_controls(3)]
    keeps_inv [OF keeps_controls(4)] keeps_inv [OF keeps_controls(5)] postD [OF onTimeout_inv] postD [OF onGCLastStepTimeout_inv]
    postD [OF onBBATimeoutForNextStep_inv] postD [OF Start_inv] postD [OF onInitFinished_inv])

lemma reachable_inv: "reachable H V n \<Longrightarrow> node_inv H V n"
proof (induction rule: reachable.induct)
  case (new e l sel abci p q thr i)
  then have "length (leaderRates sel) = GenesisNumberOfShards" by (auto simp: NewSortitionor_def split: if_splits)
  then show ?case by (simp add: node_inv_def newExecutor_inv)
next
  case (step n n')
  then show ?case using node_step_inv by blast
qed

section \<open>Which blocks reach the chain\<close>

text \<open>The chain and the keys of a node. \<open>chains env ce ch\<close> are the states of the chain after a new round may have been started.\<close>

definition chain_of :: "('c, 'body) executor \<Rightarrow> 'c \<times> bytes \<times> bytes" where
  "chain_of ce = (blockchain ce, pk ce, sk ce)"

definition chains :: "('c, 'body) env \<Rightarrow> ('c, 'body) executor \<Rightarrow> 'c \<Rightarrow> 'c set" where
  "chains env ce ch = {ch, snd (ProposeBlock env (pk ce) (sk ce) ch)}"

lemma chain_of_emit [simp]: "chain_of (emit e ce) = chain_of ce"
  by (simp add: chain_of_def emit_def)

lemma chain_of_upd [simp]:
  "chain_of (ce\<lparr>cstate := x1\<rparr>) = chain_of ce" "chain_of (ce\<lparr>bbaVoter := x2\<rparr>) = chain_of ce" "chain_of (ce\<lparr>recvData := x3\<rparr>) = chain_of ce"
  "chain_of (ce\<lparr>pendData := x4\<rparr>) = chain_of ce" "chain_of (ce\<lparr>msgQueue := x5\<rparr>) = chain_of ce"
  by (simp_all add: chain_of_def)

lemma chain_of_broadcastMessage: "broadcastMessage m par ce = Some ce' \<Longrightarrow> chain_of ce' = chain_of ce"
  by (auto simp: broadcastMessage_def)

lemma chain_of_broadcastSigned: "broadcastSigned w r ce = Some ce' \<Longrightarrow> chain_of ce' = chain_of ce"
  by (auto simp: broadcastSigned_def split: option.splits sum.splits dest: chain_of_broadcastMessage)

lemma chain_of_setCurrentRound: "ce_setCurrentRound env r ce = Some ce' \<Longrightarrow> chain_of ce' = chain_of ce"
  by (auto simp: ce_setCurrentRound_def ce_setThreshold_def Let_def chain_of_def split: option.splits)

lemma chain_of_broadcastBBAFinMsg: "post (broadcastBBAFinMsg env r s b h ce) (\<lambda>ce'. chain_of ce' = chain_of ce)"
  unfolding broadcastBBAFinMsg_def Let_def
  by (intro post_rules postI) (auto dest!: chain_of_broadcastMessage)

lemma chain_of_cong: "chain_of ce' = chain_of ce \<Longrightarrow> chains env ce' = chains env ce"
  by (auto simp: chain_of_def chains_def)

lemma chain_proposeAtRound: "post (proposeAtRound env r sig seed ce) (\<lambda>(n, ce'). blockchain ce' \<in> chains env ce (blockchain ce))"
  unfolding proposeAtRound_def Let_def
  by (intro post_rules) (auto dest!: chain_of_broadcastSigned simp: chain_of_def chains_def)

lemma chain_startBody: "post (startBody env r ce) (\<lambda>ce'. blockchain ce' \<in> chains env ce (blockchain ce))"
proof -
  have c: "blockchain ce1 \<in> chains env ce (blockchain ce)" if "chain_of ce1 = chain_of ce" for ce1
    using that by (simp add: chain_of_def chains_def)
  have p: "post (if lead then proposeAtRound env r sig seed ce1 else Some (True, ce1)) (\<lambda>(n, ce2). blockchain ce2 \<in> chains env ce (blockchain ce))"
    if "chain_of ce1 = chain_of ce" for lead sig seed ce1
    using chain_proposeAtRound [of env r sig seed ce1] chain_of_cong [OF that] that by (auto simp: post_def chain_of_def intro: c)
  show ?thesis unfolding startBody_def Let_def setShardAndListenerDisabled_def prod.case
    apply (intro post_rules)
    subgoal by (rule postI) (simp add: c chain_of_setCurrentRound)
    subgoal by (rule c) (simp add: chain_of_setCurrentRound)
    subgoal by (rule postI) (simp add: c chain_of_setCurrentRound)
    subgoal by (rule c) (simp add: chain_of_setCurrentRound)
    subgoal by (drule chain_of_setCurrentRound, drule postD [OF p, rotated]) simp_all
    done
qed

lemma chain_startNewRound: "post (startNewRound env h ce) (\<lambda>ce'. blockchain ce' \<in> chains env ce (blockchain ce))"
proof -
  have "post (startAtRound env r ((emit e ce)\<lparr>cstate := cs\<rparr>)) (\<lambda>ce'. blockchain ce' \<in> chains env ce (blockchain ce))" for r e cs
    using chain_startBody [of env r "(emit e ce)\<lparr>cstate := cs\<rparr>"]
    by (auto simp: post_def startAtRound_def ce_cleanUnusedData_def replayPendingMessage_def emit_def chains_def)
  then show ?thesis unfolding startNewRound_def Let_def by (intro post_rules)
qed

lemma chain_endOnZero:
  "post (endOnZero env r s v ce) (\<lambda>ce'. blockchain ce' = blockchain ce \<or>
     (\<exists>b. getBlock r (BlockHash v) (recvData ce) = Some b \<and> blockchain ce' \<in> chains env ce (snd (AcceptBlock env b (blockchain ce)))))"
proof -
  have "post (startNewRound env h ce') (\<lambda>ce''. blockchain ce'' \<in> chains env ce ch)"
    if "broadcastBBAFinMsg env r s 0 h (ce\<lparr>blockchain := ch\<rparr>) = Some ce'" for h ce' ch
    using chain_startNewRound [of env h ce'] postD [OF chain_of_broadcastBBAFinMsg that] by (simp add: chain_of_def chains_def post_def)
  then show ?thesis unfolding endOnZero_def Let_def
    by (intro post_rules) (auto simp: maybeBehind_def behindInRound_def emit_def chains_def post_def)
qed

lemma chain_endOnOne:
  "post (endOnOne env r s ce) (\<lambda>ce'. blockchain ce' \<in> chains env ce (snd (ProposeAndAcceptEmptyBlock env (word_of_int (r + 2)) (blockchain ce))))"
proof -
  have "post (startNewRound env h ce') (\<lambda>ce''. blockchain ce'' \<in> chains env ce ch)"
    if "broadcastBBAFinMsg env r s 1 h (ce\<lparr>blockchain := ch\<rparr>) = Some ce'" for h ce' ch
    using chain_startNewRound [of env h ce'] postD [OF chain_of_broadcastBBAFinMsg that] by (simp add: chain_of_def chains_def post_def)
  then show ?thesis unfolding endOnOne_def Let_def
    by (intro post_rules) (auto simp: chains_def post_def)
qed

lemma chain_voteNextStep: "post (voteNextStep env r s t a ce) (\<lambda>ce'. blockchain ce' = blockchain ce)"
  unfolding voteNextStep_def Let_def
  by (intro post_rules) (auto dest!: chain_of_broadcastMessage simp: chain_of_def emit_def)

text \<open>A quorum: a box whose ballots were cast by the messages \<open>ms\<close>, with at least \<open>t\<close> ballots for a value at a key, or at least
  \<open>t\<close> for any values.\<close>

definition quorum_for :: "'body wire_msg list \<Rightarrow> int \<Rightarrow> voteKey \<Rightarrow> ByzAgreementValue \<Rightarrow> bool" where
  "quorum_for ms t k v \<longleftrightarrow> (\<exists>x. sound ms x \<and> t \<le> int (total_for k v (ballots x)))"

definition quorum_at :: "'body wire_msg list \<Rightarrow> int \<Rightarrow> voteKey \<Rightarrow> bool" where
  "quorum_at ms t k \<longleftrightarrow> (\<exists>x. sound ms x \<and> t \<le> int (total_at k (ballots x)))"

lemma total_for_le: "total_for k v bs \<le> total_at k bs"
  unfolding total_for_def total_at_def by (intro add_mono sum_list_mono votes_for_le)

lemma decide_quorum:
  assumes "sound ms x" "a = (None, notAgree, False) \<or> a = decide t k v (ballots x)" "fst a = Some k'"
  shows "k' = k \<and> quorum_at ms t k \<and> (fst (snd a) = totalAgreeOnZero \<longrightarrow> vk_b k = 0 \<and> quorum_for ms t k v) \<and> (fst (snd a) = agreeOnOne \<longrightarrow> vk_b k \<noteq> 0)"
proof -
  have "quorum_at ms t k" if "t \<le> int (total_for k v (ballots x)) \<or> t \<le> int (total_at k (ballots x))"
    using that total_for_le [of k v "ballots x"] assms(1) unfolding quorum_at_def by (meson of_nat_mono order_trans)
  then show ?thesis using assms by (auto simp: decide_def quorum_for_def split: if_splits)
qed

lemma bba_vote_quorum:
  fixes ms :: "'body wire_msg list"
  assumes inv: "boxed ms bv" "BinaryBA m \<in> set ms"
    and m: "bba_GetRound m = Some q" "bba_GetStep m = Some s" "bba_GetBValue m = Some b" "bba_GetByzAgreementValue m = Some w"
    and v: "v = (if b = 1 then empty_value else w)"
    and add: "addVoteWithBBAMsg q s b v m bv = Some ((Some k, t, h), bv')"
  shows "\<exists>p. casts (BinaryBA m :: 'body wire_msg) (k, v, p)" "quorum_at ms (threshold bv) k"
    "t = totalAgreeOnZero \<Longrightarrow> vk_b k = 0 \<and> quorum_for ms (threshold bv) k v" "t = agreeOnOne \<Longrightarrow> vk_b k \<noteq> 0"
proof -
  have c: "casts (BinaryBA m :: 'body wire_msg) (key q s b, v, p)" if "voter_pk m = Some p" for p
    using bba_casts [OF m that] v by simp
  obtain x where "sound ms x" "(Some k, t, h) = (None, notAgree, False) \<or> (Some k, t, h) = decide (threshold bv) (key q s b) v (ballots x)"
    using addVoteWithBBAMsg_box [OF inv(1) add inv(2) c] by blast
  from decide_quorum [OF this, of k]
  have d: "k = key q s b" "quorum_at ms (threshold bv) k" "t = totalAgreeOnZero \<longrightarrow> vk_b k = 0 \<and> quorum_for ms (threshold bv) k v"
      "t = agreeOnOne \<longrightarrow> vk_b k \<noteq> 0" by auto
  obtain p where "voter_pk m = Some p" using add by (auto simp: addVoteWithBBAMsg_eq)
  then show "\<exists>p. casts (BinaryBA m :: 'body wire_msg) (k, v, p)" using c d(1) by blast
  show "quorum_at ms (threshold bv) k" "t = totalAgreeOnZero \<Longrightarrow> vk_b k = 0 \<and> quorum_for ms (threshold bv) k v" "t = agreeOnOne \<Longrightarrow> vk_b k \<noteq> 0"
    using d by auto
qed

lemma onBinaryBA_chain:
  fixes ce :: "('c, 'body) executor"
  assumes inv: "ce_inv H ms ce" "BinaryBA m \<in> set ms"
  shows "post (onBinaryBA env r m ce) (\<lambda>ce'. blockchain ce' = blockchain ce \<or>
    (\<exists>k v q. casts (BinaryBA m :: 'body wire_msg) (k, v, q) \<and>
      (vk_b k = 0 \<and> quorum_for ms (threshold (bbaVoter ce)) k v \<and>
         (\<exists>b. getBlock r (BlockHash v) (recvData ce) = Some b \<and> blockchain ce' \<in> chains env ce (snd (AcceptBlock env b (blockchain ce)))) \<or>
       (vk_b k \<noteq> 0 \<or> cs_step (cstate ce) > bbaMaxStep) \<and> quorum_at ms (threshold (bbaVoter ce)) k \<and>
         blockchain ce' \<in> chains env ce (snd (ProposeAndAcceptEmptyBlock env (word_of_int (r + 2)) (blockchain ce))))))"
    (is "post _ ?P")
proof -
  note q = bba_vote_quorum [OF ce_inv_boxed [OF inv(1)] inv(2) _ _ _ _ refl]
  have c: "chains env (ce\<lparr>bbaVoter := bv\<rparr>) = chains env ce" for bv by (rule chain_of_cong) simp
  have z: "post (endOnZero env r s v (ce\<lparr>bbaVoter := bv\<rparr>)) ?P"
    if k: "\<exists>p. casts (BinaryBA m :: 'body wire_msg) (k, v, p)" "vk_b k = 0 \<and> quorum_for ms (threshold (bbaVoter ce)) k v" for s v bv k
  proof -
    obtain p where "casts (BinaryBA m :: 'body wire_msg) (k, v, p)" using k(1) ..
    then show ?thesis
      by (intro post_mono [OF chain_endOnZero]) (unfold c, use k(2) in \<open>auto simp del: casts.simps\<close>)
  qed
  have o: "post (endOnOne env r s (ce\<lparr>bbaVoter := bv\<rparr>)) ?P"
    if k: "\<exists>p. casts (BinaryBA m :: 'body wire_msg) (k, v, p)" "vk_b k \<noteq> 0 \<or> cs_step (cstate ce) > bbaMaxStep"
      "quorum_at ms (threshold (bbaVoter ce)) k" for s v bv k
  proof -
    obtain p where "casts (BinaryBA m :: 'body wire_msg) (k, v, p)" using k(1) ..
    then show ?thesis
      by (intro post_mono [OF chain_endOnOne]) (unfold c, use k(2,3) in \<open>auto simp del: casts.simps\<close>)
  qed
  have n: "post (voteNextStep env r s t a (ce\<lparr>bbaVoter := bv\<rparr>)) ?P" for s t a bv
    using chain_voteNextStep [of env r s t a "ce\<lparr>bbaVoter := bv\<rparr>"] by (simp add: post_def)
  show ?thesis unfolding onBinaryBA_def Let_def
    apply (intro post_rules n)
    subgoal by simp
    subgoal by simp
    subgoal by (hypsubst, rule z, rule q(1); (assumption | (rule q(3); (assumption | simp))))
    subgoal by (hypsubst, rule o, rule q(1); (assumption | (rule q(2); assumption) | (elim disjE conjE, simp, rule disjI1, rule q(4); assumption)))
    subgoal by simp
    done
qed

section \<open>Properties\<close>



text \<open>A node with two miners, whose threshold is one vote, and a vote for the empty block at step 5.\<close>

definition two_env :: "(nat, unit) env" where
  "two_env = \<lparr>hash = id, vrf = \<lparr>Generate = \<lambda>_ _ _. None, VerifyProof = \<lambda>_ _ _. True\<rparr>, bound53 = \<lambda>_. 2 ^ 53, VerifyBlock = \<lambda>_ _. True,
     ProposeBlock = \<lambda>_ _ c. (None, c), AcceptBlock = \<lambda>_ c. (None, Suc c), ProposeAndAcceptEmptyBlock = \<lambda>_ c. (None, Suc c),
     PerceivedCount = 2, Has = \<lambda>_. True, randBit = 0, commitOrder = [], valueOrder = [], IsOneOfFirstMiners = True\<rparr>"

definition empty_vote :: MsgBinaryBA where
  "empty_vote = \<lparr>bba_InShardProof = [7], SignedCredentialWithBA = Some \<lparr>Pk = replicate 32 1, Signature = [],
     Message = no_msg\<lparr>cm_CredentialWithBA := Some (NewCredentialWithBA 1 0 5 1 empty_value)\<rparr>\<rparr>\<rparr>"

definition two_sel :: Sortitionor where
  "two_sel = \<lparr>expNumShard = 2, leaderRates = replicate 4 5\<rparr>"

lemma two_start:
  "\<exists>ce. Start two_env (newExecutor 0 two_sel [] [] 9 1) = Some ce \<and> cs_round (cstate ce) = 0 \<and> cs_step (cstate ce) = 1 \<and>
     shardStatus (cstate ce) = shardEnabled \<and> threshold (bbaVoter ce) = 1 \<and> bbaHistory (bbaVoter ce) = (\<lambda>_. None) \<and>
     result (bbaVoter ce) = (\<lambda>_. None) \<and> blockchain ce = 0"
proof -
  have t: "threshold_of 2 = 1" by code_simp
  show ?thesis
    by (simp add: two_env_def newExecutor_def Start_def ce_updateShardStatus_def updateShardStatus_def newConsensusState_def setDepositCache_def
        initialRound_def startRound_def startAtRound_def startBody_def isShardEnable_def ce_setCurrentRound_def ce_setThreshold_def SetLeaderRate_def
        two_sel_def t emit_def setRound_def pbft_setThreshold_def pbft_setCurrentRound_def bba_setThreshold_def bba_setCurrentRound_def
        newBinaryBAVoter_def newPbftVoter_def generateNewRoundSeed_def ce_cleanUnusedData_def replayPendingMessage_def drop_keys_def Let_def)
qed

lemma empty_vote_filter:
  assumes "cs_round (cstate ce) = 0" "shardStatus (cstate ce) = shardEnabled"
  shows "msgFilter two_env 0 (BinaryBA empty_vote) ce = Some handleMsg"
proof -
  have "wf_value empty_value" by (simp add: wf_value_def empty_value_def)
  then have "isValidated two_env (BinaryBA empty_vote :: unit wire_msg) = Some True"
    by (simp add: isValidated_def verifyMiner_def two_env_def empty_vote_def bba_IsValidated_def isValidSignedCredential_def serialize_ptr_def
        ba_Serialize_eq NewCredentialWithBA_def recovers_def)
  moreover have "isInShard two_env (BinaryBA empty_vote :: unit wire_msg) ce"
    by (simp add: isInShard_def two_env_def empty_vote_def IsInShard_def fnv32_def)
  ultimately show ?thesis using assms
    by (simp add: msgFilter_def isStateValid_def bba_GetRound_def bba_credential_def empty_vote_def NewCredentialWithBA_def)
qed

lemma empty_vote_handled:
  assumes "cs_step (cstate ce) = 1" "threshold (bbaVoter ce) = 1" "bbaHistory (bbaVoter ce) = (\<lambda>_. None)" "result (bbaVoter ce) = (\<lambda>_. None)" "blockchain ce = 0"
  shows "\<exists>ce'. onBinaryBA two_env 0 empty_vote ce = Some ce' \<and> blockchain ce' = 1"
  using assms
  by (simp add: onBinaryBA_def bba_GetRound_def bba_GetStep_def bba_GetBValue_def bba_GetByzAgreementValue_def bba_credential_def empty_vote_def
      NewCredentialWithBA_def addVoteWithBBAMsg_def pkToPKKey_def bba_addVote_def numOfFinNodesBeforeStep_def numOfFinNodesFrom_eq fin_votes_def
      upto_rec1 Let_def endOnOne_def two_env_def bbaMaxStep_def)

lemma two_reachable:
  "\<exists>n :: (nat, unit) node. reachable id (vrf two_env) n \<and> (0, handleMsg, BinaryBA empty_vote) \<in> set (inflight n) \<and>
     (\<exists>ce'. onBinaryBA two_env 0 empty_vote (exec n) = Some ce' \<and> blockchain ce' \<noteq> blockchain (exec n))"
proof -
  let ?n = "\<lparr>exec = newExecutor 0 two_sel [] [] 9 1, inflight = [], passed = []\<rparr>"
  have 0: "reachable id (vrf two_env) ?n" by (rule new [of 2 5]) (simp add: NewSortitionor_def two_sel_def GenesisNumberOfShards_def)
  obtain ce where ce: "Start two_env (newExecutor 0 two_sel [] [] 9 1) = Some ce" "cs_round (cstate ce) = 0" "cs_step (cstate ce) = 1"
     "shardStatus (cstate ce) = shardEnabled" "threshold (bbaVoter ce) = 1" "bbaHistory (bbaVoter ce) = (\<lambda>_. None)"
     "result (bbaVoter ce) = (\<lambda>_. None)" "blockchain ce = 0" using two_start by blast
  have h: "hash two_env = id" by (simp add: two_env_def)
  have 1: "reachable id (vrf two_env) (?n\<lparr>exec := ce\<rparr>)" by (rule step [OF 0 started [OF h refl]]) (simp add: ce(1))
  have "msgFilter two_env 0 (BinaryBA empty_vote) (exec (?n\<lparr>exec := ce\<rparr>)) = Some handleMsg" using empty_vote_filter [OF ce(2,4)] by simp
  from step [OF 1 filtered [OF h refl this]] empty_vote_handled [OF ce(3,5-8)] ce(8)
  show ?thesis by (intro exI [of _ "\<lparr>exec = ce, inflight = [(0, handleMsg, BinaryBA empty_vote)], passed = [BinaryBA empty_vote]\<rparr>"]) auto
qed



end
