(* ===== verification/ExecutorLive.thy ===== *)
theory ExecutorLive
imports ExecutorSafety
begin

text \<open>
  What an executor does without help, and what stops it: the timers of the binary agreement carry it through the steps, a node
  outside the committee and a message without a credential make it panic, the timer after the graded consensus may be
  lost, and the messages of a later round are replayed in order.
\<close>

section \<open>The binary agreement goes on without messages\<close>

text \<open>A run of the timers of the binary agreement: the timer of each step fires, and no message arrives.\<close>

fun bba_timeouts :: "('c, 'body) env \<Rightarrow> int \<Rightarrow> int \<Rightarrow> nat \<Rightarrow> ('c, 'body) executor \<Rightarrow> ('c, 'body) executor option" where
  "bba_timeouts env r s 0 ce = Some ce"
| "bba_timeouts env r s (Suc n) ce = Option.bind (onBBATimeoutForNextStep env r s ce) (bba_timeouts env r (s + 1) n)"

definition coin :: "('c, 'body) env \<Rightarrow> int \<Rightarrow> byte" where
  "coin env s = (if (s - 1) smod 3 = 0 then 0 else if (s - 1) smod 3 = 1 then 1 else randBit env)"

definition to_shard :: "('c, 'body) executor \<Rightarrow> BroadcastParams" where
  "to_shard ce = \<lparr>ToNode = ToMinerNode, ToShard = Some (shardIndex ce), IncludeSelf = True\<rparr>"

text \<open>The effects of the timers: the vote of the step, and the timer of the next.\<close>

fun timer_trace :: "BroadcastParams \<Rightarrow> int \<Rightarrow> int \<Rightarrow> MsgBinaryBA list \<Rightarrow> 'body effect list" where
  "timer_trace par r s [] = []"
| "timer_trace par r s (m # ms) = [Broadcast (BinaryBA m) par, BBATimeout r (s + 1)] @ timer_trace par r (s + 1) ms"

text \<open>A vote of the node in a round and step, with a valid signature.\<close>

definition vote_of :: "('c, 'body) env \<Rightarrow> ('c, 'body) executor \<Rightarrow> int \<Rightarrow> int \<Rightarrow> byte \<Rightarrow> ByzAgreementValue \<Rightarrow> MsgBinaryBA \<Rightarrow> bool" where
  "vote_of env ce r s b v m \<longleftrightarrow>
     bba_GetRound m = Some r \<and> bba_GetStep m = Some s \<and> bba_GetBValue m = Some b \<and> bba_GetByzAgreementValue m = Some v \<and>
     bba_InShardProof m = inShardProof (cstate ce) \<and> map_option Pk (SignedCredentialWithBA m) = Some (pk ce) \<and>
     bba_IsValidated (vrf env) m = Some (Inr ())"

definition can_vote :: "('c, 'body) env \<Rightarrow> ('c, 'body) executor \<Rightarrow> bool" where
  "can_vote env ce \<longleftrightarrow>
     isCommitteeVerifier env (inShardProof (cstate ce)) GetDepositUnit \<and>
     (\<forall>m. \<exists>p. Generate (vrf env) (pk ce) (sk ce) m = Some p \<and> VerifyProof (vrf env) (pk ce) p m)"

lemma sint_word: "- (2 ^ 31) \<le> i \<Longrightarrow> i < 2 ^ 31 \<Longrightarrow> sint (word_of_int i :: 32 word) = i"
  by (subst signed_of_int) (simp add: signed_take_bit_int_eq_self)

lemma checkVerifier_vote:
  assumes "can_vote env ce" "wf_value v" "0 \<le> r" "r < 2 ^ 31" "0 \<le> s" "s < 2 ^ 31"
  shows "\<exists>m. checkVerifierAndGenerateSignedMessage env b v r s ce = Some (Some (BinaryBA m)) \<and> vote_of env ce r s b v m"
proof -
  let ?c = "NewCredentialWithBA (shardIndex ce) (word_of_int r) (word_of_int s) b v"
  have wf: "wf_value (ba_V ?c)" using assms(2) by (simp add: NewCredentialWithBA_def)
  obtain p where p: "Generate (vrf env) (pk ce) (sk ce) (enc_list (concat (ba_items ?c))) = Some p"
      "VerifyProof (vrf env) (pk ce) p (enc_list (concat (ba_items ?c)))" using assms(1) by (auto simp: can_vote_def)
  let ?sc = "\<lparr>Pk = pk ce, Signature = [], Message = no_msg\<lparr>cm_CredentialWithBA := Some ?c\<rparr>\<rparr>"
  let ?m = "\<lparr>bba_InShardProof = inShardProof (cstate ce), SignedCredentialWithBA = Some (?sc\<lparr>Signature := p\<rparr>)\<rparr>"
  have "bba_Sign (vrf env) (sk ce) \<lparr>bba_InShardProof = inShardProof (cstate ce), SignedCredentialWithBA = Some ?sc\<rparr> = Some (Inr ?m)"
    using p(1) by (simp add: bba_Sign_def sign_def serialize_ptr_def ba_Serialize_eq [OF wf] then_check_def)
  moreover have "isCommitteeVerifier env (inShardProof (cstate ce)) GetDepositUnit" using assms(1) by (simp add: can_vote_def)
  ultimately have "checkVerifierAndGenerateSignedMessage env b v r s ce = Some (Some (BinaryBA ?m))"
    using assms(5) by (simp add: checkVerifierAndGenerateSignedMessage_def Let_def)
  moreover have "vote_of env ce r s b v ?m"
    using p(2) assms(3-6) sint_word [of r] sint_word [of s]
    by (simp add: vote_of_def bba_GetRound_def bba_GetStep_def bba_GetBValue_def bba_GetByzAgreementValue_def bba_credential_def NewCredentialWithBA_def
        bba_IsValidated_def isValidSignedCredential_def serialize_ptr_def ba_Serialize_eq [OF wf, unfolded NewCredentialWithBA_def])
  ultimately show ?thesis by blast
qed

lemma bbaTimeout_step:
  assumes "can_vote env ce" "wf_value v" "getResultValue r (bbaVoter ce) = Some v" "cs_round (cstate ce) = r" "cs_step (cstate ce) = s"
    and "0 \<le> r" "r < 2 ^ 31" "0 \<le> s" "s < 2 ^ 31"
  shows "\<exists>m. onBBATimeoutForNextStep env r s ce =
      Some (ce\<lparr>cstate := (cstate ce)\<lparr>cs_step := s + 1\<rparr>, out := out ce @ [Broadcast (BinaryBA m) (to_shard ce), BBATimeout r (s + 1)]\<rparr>) \<and>
    vote_of env ce r s (coin env s) v m"
proof -
  obtain m where m: "checkVerifierAndGenerateSignedMessage env (coin env s) v r s ce = Some (Some (BinaryBA m))" "vote_of env ce r s (coin env s) v m"
    using checkVerifier_vote [OF assms(1,2,6-9)] by blast
  show ?thesis using m assms(3-5)
    by (intro exI [of _ m])
      (simp add: onBBATimeoutForNextStep_def Let_def coin_def [symmetric] broadcastMessage_def emit_def to_shard_def setNextStepInRound_def)
qed

lemma can_vote_cong:
  "pk ce' = pk ce \<Longrightarrow> sk ce' = sk ce \<Longrightarrow> inShardProof (cstate ce') = inShardProof (cstate ce) \<Longrightarrow> can_vote env ce' = can_vote env ce"
  by (simp add: can_vote_def)

lemma bba_timeouts_run:
  "can_vote env ce \<Longrightarrow> wf_value v \<Longrightarrow> getResultValue r (bbaVoter ce) = Some v \<Longrightarrow> cs_round (cstate ce) = r \<Longrightarrow> cs_step (cstate ce) = s \<Longrightarrow>
     0 \<le> r \<Longrightarrow> r < 2 ^ 31 \<Longrightarrow> 0 \<le> s \<Longrightarrow> s + int n < 2 ^ 31 \<Longrightarrow>
     \<exists>ms. length ms = n \<and> (\<forall>i < n. vote_of env ce r (s + int i) (coin env (s + int i)) v (ms ! i)) \<and>
       bba_timeouts env r s n ce = Some (ce\<lparr>cstate := (cstate ce)\<lparr>cs_step := s + int n\<rparr>, out := out ce @ timer_trace (to_shard ce) r s ms\<rparr>)"
proof (induction n arbitrary: s ce)
  case 0
  then show ?case by auto
next
  case (Suc n)
  obtain m where m: "onBBATimeoutForNextStep env r s ce =
      Some (ce\<lparr>cstate := (cstate ce)\<lparr>cs_step := s + 1\<rparr>, out := out ce @ [Broadcast (BinaryBA m) (to_shard ce), BBATimeout r (s + 1)]\<rparr>)"
      "vote_of env ce r s (coin env s) v m"
    using bbaTimeout_step [of env ce v r s] Suc.prems by auto
  let ?ce = "ce\<lparr>cstate := (cstate ce)\<lparr>cs_step := s + 1\<rparr>, out := out ce @ [Broadcast (BinaryBA m) (to_shard ce), BBATimeout r (s + 1)]\<rparr>"
  have v: "vote_of env ?ce = vote_of env ce" by (simp add: vote_of_def fun_eq_iff)
  have t: "to_shard ?ce = to_shard ce" by (simp add: to_shard_def)
  have c: "can_vote env ?ce" using Suc.prems(1) by (simp add: can_vote_cong [of ?ce ce])
  obtain ms where ms: "length ms = n" "\<forall>i < n. vote_of env ?ce r (s + 1 + int i) (coin env (s + 1 + int i)) v (ms ! i)"
      "bba_timeouts env r (s + 1) n ?ce = Some (?ce\<lparr>cstate := (cstate ?ce)\<lparr>cs_step := s + 1 + int n\<rparr>, out := out ?ce @ timer_trace (to_shard ?ce) r (s + 1) ms\<rparr>)"
    using Suc.IH [OF c Suc.prems(2), of "s + 1"] Suc.prems by auto
  show ?case
  proof (intro exI [of _ "m # ms"] conjI allI impI)
    show "vote_of env ce r (s + int i) (coin env (s + int i)) v ((m # ms) ! i)" if "i < Suc n" for i
      using that m(2) ms(2) unfolding v by (cases i) (auto simp: algebra_simps)
  qed (use m(1) ms(1,3) t in \<open>simp_all add: algebra_simps\<close>)
qed

text \<open>C10. Without messages the binary agreement goes on: if the node is a member of the committee, its keys work, and a value has
  been fixed for the round, then each of any number of timeouts in turn moves it to the next step, broadcasts
  a validly signed vote for that value with the bit that the protocol prescribes for the step (zero, one, or the coin), and sets
  the timer of the next step. Nothing panics and nothing else changes.\<close>

theorem bba_timeouts_progress:
  assumes "can_vote env ce" "wf_value v" "getResultValue r (bbaVoter ce) = Some v" "cs_round (cstate ce) = r" "cs_step (cstate ce) = s"
    and "0 \<le> r" "r < 2 ^ 31" "0 \<le> s" "s + int n < 2 ^ 31"
  shows "\<exists>ms. length ms = n \<and> (\<forall>i < n. vote_of env ce r (s + int i) (coin env (s + int i)) v (ms ! i)) \<and>
    bba_timeouts env r s n ce = Some (ce\<lparr>cstate := (cstate ce)\<lparr>cs_step := s + int n\<rparr>, out := out ce @ timer_trace (to_shard ce) r s ms\<rparr>)"
  using bba_timeouts_run [OF assms] .

definition member_env :: "(nat, unit) env" where
  "member_env = two_env\<lparr>vrf := sample_vrf\<rparr>"

definition member :: "(nat, unit) executor" where
  "member = (newExecutor 0 two_sel [8] [9] 9 1)\<lparr>cstate := newConsensusState\<lparr>cs_round := 7, cs_step := 4\<rparr>, bbaVoter := setResultValue 7 empty_value (newBinaryBAVoter 7 1)\<rparr>"

theorem bba_timeouts_progress_witness:
  "\<exists>ce. bba_timeouts member_env 7 4 3 member = Some ce \<and> cs_step (cstate ce) = 7"
proof -
  have "uint (fnv32 (replicate 32 0)) < 2 ^ 32" using uint_lt2p [of "fnv32 (replicate 32 0)"] by simp
  then have "can_vote member_env member"
    by (simp add: can_vote_def member_env_def two_env_def member_def newExecutor_def sample_vrf_def isCommitteeVerifier_def IsInShard_def newConsensusState_def)
  moreover have "wf_value empty_value" by (simp add: wf_value_def empty_value_def)
  ultimately show ?thesis using bba_timeouts_progress [of member_env member empty_value 7 4 3]
    by (auto simp: member_def setResultValue_def newBinaryBAVoter_def getResultValue_def)
qed

text \<open>C33. A node that is not a member of the committee stops. \<^verbatim>\<open>checkVerifierAndGenerateSignedMessage\<close> returns a nil message for it,
  and the callers broadcast the message without a check: the timers of the graded consensus and of the binary agreement
  and the vote for the next step all panic, and so does a block that is accepted.\<close>

theorem non_member_panics:
  assumes "\<not> isCommitteeVerifier env (inShardProof (cstate ce)) GetDepositUnit"
  shows "(cs_round (cstate ce) = r \<and> cs_step (cstate ce) = s \<longrightarrow> onGCLastStepTimeout env r s ce = None) \<and>
    (cs_round (cstate ce) = r \<and> cs_step (cstate ce) = s \<and> getResultValue r (bbaVoter ce) \<noteq> None \<longrightarrow> onBBATimeoutForNextStep env r s ce = None) \<and>
    (getResultValue r (bbaVoter ce) \<noteq> None \<longrightarrow> voteNextStep env r s t a ce = None \<and> broadcastBBAFinMsg env r s 0 h ce = None) \<and>
    broadcastBBAFinMsg env r s 1 h ce = None"
  using assms
  by (auto simp: onGCLastStepTimeout_def onBBATimeoutForNextStep_def voteNextStep_def broadcastBBAFinMsg_def
      checkVerifierAndGenerateSignedMessage_def broadcastMessage_def Let_def)

definition outsider_env :: "(nat, unit) env" where
  "outsider_env = member_env\<lparr>bound53 := \<lambda>_. 0\<rparr>"

theorem non_member_panics_witness: "onBBATimeoutForNextStep outsider_env 7 4 member = None"
proof -
  have "\<not> isCommitteeVerifier outsider_env (inShardProof (cstate member)) GetDepositUnit"
    by (simp add: outsider_env_def isCommitteeVerifier_def IsInShard_def)
  from non_member_panics [OF this, of 7 4] show ?thesis
    by (simp add: member_def setResultValue_def newBinaryBAVoter_def getResultValue_def)
qed

section \<open>The timer after the graded consensus\<close>

lemma setStep_frame [simp]:
  "inShardProof (setStepInRound r s cs) = inShardProof cs" "cs_round (snd (setNextStepInRound r s cs)) = cs_round cs"
  by (simp_all add: setStepInRound_def setNextStepInRound_def)

text \<open>C32. The timer that the agreement of the graded consensus sets is for the step after the one the node was in, and the node
  itself goes to step 4 at least. For a node in step 3 or 4 the two agree. A node that reaches the agreement in step 1 or 2, from the
  messages of faster nodes, is moved to step 4 with a timer for step 2 or 3: when that fires nothing happens, so that the
  node has no timer for the binary agreement left.\<close>

theorem gc_agreement_timer:
  assumes "onGCMessage env r m ce = Some ce'" "out ce' \<noteq> out ce" "cs_round (cstate ce) = r"
  shows "\<exists>t. last (out ce') = BBATimeout r t \<and> t = cs_step (cstate ce) + 1 \<and> (cs_step (cstate ce') = t \<longleftrightarrow> 3 \<le> cs_step (cstate ce)) \<and>
    (cs_step (cstate ce) < 3 \<longrightarrow> cs_step (cstate ce') = 4 \<and> onBBATimeoutForNextStep env' r t ce' = Some ce')"
proof -
  have "post (onGCMessage env r m ce) (\<lambda>ce'. out ce' = out ce \<or> cs_step (cstate ce) \<le> 4 \<and>
      last (out ce') = BBATimeout r (cs_step (cstate ce) + 1) \<and>
      cstate ce' = snd (setNextStepInRound r (cs_step (cstate ce) + 1) (setStepInRound r 4 (cstate ce))))"
    unfolding onGCMessage_def Let_def
    by (intro post_rules) (auto simp: broadcastMessage_def emit_def)
  from postD [OF this assms(1)] assms(2) have "cs_step (cstate ce) \<le> 4" "last (out ce') = BBATimeout r (cs_step (cstate ce) + 1)"
      "cstate ce' = snd (setNextStepInRound r (cs_step (cstate ce) + 1) (setStepInRound r 4 (cstate ce)))" by blast+
  then show ?thesis using assms(3)
    by (auto simp: setNextStepInRound_def setStepInRound_def onBBATimeoutForNextStep_def)
qed

definition fast_gc :: "unit GCMessage" where
  "fast_gc = \<lparr>gc_ShardIndex = 1, gc_Seed = [], gc_SignedCredential = Some \<lparr>Pk = replicate 32 3, Signature = [], Message = no_msg\<lparr>cm_Credential := Some (NewCredential 7 3)\<rparr>\<rparr>,
     gc_SignedVal = Some \<lparr>Pk = replicate 32 3, Signature = [], Message = no_msg\<lparr>cm_ByzAgreementValue := Some empty_value\<rparr>\<rparr>, gc_Block = None, gc_InShardProof = []\<rparr>"

definition slow_node :: "(nat, unit) executor" where
  "slow_node = member\<lparr>cstate := (cstate member)\<lparr>cs_step := 2\<rparr>, bbaVoter := newBinaryBAVoter 7 1\<rparr>"

lemma fast_gc_agreement: "\<exists>ce'. onGCMessage member_env 7 fast_gc slow_node = Some ce' \<and> out ce' \<noteq> out slow_node"
proof -
  let ?bv = "newBinaryBAVoter 7 1\<lparr>gcHistory := [replicate 32 3 \<mapsto> True], result := [key 7 3 0 \<mapsto> \<lparr>cnt = 1, cntMap = [empty_value \<mapsto> 1]\<rparr>]\<rparr>"
  have a: "addGCVote 7 3 0 empty_value (replicate 32 3) (newBinaryBAVoter 7 1) = Some ((Some (key 7 3 0), totalAgreeOnZero, False), ?bv)"
    by (simp add: addGCVote_def pkToPKKey_def newBinaryBAVoter_def bba_addVote_def numOfFinNodesBeforeStep_def numOfFinNodesFrom.simps Let_def at0_def)
  let ?ce = "slow_node\<lparr>bbaVoter := setResultValue 7 empty_value ?bv, cstate := setStepInRound 7 4 (cstate slow_node)\<rparr>"
  have "uint (fnv32 (replicate 32 0)) < 2 ^ 32" using uint_lt2p [of "fnv32 (replicate 32 0)"] by simp
  then have "can_vote member_env ?ce"
    by (simp add: can_vote_def member_env_def two_env_def slow_node_def member_def newExecutor_def sample_vrf_def isCommitteeVerifier_def IsInShard_def
        newConsensusState_def)
  moreover have "wf_value empty_value" by (simp add: wf_value_def empty_value_def)
  ultimately obtain msg where "checkVerifierAndGenerateSignedMessage member_env (if BlockHash empty_value \<noteq> emptyBlockHash then 0 else 1) empty_value 7 4 ?ce =
      Some (Some (BinaryBA msg))"
    using checkVerifier_vote [of member_env ?ce empty_value 7 4] by fastforce
  then show ?thesis using a
    by (simp add: onGCMessage_def fast_gc_def gc_GetRound_def gc_GetStep_def gc_GetByzAgreementValue_def credential_def NewCredential_def slow_node_def
        member_def newConsensusState_def Let_def broadcastMessage_def emit_def)
qed

theorem gc_agreement_timer_witness:
  "\<exists>ce' t. onGCMessage member_env 7 fast_gc slow_node = Some ce' \<and> last (out ce') = BBATimeout 7 t \<and> onBBATimeoutForNextStep member_env 7 t ce' = Some ce'"
proof -
  obtain ce' where ce: "onGCMessage member_env 7 fast_gc slow_node = Some ce'" "out ce' \<noteq> out slow_node" using fast_gc_agreement by blast
  have "cs_round (cstate slow_node) = 7" "cs_step (cstate slow_node) = 2" by (simp_all add: slow_node_def member_def)
  then show ?thesis using gc_agreement_timer [OF ce, of member_env] ce(1) by auto
qed

section \<open>Messages of later rounds\<close>

fun saveAll :: "(int \<times> int \<times> bytes \<times> 'body wire_msg) list \<Rightarrow> 'body pendingData \<Rightarrow> 'body pendingData" where
  "saveAll [] pd = pd"
| "saveAll ((r, s, p, m) # ms) pd = saveAll ms (saveMsg r s p m pd)"

lemma saveAll_append: "saveAll (ms @ ms') pd = saveAll ms' (saveAll ms pd)"
  by (induction ms pd rule: saveAll.induct) auto

definition at_step :: "int \<Rightarrow> int \<Rightarrow> (int \<times> int \<times> bytes \<times> 'body wire_msg) list \<Rightarrow> 'body wire_msg list" where
  "at_step r s ms = map (\<lambda>(r, s, p, m). m) (filter (\<lambda>(r', s', p, m). r' = r \<and> s' = s) ms)"

definition top_step :: "int \<Rightarrow> (int \<times> int \<times> bytes \<times> 'body wire_msg) list \<Rightarrow> int" where
  "top_step r ms = foldl (\<lambda>t (r', s, p, m). if r' = r \<and> s > t then s else t) 0 ms"

lemma saveMsg_pending:
  "get2 (pendingMsg (saveMsg r s p m pd)) r' s' =
     (if r' = r \<and> s' = s then Some ((case get2 (pendingMsg pd) r s of None \<Rightarrow> [] | Some l \<Rightarrow> l) @ [m]) else get2 (pendingMsg pd) r' s')"
  "pendingMsg (saveMsg r s p m pd) r' = None \<longleftrightarrow> r' \<noteq> r \<and> pendingMsg pd r' = None"
  "pendingMsgMaxStep (saveMsg r s p m pd) r' =
     (if r' = r \<and> s > (case pendingMsgMaxStep pd r of None \<Rightarrow> 0 | Some t \<Rightarrow> t) then Some s else pendingMsgMaxStep pd r')"
  by (auto simp: saveMsg_def Let_def get2_upd2 get2_def upd2_def split: option.splits)

lemma saveAll_pending:
  fixes ms :: "(int \<times> int \<times> bytes \<times> 'body wire_msg) list"
  defines "pd \<equiv> saveAll ms newPendingData"
  shows "(case get2 (pendingMsg pd) r s of None \<Rightarrow> [] | Some l \<Rightarrow> l) = at_step r s ms \<and>
    (pendingMsg pd r = None \<longrightarrow> filter (\<lambda>(r', s, p, m). r' = r) ms = []) \<and>
    pendingMsgMaxStep pd r = (if top_step r ms = 0 then None else Some (top_step r ms))"
  unfolding pd_def
proof (induction ms arbitrary: r s rule: rev_induct)
  case Nil
  then show ?case by (simp add: newPendingData_def get2_def at_step_def top_step_def)
next
  case (snoc z ms)
  obtain r0 s0 p0 m0 where z: "z = (r0, s0, p0, m0)" by (cases z)
  have "0 \<le> foldl (\<lambda>t (r', s, p, m). if r' = r \<and> s > t then s else t) t ms" if "0 \<le> t" for t :: int and ms :: "(int \<times> int \<times> bytes \<times> 'body wire_msg) list"
    using that by (induction ms arbitrary: t) (auto split: if_splits prod.splits)
  then have "0 \<le> top_step r ms" by (simp add: top_step_def)
  then show ?case using snoc [of r s] snoc [of r0 s0] z
    by (auto simp: saveAll_append saveMsg_pending at_step_def top_step_def)
qed

text \<open>Sorting by buckets is the stable sort.\<close>

lemma sorted_buckets: "sorted ss \<Longrightarrow> (\<And>s x. s \<in> set ss \<Longrightarrow> x \<in> set (g s) \<Longrightarrow> f x = s) \<Longrightarrow> sorted (map f (concat (map g ss)))"
proof (induction ss)
  case (Cons s ss)
  have "map f (g s) = replicate (length (g s)) s" using Cons.prems(2) [of s] by (intro replicate_eqI) auto
  then show ?case using Cons by (auto simp: sorted_append)
qed simp

lemma filter_buckets:
  "distinct ss \<Longrightarrow> filter (\<lambda>x. f x = k) (concat (map (\<lambda>s. filter (\<lambda>x. f x = s) xs) ss)) = (if k \<in> set ss then filter (\<lambda>x. f x = k) xs else [])"
proof (induction ss)
  case (Cons s ss)
  have "filter (\<lambda>x. f x = k) (filter (\<lambda>x. f x = s) xs) = (if k = s then filter (\<lambda>x. f x = k) xs else [])"
    by (auto simp: filter_empty_conv intro: filter_cong)
  then show ?case using Cons by auto
qed simp

lemma sort_key_buckets:
  fixes f :: "'a \<Rightarrow> int"
  assumes "\<forall>x \<in> set xs. a \<le> f x \<and> f x \<le> b"
  shows "sort_key f xs = concat (map (\<lambda>s. filter (\<lambda>x. f x = s) xs) [a..b])" (is "_ = ?ys")
proof (rule properties_for_sort_key)
  have k: "filter (\<lambda>x. f x = f y) ?ys = filter (\<lambda>x. f x = f y) xs" if "y \<in> set xs" for y
    using filter_buckets [of "[a..b]" f "f y" xs] assms that by simp
  have s: "set ?ys = set xs" using assms by auto
  show "filter (\<lambda>x. f y = f x) ?ys = filter (\<lambda>x. f y = f x) xs" if "y \<in> set ?ys" for y
    using k [of y] that unfolding s by (simp only: eq_commute [of "f y"])
  show "mset ?ys = mset xs"
  proof (rule multiset_eqI)
    fix y
    have c: "count (mset zs) y = count (mset (filter (\<lambda>x. f x = f y) zs)) y" for zs by simp
    show "count (mset ?ys) y = count (mset xs) y"
    proof (cases "y \<in> set xs")
      case True
      then show ?thesis using k by (simp only: c [of ?ys] c [of xs])
    next
      case False
      then have "y \<notin> set ?ys" using s by blast
      then show ?thesis using False by (metis count_mset_0_iff)
    qed
  qed
  show "sorted (map f ?ys)" by (rule sorted_buckets) auto
qed

lemma top_step_bound: "(r, s, p, m) \<in> set ms \<Longrightarrow> s \<le> top_step r ms"
proof (induction ms rule: rev_induct)
  case (snoc z ms)
  obtain r' s' p' m' where "z = (r', s', p', m')" by (cases z)
  then show ?case using snoc by (auto simp: top_step_def)
qed simp

text \<open>C16. The messages of a later round are replayed when the round begins: all those of step 1 or later, ordered by step, and in the order
  of arrival within a step. Messages of step 0 and of negative steps, which the final votes carry, are saved but never replayed.\<close>

theorem pending_replay_sorted:
  fixes ce :: "('c, 'body) executor"
  shows "pending_of r (ce\<lparr>pendData := saveAll ms newPendingData\<rparr>) =
     map (\<lambda>(r, s, p, m). m) (sort_key (\<lambda>(r, s, p, m). s) (filter (\<lambda>(r', s, p, m). r' = r \<and> 1 \<le> s) ms))"
proof -
  let ?pd = "saveAll ms newPendingData" and ?f = "\<lambda>(r :: int, s :: int, p :: bytes, m :: 'body wire_msg). s" and ?xs = "filter (\<lambda>(r', s, p, m). r' = r \<and> 1 \<le> s) ms"
  let ?t = "top_step r ms"
  note p = saveAll_pending [of ms r]
  have "\<forall>x \<in> set ?xs. 1 \<le> ?f x \<and> ?f x \<le> ?t" using top_step_bound [of r] by fastforce
  then have "map (\<lambda>(r, s, p, m). m) (sort_key ?f ?xs) = concat (map (\<lambda>s. map (\<lambda>(r, s, p, m). m) (filter (\<lambda>x. ?f x = s) ?xs)) [1..?t])"
    by (subst sort_key_buckets [of ?xs 1 ?f ?t]) (simp_all only: map_concat map_map comp_def)
  also have "\<dots> = concat (map (\<lambda>s. at_step r s ms) [1..?t])"
    by (intro arg_cong [of _ _ concat] map_cong refl) (auto simp: at_step_def intro!: arg_cong [of _ _ "map _"] filter_cong)
  also have "\<dots> = pending_of r (ce\<lparr>pendData := ?pd\<rparr>)"
  proof (cases "pendingMsg ?pd r")
    case None
    then have "at_step r s ms = []" for s using p [of s] by (auto simp: at_step_def filter_empty_conv)
    then show ?thesis using None by (simp add: pending_of_def getPendingMsg_def)
  next
    case (Some mm)
    then have "(case mm s of None \<Rightarrow> [] | Some l \<Rightarrow> l) = at_step r s ms" for s using p [of s] by (simp add: get2_def)
    then show ?thesis using Some p [of 0] by (simp add: pending_of_def getPendingMsg_def)
  qed
  finally show ?thesis ..
qed

section \<open>Messages that stop a node\<close>

text \<open>C34. A message without a signed credential stops the node that receives it. The decoder accepts a missing credential as nil, and the
  first thing the dispatcher does is to read the round from it: it panics before any check of the message.\<close>

theorem nil_credential_panics:
  assumes "GetSignedCredential msg = None" "Command msg \<noteq> CmdMsgBlockConfirmation"
  shows "dispatchHandleMessage env msg ce = None"
  using assms
  by (cases msg) (simp_all add: dispatchHandleMessage_def msgFilter_def isStateValid_def Let_def bba_GetRound_def gc_GetRound_def lp_GetRound_def lv_GetRound_def
      sd_GetRound_def bba_credential_def credential_def)

theorem nil_credential_panics_witness:
  "dispatchHandleMessage two_env (BinaryBA \<lparr>bba_InShardProof = [], SignedCredentialWithBA = None\<rparr>) (newExecutor 0 two_sel [] [] 9 1) = None"
  by (rule nil_credential_panics) simp_all

section \<open>Shapes\<close>



end
