(* ===== verification/Spec2Isabelle.thy ===== *)
theory Spec2Isabelle
  imports FullMerkleTree DeltaMerkleTree RlpRaw ExecutorLive
begin

text \<open>
  A verification library for MultiVAC, a sharded proof-of-stake block chain node written in Go.

  \<^bold>\<open>The program.\<close> Each shard of the network agrees on one block per round. A miner keeps the ledger of its shard as a Merkle tree of
  hashes: a storage node has the whole tree, a miner only the parts it was sent proofs for. The messages of the agreement are
  serialized with RLP, signed with a verifiable random function (VRF), and sent through a gossip network. In a round the potential leaders,
  drawn by a sortition on the seed of the round, propose blocks; the committee votes for the proposal with the
  smallest seed, commits to it in a graded consensus, and then runs a binary Byzantine agreement on whether to accept it or to add an
  empty block.

  \<^bold>\<open>The theories\<close>, in the order in which they build on each other, and the Go code under \<^verbatim>\<open>src/\<close> they model:

  \<^item> \<^verbatim>\<open>Prelude\<close>: machine types, big-endian integers, Go maps, the logic \<open>post\<close> of code that may panic, and the locale \<open>simulation\<close>,
    the contract of a component with respect to an abstract one. \<^verbatim>\<open>Sha256\<close>: the hash function of Go's library.
  \<^item> \<^verbatim>\<open>Bits\<close>, \<^verbatim>\<open>MerklePath\<close>, \<^verbatim>\<open>MerkleTree\<close>: \<^verbatim>\<open>model/merkle/common.go\<close>, \<^verbatim>\<open>utils.go\<close>, \<^verbatim>\<open>ram_merkle_node.go\<close>, \<^verbatim>\<open>ram_node_map.go\<close>. Nodes are addresses of
    an explicit store, since the code shares and mutates them; the size of a tree is a 64-bit word, on whose bits the
    algorithms work. \<^verbatim>\<open>MerkleSpec\<close>, \<^verbatim>\<open>MerkleRep\<close>, \<^verbatim>\<open>MerkleShape\<close>: the abstract trees, the representation of a tree in the store, and the shape
    that appending keeps. \<^verbatim>\<open>FullMerkleTree\<close> (\<^verbatim>\<open>full_merkle_tree.go\<close>) and \<^verbatim>\<open>DeltaMerkleTree\<close> (\<^verbatim>\<open>delta_merkle_tree.go\<close>): every sequence of operations
    keeps the root equal to that of the list of leaves; a delta tree that has seen only some proofs computes the same root as
    the full tree; paths are refreshed correctly; the operations return on every reachable tree.
  \<^item> \<^verbatim>\<open>RlpEncode\<close>, \<^verbatim>\<open>RlpDecode\<close>, \<^verbatim>\<open>RlpRoundTrip\<close>, \<^verbatim>\<open>RlpRaw\<close>: \<^verbatim>\<open>base/rlp\<close>. Go types and values are the datatypes \<open>ty\<close> and \<open>val\<close>; the encoder has its
    buffer with separate list headers, the decoder its stream with the stack of list sizes. The encoder writes the
    specified encoding, the decoder returns the value it was made from, and the raw functions split lists of items.
  \<^item> \<^verbatim>\<open>Wire\<close>: the consensus messages and block headers of \<^verbatim>\<open>model/wire\<close>: what is serialized and signed, the validation of every message,
    the hash of a header. The signed bytes determine what was signed; a signed message is accepted.
  \<^item> \<^verbatim>\<open>BinaryBA\<close>, \<^verbatim>\<open>PbftVoter\<close>, \<^verbatim>\<open>ConsensusState\<close>, \<^verbatim>\<open>ConsensusData\<close>, \<^verbatim>\<open>Sortition\<close>: the parts of \<^verbatim>\<open>processor/miner/consensus\<close>. The voter of the binary
    agreement simulates a ballot box, and two quorums agree; the graded consensus commits by threshold; the ring buffer of seeds,
    the contract \<open>round_store\<close> of received data, and the threshold computed with doubles.
  \<^item> \<^verbatim>\<open>Executor\<close>: \<^verbatim>\<open>consensus_executor.go\<close>, \<^verbatim>\<open>msgfliter.go\<close>, \<^verbatim>\<open>msghandler.go\<close>, \<^verbatim>\<open>sync_listener.go\<close>: every handler as a function on the record \<open>executor\<close>, with the
    effects in a list. \<^verbatim>\<open>ExecutorSafety\<close>: the interleaving of its threads as a step relation, the invariant, and that the chain changes
    only with a quorum. \<^verbatim>\<open>ExecutorLive\<close>: progress by timers, replay of pending messages, and the ways to stop a node.

  \<^bold>\<open>Conventions.\<close> A Go pointer is an option; a panic is the value \<^const>\<open>None\<close> of the outer option of a function; a Go error is \<^const>\<open>Inl\<close>. Go's \<^verbatim>\<open>int\<close> is
  \<^typ>\<open>int\<close> where the values come from 32-bit fields or counters, and a word where the width matters. Iteration orders of Go maps are list
  arguments. Doubles are written out on integers. Loops over pointers are partial functions, for which termination is
  proved on every reachable tree; no fuel is used anywhere.

  \<^bold>\<open>Parameters.\<close> The VRF, the application block chain behind \<^verbatim>\<open>iabci.AppBlockChain\<close>, the heartbeat manager and the random bit are arguments of the
  model, and may behave differently at each call. The hash function is an argument of every theorem on Merkle trees and headers.

  \<^bold>\<open>Not modelled.\<close> The peer-to-peer network, RPC, databases and the storage node, the controllers that wire goroutines together, and the virtual
  machine are input and output or call libraries outside the repository. The handlers of the executor are atomic steps: an
  interleaving inside a handler, between two of its locked calls, is not considered. The decoder of RLP covers the kinds the messages use.
\<close>

end
